theory Spec2Isabelle
  imports Complex_Main "HOL-Library.AList" "HOL-Library.Multiset"
begin

section \<open>Data model of the solvency check\<close>

text \<open>
  The embedding follows \<^verbatim>\<open>checkEntitySolvency\<close>, \<^verbatim>\<open>propagateShortfalls\<close> and
  \<^verbatim>\<open>propagateEntityShortfalls\<close> of the solvency module.

  Numbers. The source mixes three numeric representations: \<^verbatim>\<open>bigint\<close> raw amounts,
  \<^verbatim>\<open>Decimal\<close> values and native \<^verbatim>\<open>number\<close>s. Raw amounts are modelled as \<^typ>\<open>int\<close>;
  \<^verbatim>\<open>Decimal\<close> and \<^verbatim>\<open>number\<close> are both idealised as exact rationals (\<^typ>\<open>rat\<close>), so
  rounding, NaN and infinities are outside the model.

  Maps. A JavaScript \<^verbatim>\<open>Map\<close> iterates in insertion order; it is modelled as an
  association list with \<^const>\<open>AList.update\<close> for \<^verbatim>\<open>set\<close> (replace in place, or append),
  \<^const>\<open>AList.delete\<close> for \<^verbatim>\<open>delete\<close> and \<^const>\<open>map_of\<close> for \<^verbatim>\<open>get\<close>.
  The entity map is the list of its values in insertion order; every caller keys it by
  the entity's own id, so \<^verbatim>\<open>entities.get(k)\<close> is the search for the entity with id \<^verbatim>\<open>k\<close>.
\<close>

type_synonym number = rat

record CoinInfo =
  typeName :: string
  decimals :: nat

record Amount =
  amt_int :: int
  amt_decimals :: nat

definition newAmount :: "CoinInfo \<Rightarrow> int \<Rightarrow> Amount" where
  "newAmount coin i = \<lparr>amt_int = i, amt_decimals = decimals coin\<rparr>"

definition fromInt :: "int \<Rightarrow> nat \<Rightarrow> Amount" where
  "fromInt i d = \<lparr>amt_int = i, amt_decimals = d\<rparr>"

definition toDecimal :: "Amount \<Rightarrow> number" where
  "toDecimal a = of_int (amt_int a) / 10 ^ amt_decimals a"

definition toNumber :: "Amount \<Rightarrow> number" where
  "toNumber a = of_int (amt_int a) / 10 ^ amt_decimals a"

datatype Asset =
    CoinAsset CoinInfo int
  | LPAsset CoinInfo CoinInfo int int

record Obligation =
  ob_from :: string
  ob_to :: string
  ob_asset :: Asset

datatype EntityType =
    SavDepositors | Sav | SupplyPoolStrategy | SupplyPool | Position | LpUser

record Entity =
  entity_id :: string
  entity_type :: EntityType
  entity_name :: string
  holdings :: "Asset list"
  obligations :: "Obligation list"

record AssetBalance =
  ab_coinType :: string
  ab_amount :: number

record ShortfallDetail =
  sd_coinType :: string
  sd_amount :: number
  sd_usdValue :: number
  sd_causedBy :: string

record EntityShortfall =
  owesTo :: string
  shortfalls :: "ShortfallDetail list"
  totalUsdValue :: number

record ObligationDetail =
  od_to :: string
  od_coinType :: string
  od_amount :: Amount
  od_usdValue :: number

record EntitySolvencyData =
  entityId :: string
  entityType :: EntityType
  entityName :: string
  totalAssets :: "AssetBalance list"
  totalLiabilities :: "AssetBalance list"
  totalAssetsUsd :: number
  totalLiabilitiesUsd :: number
  shortfallUsd :: number
  swapUsedUsd :: number
  swappedRepayments :: "AssetBalance list"
  shortfallsByCoin :: "(string \<times> number) list"
  shortfallsReceived :: "EntityShortfall list"
  shortfallsCaused :: "EntityShortfall list"

record SolvencyResult =
  isSolvent :: bool
  insolventEntities :: "string list"
  details :: "EntitySolvencyData list"

datatype error =
    PriceNotFound string
  | PriceNotFoundLP
  | CyclicGraph

type_synonym priceMap = "string \<Rightarrow> number option"
type_synonym entityData = "(string \<times> EntitySolvencyData) list"

text \<open>A loop whose body may throw: the first error ends it.\<close>

fun foldE :: "('s \<Rightarrow> 'a \<Rightarrow> error + 's) \<Rightarrow> 's \<Rightarrow> 'a list \<Rightarrow> error + 's" where
  "foldE f s [] = Inr s"
| "foldE f s (x # xs) = (case f s x of Inl e \<Rightarrow> Inl e | Inr s' \<Rightarrow> foldE f s' xs)"

section \<open>First pass: per-entity solvency\<close>

subsection \<open>Asset aggregation\<close>

definition getInt :: "(string \<times> Amount) list \<Rightarrow> string \<Rightarrow> int" where
  "getInt m k = (case map_of m k of None \<Rightarrow> 0 | Some a \<Rightarrow> amt_int a)"

text \<open>One holding or inbound obligation added to \<^verbatim>\<open>totalAssets\<close>. For a pair, both
  previous values are read before either is written, as in the source.\<close>

fun addAsset :: "(string \<times> Amount) list \<Rightarrow> Asset \<Rightarrow> (string \<times> Amount) list" where
  "addAsset m (CoinAsset coin amount) =
     (let prev = getInt m (typeName coin)
      in AList.update (typeName coin) (newAmount coin (prev + amount)) m)"
| "addAsset m (LPAsset coinA coinB amountA amountB) =
     (let prevA = getInt m (typeName coinA);
          prevB = getInt m (typeName coinB);
          m1 = AList.update (typeName coinA) (newAmount coinA (prevA + amountA)) m
      in AList.update (typeName coinB) (newAmount coinB (prevB + amountB)) m1)"

definition incoming :: "Entity list \<Rightarrow> Entity \<Rightarrow> Asset list" where
  "incoming entities entity =
     map ob_asset (filter (\<lambda>ob. ob_to ob = entity_id entity) (concat (map obligations entities)))"

definition aggregateAssets :: "Entity list \<Rightarrow> Entity \<Rightarrow> (string \<times> Amount) list" where
  "aggregateAssets entities entity =
     foldl addAsset (foldl addAsset [] (holdings entity)) (incoming entities entity)"

subsection \<open>Liability flattening\<close>

fun flattenObligation :: "priceMap \<Rightarrow> Obligation \<Rightarrow> error + ObligationDetail list" where
  "flattenObligation pm ob =
     (case ob_asset ob of
        CoinAsset coin amt \<Rightarrow>
          (case pm (typeName coin) of
             None \<Rightarrow> Inl (PriceNotFound (typeName coin))
           | Some price \<Rightarrow>
               (let amount = newAmount coin amt
                in Inr [\<lparr>od_to = ob_to ob, od_coinType = typeName coin, od_amount = amount,
                         od_usdValue = toNumber amount * price\<rparr>]))
      | LPAsset coinA coinB amtA amtB \<Rightarrow>
          (case (pm (typeName coinA), pm (typeName coinB)) of
             (Some priceA, Some priceB) \<Rightarrow>
               (let amountA = newAmount coinA amtA;
                    amountB = newAmount coinB amtB
                in Inr [\<lparr>od_to = ob_to ob, od_coinType = typeName coinA, od_amount = amountA,
                          od_usdValue = toNumber amountA * priceA\<rparr>,
                        \<lparr>od_to = ob_to ob, od_coinType = typeName coinB, od_amount = amountB,
                          od_usdValue = toNumber amountB * priceB\<rparr>])
           | _ \<Rightarrow> Inl PriceNotFoundLP))"

definition flattenObligations :: "priceMap \<Rightarrow> Obligation list \<Rightarrow> error + ObligationDetail list" where
  "flattenObligations pm obs =
     foldE (\<lambda>acc ob. case flattenObligation pm ob of Inl e \<Rightarrow> Inl e | Inr ds \<Rightarrow> Inr (acc @ ds)) [] obs"

subsection \<open>Totals in USD\<close>

definition sumAssetsUsd :: "priceMap \<Rightarrow> (string \<times> Amount) list \<Rightarrow> error + number" where
  "sumAssetsUsd pm tot =
     foldE (\<lambda>acc (coinType, amount).
              case pm coinType of
                None \<Rightarrow> Inl (PriceNotFound coinType)
              | Some price \<Rightarrow> Inr (acc + toDecimal amount * price)) 0 tot"

definition sumLiabilitiesUsd :: "ObligationDetail list \<Rightarrow> number" where
  "sumLiabilitiesUsd obs = foldl (\<lambda>acc ob. acc + od_usdValue ob) 0 obs"

subsection \<open>Step 1: direct same-coin netting\<close>

record Netting =
  remainingByCoin :: "(string \<times> int) list"
  remainingLiabilitiesUsd :: number
  shortfallUsdByCoin :: "(string \<times> number) list"

definition obligationsByCoin :: "ObligationDetail list \<Rightarrow> (string \<times> ObligationDetail list) list" where
  "obligationsByCoin obs =
     foldl (\<lambda>acc ob. case map_of acc (od_coinType ob) of
                        Some l \<Rightarrow> AList.update (od_coinType ob) (l @ [ob]) acc
                      | None \<Rightarrow> AList.update (od_coinType ob) [ob] acc) [] obs"

definition availableOf :: "(string \<times> int) list \<Rightarrow> string \<Rightarrow> int" where
  "availableOf remaining coinType = (case map_of remaining coinType of None \<Rightarrow> 0 | Some a \<Rightarrow> a)"

definition totalObIntOf :: "ObligationDetail list \<Rightarrow> int" where
  "totalObIntOf obs = foldl (\<lambda>sum ob. sum + amt_int (od_amount ob)) 0 obs"

definition netCoin ::
  "priceMap \<Rightarrow> ObligationDetail list \<Rightarrow> Netting \<Rightarrow> string \<times> ObligationDetail list \<Rightarrow> error + Netting" where
  "netCoin pm obs st g =
     (let coinType = fst g;
          available = availableOf (remainingByCoin st) coinType;
          totalObInt = totalObIntOf (snd g)
      in if available \<ge> totalObInt then
           (let rest = available - totalObInt
            in Inr (st\<lparr>remainingByCoin :=
                         (if rest > 0 then AList.update coinType rest (remainingByCoin st)
                          else AList.delete coinType (remainingByCoin st))\<rparr>))
         else
           (case pm coinType of
              None \<Rightarrow> Inl (PriceNotFound coinType)
            | Some price \<Rightarrow>
                (let short = totalObInt - available
                 in case find (\<lambda>ob. od_coinType ob = coinType) obs of
                      Some obligation \<Rightarrow>
                        (let shortfallAmount = fromInt short (amt_decimals (od_amount obligation));
                             usdShort = toDecimal shortfallAmount * price
                         in Inr \<lparr>remainingByCoin = AList.delete coinType (remainingByCoin st),
                                 remainingLiabilitiesUsd = remainingLiabilitiesUsd st + usdShort,
                                 shortfallUsdByCoin = AList.update coinType usdShort (shortfallUsdByCoin st)\<rparr>)
                    | None \<Rightarrow>
                        Inr (st\<lparr>remainingByCoin := AList.delete coinType (remainingByCoin st)\<rparr>))))"

definition directNetting ::
  "priceMap \<Rightarrow> (string \<times> Amount) list \<Rightarrow> ObligationDetail list \<Rightarrow> error + Netting" where
  "directNetting pm tot obs =
     foldE (netCoin pm obs)
       \<lparr>remainingByCoin = map (\<lambda>(coinType, amount). (coinType, amt_int amount)) tot,
        remainingLiabilitiesUsd = 0, shortfallUsdByCoin = []\<rparr>
       (obligationsByCoin obs)"

subsection \<open>Step 2: cross-asset coverage\<close>

definition sumRemainingUsd ::
  "priceMap \<Rightarrow> (string \<times> Amount) list \<Rightarrow> (string \<times> int) list \<Rightarrow> error + number" where
  "sumRemainingUsd pm tot remaining =
     foldE (\<lambda>acc (coinType, amount).
              case pm coinType of
                None \<Rightarrow> Inl (PriceNotFound coinType)
              | Some price \<Rightarrow>
                  (case map_of tot coinType of
                     Some assetAmount \<Rightarrow>
                       Inr (acc + toNumber (fromInt amount (amt_decimals assetAmount)) * price)
                   | None \<Rightarrow> Inr acc)) 0 remaining"

definition sumShortfallUsd :: "(string \<times> number) list \<Rightarrow> number" where
  "sumShortfallUsd sh = foldl (\<lambda>sum v. sum + v) 0 (map snd sh)"

definition swapRepayments ::
  "priceMap \<Rightarrow> number \<Rightarrow> (string \<times> number) list \<Rightarrow> error + AssetBalance list" where
  "swapRepayments pm swapUsed sh =
     (let totalShortfallUsd = sumShortfallUsd sh
      in foldE (\<lambda>acc (coinType, coinShortfallUsd).
                  (let proportion = coinShortfallUsd / totalShortfallUsd;
                       allocatedUsd = swapUsed * proportion
                   in case pm coinType of
                        None \<Rightarrow> Inl (PriceNotFound coinType)
                      | Some price \<Rightarrow>
                          Inr (acc @ [\<lparr>ab_coinType = coinType, ab_amount = allocatedUsd / price\<rparr>])))
           [] sh)"

record Swap =
  sw_swapUsedUsd :: number
  sw_swappedRepayments :: "AssetBalance list"
  sw_remainingLiabilitiesUsd :: number

definition crossAssetCoverage ::
  "priceMap \<Rightarrow> (string \<times> Amount) list \<Rightarrow> Netting \<Rightarrow> error + Swap" where
  "crossAssetCoverage pm tot st =
     (if remainingLiabilitiesUsd st > 0 \<and> remainingByCoin st \<noteq> [] then
        (case sumRemainingUsd pm tot (remainingByCoin st) of
           Inl e \<Rightarrow> Inl e
         | Inr remainingAssetsUsd \<Rightarrow>
             (let swapUsed = min remainingAssetsUsd (remainingLiabilitiesUsd st)
              in case (if swapUsed > 0 \<and> shortfallUsdByCoin st \<noteq> []
                       then swapRepayments pm swapUsed (shortfallUsdByCoin st) else Inr []) of
                   Inl e \<Rightarrow> Inl e
                 | Inr reps \<Rightarrow>
                     Inr \<lparr>sw_swapUsedUsd = swapUsed, sw_swappedRepayments = reps,
                          sw_remainingLiabilitiesUsd = remainingLiabilitiesUsd st - swapUsed\<rparr>))
      else Inr \<lparr>sw_swapUsedUsd = 0, sw_swappedRepayments = [],
                sw_remainingLiabilitiesUsd = remainingLiabilitiesUsd st\<rparr>)"

subsection \<open>Residual shortfall and the entity record\<close>

definition residualByCoin :: "priceMap \<Rightarrow> number \<Rightarrow> (string \<times> number) list \<Rightarrow> (string \<times> number) list" where
  "residualByCoin pm finalShortfallUsd sh =
     (if finalShortfallUsd > 0 \<and> sh \<noteq> [] then
        (let totalShortfallUsd = sumShortfallUsd sh
         in foldl (\<lambda>acc (coinType, coinShortfallUsd).
                     (let proportion = coinShortfallUsd / totalShortfallUsd;
                          remainingShortfallUsd = finalShortfallUsd * proportion
                      in case pm coinType of
                           Some price \<Rightarrow>
                             (let remainingShortfallAmount = remainingShortfallUsd / price
                              in if remainingShortfallAmount > 0
                                 then AList.update coinType remainingShortfallAmount acc else acc)
                         | None \<Rightarrow> acc)) [] sh)
      else [])"

definition totalLiabilitiesList :: "ObligationDetail list \<Rightarrow> AssetBalance list" where
  "totalLiabilitiesList obs =
     map snd
       (foldl (\<lambda>acc ob. case map_of acc (od_coinType ob) of
                          Some ex \<Rightarrow>
                            AList.update (od_coinType ob)
                              \<lparr>ab_coinType = od_coinType ob,
                               ab_amount = ab_amount ex + toNumber (od_amount ob)\<rparr> acc
                        | None \<Rightarrow>
                            AList.update (od_coinType ob)
                              \<lparr>ab_coinType = od_coinType ob, ab_amount = toNumber (od_amount ob)\<rparr> acc)
          [] obs)"

definition totalAssetsList :: "(string \<times> Amount) list \<Rightarrow> AssetBalance list" where
  "totalAssetsList tot = map (\<lambda>(coinType, amount). \<lparr>ab_coinType = coinType, ab_amount = toNumber amount\<rparr>) tot"

text \<open>The body of the first-pass loop for one entity. The source also pushes the entity's
  id on a local list of provisionally insolvent entities, which is never read again.\<close>

definition entitySolvency :: "Entity list \<Rightarrow> priceMap \<Rightarrow> Entity \<Rightarrow> error + EntitySolvencyData" where
  "entitySolvency entities pm entity =
     (let tot = aggregateAssets entities entity
      in case flattenObligations pm (obligations entity) of
           Inl e \<Rightarrow> Inl e
         | Inr obs \<Rightarrow>
        (case sumAssetsUsd pm tot of
           Inl e \<Rightarrow> Inl e
         | Inr assetsUsd \<Rightarrow>
        (case directNetting pm tot obs of
           Inl e \<Rightarrow> Inl e
         | Inr st \<Rightarrow>
        (case crossAssetCoverage pm tot st of
           Inl e \<Rightarrow> Inl e
         | Inr sw \<Rightarrow>
             (let finalShortfallUsd = max (sw_remainingLiabilitiesUsd sw) 0
              in Inr \<lparr>entityId = entity_id entity,
                      entityType = entity_type entity,
                      entityName = entity_name entity,
                      totalAssets = totalAssetsList tot,
                      totalLiabilities = totalLiabilitiesList obs,
                      totalAssetsUsd = assetsUsd,
                      totalLiabilitiesUsd = sumLiabilitiesUsd obs,
                      shortfallUsd = finalShortfallUsd,
                      swapUsedUsd = sw_swapUsedUsd sw,
                      swappedRepayments = sw_swappedRepayments sw,
                      shortfallsByCoin = residualByCoin pm finalShortfallUsd (shortfallUsdByCoin st),
                      shortfallsReceived = [],
                      shortfallsCaused = []\<rparr>)))))"

definition firstPass :: "Entity list \<Rightarrow> priceMap \<Rightarrow> error + entityData" where
  "firstPass entities pm =
     foldE (\<lambda>acc entity. case entitySolvency entities pm entity of
                            Inl e \<Rightarrow> Inl e
                          | Inr d \<Rightarrow> Inr (AList.update (entity_id entity) d acc)) [] entities"

section \<open>Second pass: shortfall propagation\<close>

subsection \<open>The dependency graph\<close>

text \<open>
  The graph is built with the graphology library: one node per entity id, and one edge
  debtor \<rightarrow> creditor per obligation whose endpoints are both nodes, added once.
\<close>

record Graph =
  nodes :: "string list"
  edges :: "(string \<times> string) list"

definition addEdges :: "string list \<Rightarrow> (string \<times> string) list \<Rightarrow> (string \<times> string) list" where
  "addEdges ns cands =
     foldl (\<lambda>es e. if fst e \<in> set ns \<and> snd e \<in> set ns \<and> e \<notin> set es then es @ [e] else es) [] cands"

definition buildGraph :: "Entity list \<Rightarrow> Graph" where
  "buildGraph entities =
     (let ns = map entity_id entities
      in \<lparr>nodes = ns,
          edges = addEdges ns
                    (concat (map (\<lambda>entity. map (\<lambda>ob. (entity_id entity, ob_to ob)) (obligations entity))
                       entities))\<rparr>)"

text \<open>
  \<^verbatim>\<open>hasCycle\<close> and \<^verbatim>\<open>topologicalSort\<close> are functions of the graphology-dag library.
  \<^verbatim>\<open>hasCycle\<close> is modelled by its contract, as a decision procedure: nodes without a
  predecessor among the remaining nodes are removed until nothing changes, and the graph
  has a cycle iff some node remains (lemma \<open>hasCycle_iff\<close> below relates it to paths).
  \<^verbatim>\<open>topologicalSort\<close> is modelled as the library implements it, Kahn's algorithm over a
  queue of nodes whose in-degree has dropped to zero.
\<close>

definition hasPredIn :: "(string \<times> string) list \<Rightarrow> string list \<Rightarrow> string \<Rightarrow> bool" where
  "hasPredIn es ns v = (\<exists>e \<in> set es. snd e = v \<and> fst e \<in> set ns)"

function prune :: "(string \<times> string) list \<Rightarrow> string list \<Rightarrow> string list" where
  "prune es ns =
     (let ns' = filter (hasPredIn es ns) ns
      in if length ns' < length ns then prune es ns' else ns)"
  by pat_completeness auto
termination
  by (relation "measure (\<lambda>(es, ns). length ns)") auto

declare prune.simps [simp del]

definition hasCycle :: "Graph \<Rightarrow> bool" where
  "hasCycle g = (prune (edges g) (nodes g) \<noteq> [])"

definition outNeighbors :: "(string \<times> string) list \<Rightarrow> string \<Rightarrow> string list" where
  "outNeighbors es v = map snd (filter (\<lambda>e. fst e = v) es)"

definition inDegree :: "(string \<times> string) list \<Rightarrow> string \<Rightarrow> int" where
  "inDegree es v = int (length (filter (\<lambda>e. snd e = v) es))"

fun relax :: "string list \<Rightarrow> (string \<times> int) list \<times> string list \<Rightarrow> (string \<times> int) list \<times> string list" where
  "relax [] s = s"
| "relax (w # ws) (deg, q) =
     (case map_of deg w of
        None \<Rightarrow> relax ws (deg, q)
      | Some d \<Rightarrow> relax ws (AList.update w (d - 1) deg, if d - 1 = 0 then q @ [w] else q))"

fun kahn :: "nat \<Rightarrow> (string \<times> string) list \<Rightarrow> (string \<times> int) list \<times> string list \<Rightarrow> string list" where
  "kahn 0 es s = []"
| "kahn (Suc n) es (deg, []) = []"
| "kahn (Suc n) es (deg, v # q) = v # kahn n es (relax (outNeighbors es v) (deg, q))"

definition topologicalSort :: "Graph \<Rightarrow> string list" where
  "topologicalSort g =
     kahn (length (nodes g)) (edges g)
       (map (\<lambda>v. (v, inDegree (edges g) v)) (filter (\<lambda>v. inDegree (edges g) v \<noteq> 0) (nodes g)),
        filter (\<lambda>v. inDegree (edges g) v = 0) (nodes g))"

subsection \<open>Propagation from one entity\<close>

definition getNum :: "(string \<times> number) list \<Rightarrow> string \<Rightarrow> number" where
  "getNum m k = (case map_of m k of None \<Rightarrow> 0 | Some v \<Rightarrow> v)"

definition addCreditorObligation ::
  "(string \<times> (string \<times> number) list) list \<Rightarrow> string \<Rightarrow> string \<Rightarrow> number
     \<Rightarrow> (string \<times> (string \<times> number) list) list" where
  "addCreditorObligation m creditorId coinType amount =
     (let m1 = (if map_of m creditorId = None then AList.update creditorId [] m else m)
      in case map_of m1 creditorId of
           Some creditorObligations \<Rightarrow>
             AList.update creditorId
               (AList.update coinType (getNum creditorObligations coinType + amount) creditorObligations) m1
         | None \<Rightarrow> m1)"

definition addObligation ::
  "(string \<times> (string \<times> number) list) list \<Rightarrow> Obligation \<Rightarrow> (string \<times> (string \<times> number) list) list" where
  "addObligation m ob =
     (case ob_asset ob of
        CoinAsset coin amt \<Rightarrow>
          addCreditorObligation m (ob_to ob) (typeName coin) (toNumber (newAmount coin amt))
      | LPAsset coinA coinB amtA amtB \<Rightarrow>
          addCreditorObligation
            (addCreditorObligation m (ob_to ob) (typeName coinA) (toNumber (newAmount coinA amtA)))
            (ob_to ob) (typeName coinB) (toNumber (newAmount coinB amtB)))"

definition obligationsByCreditor :: "Entity \<Rightarrow> (string \<times> (string \<times> number) list) list" where
  "obligationsByCreditor entity = foldl addObligation [] (obligations entity)"

definition totalObligationsForCoin :: "(string \<times> (string \<times> number) list) list \<Rightarrow> string \<Rightarrow> number" where
  "totalObligationsForCoin obc coinType =
     foldl (\<lambda>sum creditorObs. sum + getNum creditorObs coinType) 0 (map snd obc)"

text \<open>\<^verbatim>\<open>find\<close> the entry, then update it in place or push a new one.\<close>

fun addDetail :: "ShortfallDetail list \<Rightarrow> string \<Rightarrow> number \<Rightarrow> number \<Rightarrow> string \<Rightarrow> ShortfallDetail list" where
  "addDetail [] coinType a u src = [\<lparr>sd_coinType = coinType, sd_amount = a, sd_usdValue = u, sd_causedBy = src\<rparr>]"
| "addDetail (d # ds) coinType a u src =
     (if sd_coinType d = coinType
      then d\<lparr>sd_amount := sd_amount d + a, sd_usdValue := sd_usdValue d + u\<rparr> # ds
      else d # addDetail ds coinType a u src)"

fun addShortfall ::
  "EntityShortfall list \<Rightarrow> string \<Rightarrow> string \<Rightarrow> number \<Rightarrow> number \<Rightarrow> string \<Rightarrow> EntityShortfall list" where
  "addShortfall [] k coinType a u src =
     [\<lparr>owesTo = k,
       shortfalls = [\<lparr>sd_coinType = coinType, sd_amount = a, sd_usdValue = u, sd_causedBy = src\<rparr>],
       totalUsdValue = u\<rparr>]"
| "addShortfall (s # ss) k coinType a u src =
     (if owesTo s = k
      then s\<lparr>shortfalls := addDetail (shortfalls s) coinType a u src,
             totalUsdValue := totalUsdValue s + u\<rparr> # ss
      else s # addShortfall ss k coinType a u src)"

text \<open>The records of \<^verbatim>\<open>entityData\<close> are shared mutable objects; a mutation is an update
  of the store at the object's key.\<close>

definition modifyData :: "string \<Rightarrow> (EntitySolvencyData \<Rightarrow> EntitySolvencyData) \<Rightarrow> entityData \<Rightarrow> entityData" where
  "modifyData k f st = (case map_of st k of None \<Rightarrow> st | Some d \<Rightarrow> AList.update k (f d) st)"

definition distributeToCreditor ::
  "string \<Rightarrow> string \<Rightarrow> number \<Rightarrow> number \<Rightarrow> number \<Rightarrow> entityData
     \<Rightarrow> string \<times> (string \<times> number) list \<Rightarrow> entityData" where
  "distributeToCreditor eid coinType shortfallAmount shortfallUsdValue totalObs st cr =
     (let creditorId = fst cr;
          creditorObligationAmount = getNum (snd cr) coinType
      in if creditorObligationAmount > 0 then
           (let proportion = creditorObligationAmount / totalObs;
                creditorShortfall = shortfallAmount * proportion;
                creditorShortfallUsd = shortfallUsdValue * proportion
            in case map_of st creditorId of
                 None \<Rightarrow> st
               | Some creditorData \<Rightarrow>
                   (let st1 = modifyData creditorId
                                (\<lambda>d. d\<lparr>shortfallsReceived :=
                                          addShortfall (shortfallsReceived d) eid coinType
                                            creditorShortfall creditorShortfallUsd eid\<rparr>) st;
                        st2 = modifyData eid
                                (\<lambda>d. d\<lparr>shortfallsCaused :=
                                          addShortfall (shortfallsCaused d) creditorId coinType
                                            creditorShortfall creditorShortfallUsd eid\<rparr>) st1
                    in modifyData creditorId
                         (\<lambda>d. if totalLiabilities d \<noteq> []
                               then d\<lparr>shortfallsByCoin :=
                                         AList.update coinType
                                           (getNum (shortfallsByCoin d) coinType + creditorShortfall)
                                           (shortfallsByCoin d)\<rparr>
                               else d) st2))
         else st)"

definition distributeCoin ::
  "string \<Rightarrow> (string \<times> (string \<times> number) list) list \<Rightarrow> priceMap \<Rightarrow> entityData
     \<Rightarrow> string \<times> number \<Rightarrow> entityData" where
  "distributeCoin eid obc pm st sh =
     (let coinType = fst sh;
          shortfallAmount = snd sh;
          totalObs = totalObligationsForCoin obc coinType
      in if totalObs > 0 then
           (case pm coinType of
              None \<Rightarrow> st
            | Some price \<Rightarrow>
                foldl (distributeToCreditor eid coinType shortfallAmount (shortfallAmount * price) totalObs)
                  st obc)
         else st)"

definition propagateEntityShortfalls :: "string \<Rightarrow> entityData \<Rightarrow> Entity list \<Rightarrow> priceMap \<Rightarrow> entityData" where
  "propagateEntityShortfalls eid st entities pm =
     (case (find (\<lambda>e. entity_id e = eid) entities, map_of st eid) of
        (Some entity, Some d) \<Rightarrow>
          (let totalShortfallsByCoin = shortfallsByCoin d
           in if totalShortfallsByCoin \<noteq> []
              then foldl (distributeCoin eid (obligationsByCreditor entity) pm) st totalShortfallsByCoin
              else st)
      | _ \<Rightarrow> st)"

subsection \<open>The propagation pass and the result\<close>

definition propagateAlong :: "string list \<Rightarrow> entityData \<Rightarrow> Entity list \<Rightarrow> priceMap \<Rightarrow> entityData" where
  "propagateAlong processingOrder st entities pm =
     foldl (\<lambda>s eid. propagateEntityShortfalls eid s entities pm) st processingOrder"

definition propagateShortfalls :: "entityData \<Rightarrow> Entity list \<Rightarrow> priceMap \<Rightarrow> error + entityData" where
  "propagateShortfalls st entities pm =
     (let graph = buildGraph entities
      in if hasCycle graph then Inl CyclicGraph
         else Inr (propagateAlong (topologicalSort graph) st entities pm))"

definition isInsolvent :: "EntitySolvencyData \<Rightarrow> bool" where
  "isInsolvent d =
     (let hasDirectShortfall = (shortfallsByCoin d \<noteq> [] \<or> shortfallUsd d > 0);
          hasOutgoingObligations = (totalLiabilities d \<noteq> []);
          hasReceivedShortfalls = (shortfallsReceived d \<noteq> [])
      in hasDirectShortfall \<or> (hasOutgoingObligations \<and> hasReceivedShortfalls))"

definition finalResult :: "entityData \<Rightarrow> SolvencyResult" where
  "finalResult st =
     (let finalInsolventEntities = map entityId (filter isInsolvent (map snd st))
      in \<lparr>isSolvent = (finalInsolventEntities = []),
          insolventEntities = finalInsolventEntities,
          details = map snd st\<rparr>)"

definition checkEntitySolvency :: "Entity list \<Rightarrow> priceMap \<Rightarrow> error + SolvencyResult" where
  "checkEntitySolvency entities pm =
     (case firstPass entities pm of
        Inl e \<Rightarrow> Inl e
      | Inr st \<Rightarrow>
          (case propagateShortfalls st entities pm of
             Inl e \<Rightarrow> Inl e
           | Inr st' \<Rightarrow> Inr (finalResult st')))"

section \<open>Scenarios\<close>

text \<open>The chain of the documentation: a position owes 1000 USDC to a supply pool, the
  pool owes 800 USDC to a strategy, the strategy owes 600 USDC to a vault, and the position
  holds 400 USDC. USDC has six decimals and costs one dollar.\<close>

definition USDC :: CoinInfo where
  "USDC = \<lparr>typeName = ''USDC'', decimals = 6\<rparr>"

definition usdcPrices :: priceMap where
  "usdcPrices = [''USDC'' \<mapsto> 1]"

definition chainPosition :: Entity where
  "chainPosition =
     \<lparr>entity_id = ''position'', entity_type = Position, entity_name = ''LP position'',
      holdings = [CoinAsset USDC 400000000],
      obligations = [\<lparr>ob_from = ''position'', ob_to = ''pool'', ob_asset = CoinAsset USDC 1000000000\<rparr>]\<rparr>"

definition chainPool :: Entity where
  "chainPool =
     \<lparr>entity_id = ''pool'', entity_type = SupplyPool, entity_name = ''Supply pool'',
      holdings = [],
      obligations = [\<lparr>ob_from = ''pool'', ob_to = ''strategy'', ob_asset = CoinAsset USDC 800000000\<rparr>]\<rparr>"

definition chainStrategy :: Entity where
  "chainStrategy =
     \<lparr>entity_id = ''strategy'', entity_type = SupplyPoolStrategy, entity_name = ''Strategy'',
      holdings = [],
      obligations = [\<lparr>ob_from = ''strategy'', ob_to = ''vault'', ob_asset = CoinAsset USDC 600000000\<rparr>]\<rparr>"

definition chainVault :: Entity where
  "chainVault =
     \<lparr>entity_id = ''vault'', entity_type = Sav, entity_name = ''Vault'',
      holdings = [], obligations = []\<rparr>"

definition chain :: "Entity list" where
  "chain = [chainPosition, chainPool, chainStrategy, chainVault]"

definition receivedAmounts :: "SolvencyResult \<Rightarrow> (string \<times> (string \<times> string \<times> number) list) list" where
  "receivedAmounts r =
     map (\<lambda>d. (entityId d,
                concat (map (\<lambda>s. map (\<lambda>x. (owesTo s, sd_coinType x, sd_amount x)) (shortfalls s))
                          (shortfallsReceived d))))
       (details r)"

text \<open>The relation the dependency graph represents: debtor \<rightarrow> creditor, for the
  obligations whose creditor is an entity of the input.\<close>

definition obligationEdges :: "Entity list \<Rightarrow> (string \<times> string) set" where
  "obligationEdges entities =
     {(entity_id e, ob_to ob) | e ob.
        e \<in> set entities \<and> ob \<in> set (obligations e) \<and> ob_to ob \<in> entity_id ` set entities}"

text \<open>The cycle of the test suite: A owes B, B owes C, C owes A, 100 USDC each, and each
  holds 50 USDC.\<close>

definition cycleEntity :: "string \<Rightarrow> string \<Rightarrow> Entity" where
  "cycleEntity a b =
     \<lparr>entity_id = a, entity_type = Sav, entity_name = a,
      holdings = [CoinAsset USDC 50000000],
      obligations = [\<lparr>ob_from = a, ob_to = b, ob_asset = CoinAsset USDC 100000000\<rparr>]\<rparr>"

definition cycle3 :: "Entity list" where
  "cycle3 = [cycleEntity ''A'' ''B'', cycleEntity ''B'' ''C'', cycleEntity ''C'' ''A'']"

text \<open>A debtor with residual shortfalls in two asset types, of which only USDC has a
  price.\<close>

definition XCOIN :: CoinInfo where
  "XCOIN = \<lparr>typeName = ''XCOIN'', decimals = 0\<rparr>"

definition twoCoinDebtor :: Entity where
  "twoCoinDebtor =
     \<lparr>entity_id = ''debtor'', entity_type = Position, entity_name = ''Debtor'',
      holdings = [],
      obligations = [\<lparr>ob_from = ''debtor'', ob_to = ''creditor'', ob_asset = CoinAsset XCOIN 10\<rparr>,
                     \<lparr>ob_from = ''debtor'', ob_to = ''creditor'', ob_asset = CoinAsset USDC 10000000\<rparr>]\<rparr>"

definition plainCreditor :: Entity where
  "plainCreditor =
     \<lparr>entity_id = ''creditor'', entity_type = Sav, entity_name = ''Creditor'',
      holdings = [], obligations = []\<rparr>"

definition twoCoinDebtorData :: EntitySolvencyData where
  "twoCoinDebtorData =
     \<lparr>entityId = ''debtor'', entityType = Position, entityName = ''Debtor'',
      totalAssets = [],
      totalLiabilities = [\<lparr>ab_coinType = ''XCOIN'', ab_amount = 10\<rparr>,
                          \<lparr>ab_coinType = ''USDC'', ab_amount = 10\<rparr>],
      totalAssetsUsd = 0, totalLiabilitiesUsd = 20, shortfallUsd = 20, swapUsedUsd = 0,
      swappedRepayments = [],
      shortfallsByCoin = [(''XCOIN'', 10), (''USDC'', 10)],
      shortfallsReceived = [], shortfallsCaused = []\<rparr>"

definition plainCreditorData :: EntitySolvencyData where
  "plainCreditorData =
     \<lparr>entityId = ''creditor'', entityType = Sav, entityName = ''Creditor'',
      totalAssets = [\<lparr>ab_coinType = ''XCOIN'', ab_amount = 10\<rparr>,
                     \<lparr>ab_coinType = ''USDC'', ab_amount = 10\<rparr>],
      totalLiabilities = [],
      totalAssetsUsd = 20, totalLiabilitiesUsd = 0, shortfallUsd = 0, swapUsedUsd = 0,
      swappedRepayments = [], shortfallsByCoin = [],
      shortfallsReceived = [], shortfallsCaused = []\<rparr>"

definition twoCoinState :: entityData where
  "twoCoinState = [(''debtor'', twoCoinDebtorData), (''creditor'', plainCreditorData)]"

text \<open>The asset types an asset, and an entity, refer to.\<close>

fun assetTypes :: "Asset \<Rightarrow> string list" where
  "assetTypes (CoinAsset coin amount) = [typeName coin]"
| "assetTypes (LPAsset coinA coinB amountA amountB) = [typeName coinA, typeName coinB]"

definition holdingTypes :: "Entity \<Rightarrow> string set" where
  "holdingTypes e = set (concat (map assetTypes (holdings e)))"

definition obligationTypes :: "Entity \<Rightarrow> string set" where
  "obligationTypes e = set (concat (map (\<lambda>ob. assetTypes (ob_asset ob)) (obligations e)))"

text \<open>The entity of the test for a missing price: it holds 1000 USDC and owes nothing.\<close>

definition usdcHolder :: Entity where
  "usdcHolder =
     \<lparr>entity_id = ''entity1'', entity_type = Sav, entity_name = ''Test Entity'',
      holdings = [CoinAsset USDC 1000000000], obligations = []\<rparr>"

definition noPrices :: priceMap where
  "noPrices = (\<lambda>t. None)"

section \<open>Auxiliary notions\<close>

text \<open>What the propagation pass leaves alone in a record: its identity, its liabilities
  and its first-pass shortfall in USD; a per-type shortfall map that has an entry keeps
  one, and the map of a record without liabilities is never written.\<close>

definition keeps :: "EntitySolvencyData \<Rightarrow> EntitySolvencyData \<Rightarrow> bool" where
  "keeps d d' =
     (entityId d' = entityId d \<and> totalLiabilities d' = totalLiabilities d \<and>
      shortfallUsd d' = shortfallUsd d \<and>
      (shortfallsByCoin d \<noteq> [] \<longrightarrow> shortfallsByCoin d' \<noteq> []) \<and>
      (totalLiabilities d = [] \<longrightarrow> shortfallsByCoin d' = shortfallsByCoin d))"

definition evolves :: "entityData \<Rightarrow> entityData \<Rightarrow> bool" where
  "evolves st st' = list_all2 (\<lambda>x y. fst y = fst x \<and> keeps (snd x) (snd y)) st st'"

definition positiveShortfalls :: "EntitySolvencyData \<Rightarrow> bool" where
  "positiveShortfalls d = list_all (\<lambda>cv. 0 < snd cv) (shortfallsByCoin d)"

definition allPositive :: "entityData \<Rightarrow> bool" where
  "allPositive st = list_all (\<lambda>x. positiveShortfalls (snd x)) st"

text \<open>The amounts recorded in a list of shortfall entries: \<open>detailSum g c\<close> adds the field
  \<open>g\<close> (amount or USD value) of the details of asset type \<open>c\<close>; \<open>recordedAll\<close> does so over
  all entries, \<open>recorded\<close> over the entries of one counterparty.\<close>

definition detailSum :: "(ShortfallDetail \<Rightarrow> number) \<Rightarrow> string \<Rightarrow> ShortfallDetail list \<Rightarrow> number" where
  "detailSum g c ds = sum_list (map g (filter (\<lambda>x. sd_coinType x = c) ds))"

definition recordedAll :: "(ShortfallDetail \<Rightarrow> number) \<Rightarrow> string \<Rightarrow> EntityShortfall list \<Rightarrow> number" where
  "recordedAll g c ss = sum_list (map (\<lambda>s. detailSum g c (shortfalls s)) ss)"

definition recorded ::
  "(ShortfallDetail \<Rightarrow> number) \<Rightarrow> string \<Rightarrow> string \<Rightarrow> EntityShortfall list \<Rightarrow> number" where
  "recorded g k c ss = recordedAll g c (filter (\<lambda>s. owesTo s = k) ss)"

text \<open>The creditors of one distribution step that get a share recorded: those owed a
  positive amount of the asset type that have a record.\<close>

definition recipients ::
  "entityData \<Rightarrow> string \<Rightarrow> (string \<times> (string \<times> number) list) list
     \<Rightarrow> (string \<times> (string \<times> number) list) list" where
  "recipients st c obc = filter (\<lambda>cr. 0 < getNum (snd cr) c \<and> map_of st (fst cr) \<noteq> None) obc"

text \<open>The test for pro-rata distribution: entity3 holds 50 USDC and owes 300 USDC to
  entity1 and 100 USDC to entity2.\<close>

definition proRataEntities :: "Entity list" where
  "proRataEntities =
     [\<lparr>entity_id = ''entity1'', entity_type = Sav, entity_name = ''Entity 1'',
       holdings = [], obligations = []\<rparr>,
      \<lparr>entity_id = ''entity2'', entity_type = Sav, entity_name = ''Entity 2'',
       holdings = [], obligations = []\<rparr>,
      \<lparr>entity_id = ''entity3'', entity_type = Sav, entity_name = ''Entity 3'',
       holdings = [CoinAsset USDC 50000000],
       obligations = [\<lparr>ob_from = ''entity3'', ob_to = ''entity1'', ob_asset = CoinAsset USDC 300000000\<rparr>,
                      \<lparr>ob_from = ''entity3'', ob_to = ''entity2'', ob_asset = CoinAsset USDC 100000000\<rparr>]\<rparr>]"

text \<open>A debtor without holdings that owes 100 USDC to an entity of the input and 300 USDC
  to a party outside it.\<close>

definition splitDebtor :: Entity where
  "splitDebtor =
     \<lparr>entity_id = ''debtor'', entity_type = Position, entity_name = ''Debtor'',
      holdings = [],
      obligations = [\<lparr>ob_from = ''debtor'', ob_to = ''inside'', ob_asset = CoinAsset USDC 100000000\<rparr>,
                     \<lparr>ob_from = ''debtor'', ob_to = ''outside'', ob_asset = CoinAsset USDC 300000000\<rparr>]\<rparr>"

definition insideCreditor :: Entity where
  "insideCreditor =
     \<lparr>entity_id = ''inside'', entity_type = Sav, entity_name = ''Inside'',
      holdings = [], obligations = []\<rparr>"

text \<open>The coins and raw amounts an asset consists of; what an entity owes and what it has
  available (holdings and inbound obligations, as aggregated by the first pass) of one
  asset type, in raw units.\<close>

fun assetLines :: "Asset \<Rightarrow> (CoinInfo \<times> int) list" where
  "assetLines (CoinAsset coin amount) = [(coin, amount)]"
| "assetLines (LPAsset coinA coinB amountA amountB) = [(coinA, amountA), (coinB, amountB)]"

definition owedOf :: "Entity \<Rightarrow> string \<Rightarrow> int" where
  "owedOf e t =
     sum_list (map snd (filter (\<lambda>l. typeName (fst l) = t)
                          (concat (map (\<lambda>ob. assetLines (ob_asset ob)) (obligations e)))))"

definition heldOf :: "Entity list \<Rightarrow> Entity \<Rightarrow> string \<Rightarrow> int" where
  "heldOf entities e t = getInt (aggregateAssets entities e) t"

text \<open>Well-formed input: every coin of asset type \<open>t\<close> carries the decimals \<open>dec t\<close>, and no
  raw amount is negative.\<close>

definition wellFormedAsset :: "(string \<Rightarrow> nat) \<Rightarrow> Asset \<Rightarrow> bool" where
  "wellFormedAsset dec a =
     list_all (\<lambda>l. decimals (fst l) = dec (typeName (fst l)) \<and> 0 \<le> snd l) (assetLines a)"

definition wellFormed :: "(string \<Rightarrow> nat) \<Rightarrow> Entity \<Rightarrow> bool" where
  "wellFormed dec e =
     (list_all (wellFormedAsset dec) (holdings e) \<and>
      list_all (\<lambda>ob. wellFormedAsset dec (ob_asset ob)) (obligations e))"

text \<open>The USD value of \<open>x\<close> raw units of asset type \<open>t\<close>.\<close>

definition priceOf :: "priceMap \<Rightarrow> string \<Rightarrow> number" where
  "priceOf pm t = (case pm t of Some p \<Rightarrow> p | None \<Rightarrow> 0)"

definition usd :: "priceMap \<Rightarrow> (string \<Rightarrow> nat) \<Rightarrow> string \<Rightarrow> int \<Rightarrow> number" where
  "usd pm dec t x = of_int x / 10 ^ dec t * priceOf pm t"

definition usdOfMap :: "priceMap \<Rightarrow> (string \<Rightarrow> nat) \<Rightarrow> (string \<times> int) list \<Rightarrow> number" where
  "usdOfMap pm dec m = sum_list (map (\<lambda>tx. usd pm dec (fst tx) (snd tx)) m)"

text \<open>A debtor with mixed holdings: 100 USDC and 100 SUI at two dollars, owing 500 USDC.\<close>

definition SUI :: CoinInfo where
  "SUI = \<lparr>typeName = ''SUI'', decimals = 9\<rparr>"

definition twoPrices :: priceMap where
  "twoPrices = [''USDC'' \<mapsto> 1, ''SUI'' \<mapsto> 2]"

definition coinDecimals :: "string \<Rightarrow> nat" where
  "coinDecimals t = (if t = ''SUI'' then 9 else 6)"

definition mixedDebtor :: Entity where
  "mixedDebtor =
     \<lparr>entity_id = ''debtor'', entity_type = Position, entity_name = ''Debtor'',
      holdings = [CoinAsset USDC 100000000, CoinAsset SUI 100000000000],
      obligations = [\<lparr>ob_from = ''debtor'', ob_to = ''creditor'', ob_asset = CoinAsset USDC 500000000\<rparr>]\<rparr>"

text \<open>A flattened liability line \<open>d\<close> stems from the coin and raw amount \<open>l\<close>.\<close>

definition lineOf :: "priceMap \<Rightarrow> ObligationDetail \<Rightarrow> CoinInfo \<times> int \<Rightarrow> bool" where
  "lineOf pm d l \<longleftrightarrow>
     od_coinType d = typeName (fst l) \<and> od_amount d = newAmount (fst l) (snd l) \<and>
     od_usdValue d = toNumber (od_amount d) * priceOf pm (od_coinType d)"

text \<open>An aggregation of assets with one entry per asset type, the decimals of its type and
  no negative amount.\<close>

definition sound :: "(string \<Rightarrow> nat) \<Rightarrow> (string \<times> Amount) list \<Rightarrow> bool" where
  "sound dec m \<longleftrightarrow>
     distinct (map fst m) \<and> (\<forall>ta \<in> set m. amt_decimals (snd ta) = dec (fst ta) \<and> 0 \<le> amt_int (snd ta))"

text \<open>A creditor of the debtor above that owes 200 USDC further on.\<close>

definition coveredCreditor :: Entity where
  "coveredCreditor =
     \<lparr>entity_id = ''creditor'', entity_type = Sav, entity_name = ''Creditor'',
      holdings = [],
      obligations = [\<lparr>ob_from = ''creditor'', ob_to = ''saver'', ob_asset = CoinAsset USDC 200000000\<rparr>]\<rparr>"

text \<open>Processing orders. A list is forward for a dependency relation when no element depends on
  a later one; a valid order of a graph lists every node once, debtors before creditors.\<close>

fun forward :: "('a \<Rightarrow> 'a \<Rightarrow> bool) \<Rightarrow> 'a list \<Rightarrow> bool" where
  "forward dep [] = True"
| "forward dep (x # xs) = ((\<forall>y \<in> set xs. \<not> dep y x) \<and> forward dep xs)"

definition validOrder :: "Graph \<Rightarrow> string list \<Rightarrow> bool" where
  "validOrder g order \<longleftrightarrow>
     distinct order \<and> set order = set (nodes g) \<and> forward (\<lambda>u v. (u, v) \<in> set (edges g)) order"

text \<open>One transfer of a share: debtor, asset type, creditor, amount and USD value. Its
  effect on the record stored under key \<open>j\<close> is the received entry of the creditor, the
  caused entry of the debtor and the creditor's per-type shortfall, in the order of the
  source.\<close>

type_synonym transfer = "string \<times> string \<times> string \<times> number \<times> number"

definition recOp :: "transfer \<Rightarrow> string \<Rightarrow> EntitySolvencyData \<Rightarrow> EntitySolvencyData" where
  "recOp e j d =
     (case e of (u, c, k, x, xu) \<Rightarrow>
        (let d1 = (if j = k
                   then d\<lparr>shortfallsReceived := addShortfall (shortfallsReceived d) u c x xu u\<rparr>
                   else d);
             d2 = (if j = u
                   then d1\<lparr>shortfallsCaused := addShortfall (shortfallsCaused d1) k c x xu u\<rparr>
                   else d1)
         in if j = k \<and> totalLiabilities d2 \<noteq> []
            then d2\<lparr>shortfallsByCoin :=
                      AList.update c (getNum (shortfallsByCoin d2) c + x) (shortfallsByCoin d2)\<rparr>
            else d2))"

definition mapRec :: "(string \<Rightarrow> EntitySolvencyData \<Rightarrow> EntitySolvencyData) \<Rightarrow> entityData \<Rightarrow> entityData" where
  "mapRec g s = map (\<lambda>p. (fst p, g (fst p) (snd p))) s"

definition runOps :: "transfer list \<Rightarrow> string \<Rightarrow> EntitySolvencyData \<Rightarrow> EntitySolvencyData" where
  "runOps es j d = foldl (\<lambda>d e. recOp e j d) d es"

text \<open>The transfers of one asset type of a shortfall, and of one processed entity.\<close>

definition opsCoin ::
  "string \<Rightarrow> (string \<times> (string \<times> number) list) list \<Rightarrow> priceMap \<Rightarrow> entityData
     \<Rightarrow> string \<times> number \<Rightarrow> transfer list" where
  "opsCoin u obc pm s sh =
     (if totalObligationsForCoin obc (fst sh) > 0 then
        (case pm (fst sh) of
           None \<Rightarrow> []
         | Some price \<Rightarrow>
             map (\<lambda>cr. (u, fst sh, fst cr,
                         snd sh * (getNum (snd cr) (fst sh) / totalObligationsForCoin obc (fst sh)),
                         snd sh * price * (getNum (snd cr) (fst sh) / totalObligationsForCoin obc (fst sh))))
               (recipients s (fst sh) obc))
      else [])"

definition opsOf :: "Entity list \<Rightarrow> priceMap \<Rightarrow> string \<Rightarrow> entityData \<Rightarrow> transfer list" where
  "opsOf entities pm u s =
     (case (find (\<lambda>e. entity_id e = u) entities, map_of s u) of
        (Some entity, Some d) \<Rightarrow>
          concat (map (opsCoin u (obligationsByCreditor entity) pm s) (shortfallsByCoin d))
      | _ \<Rightarrow> [])"

text \<open>What a record says, whatever the order of its lists: the per-type shortfalls as a
  map, and the received and caused entries looked up by counterparty and asset type.\<close>

type_synonym detailView = "string \<Rightarrow> (number \<times> number \<times> string) option"
type_synonym entryView = "string \<Rightarrow> (number \<times> detailView) option"

definition detailView :: "ShortfallDetail list \<Rightarrow> detailView" where
  "detailView ds c =
     map_option (\<lambda>d. (sd_amount d, sd_usdValue d, sd_causedBy d)) (find (\<lambda>d. sd_coinType d = c) ds)"

definition entryView :: "EntityShortfall list \<Rightarrow> entryView" where
  "entryView ss k =
     map_option (\<lambda>s. (totalUsdValue s, detailView (shortfalls s))) (find (\<lambda>s. owesTo s = k) ss)"

definition core :: "EntitySolvencyData \<Rightarrow> EntitySolvencyData" where
  "core d = d\<lparr>shortfallsByCoin := [], shortfallsReceived := [], shortfallsCaused := []\<rparr>"

definition viewOf ::
  "EntitySolvencyData \<Rightarrow> EntitySolvencyData \<times> (string \<Rightarrow> number option) \<times> entryView \<times> entryView" where
  "viewOf d =
     (core d, map_of (shortfallsByCoin d), entryView (shortfallsReceived d), entryView (shortfallsCaused d))"

definition addDetailView :: "string \<Rightarrow> number \<Rightarrow> number \<Rightarrow> string \<Rightarrow> detailView \<Rightarrow> detailView" where
  "addDetailView c x xu src D =
     D(c \<mapsto> (case D c of None \<Rightarrow> (x, xu, src) | Some (a, b, s0) \<Rightarrow> (a + x, b + xu, s0)))"

definition addView :: "string \<Rightarrow> string \<Rightarrow> number \<Rightarrow> number \<Rightarrow> string \<Rightarrow> entryView \<Rightarrow> entryView" where
  "addView k c x xu src V =
     V(k \<mapsto> (case V k of
                None \<Rightarrow> (xu, addDetailView c x xu src (\<lambda>c. None))
              | Some (t, D) \<Rightarrow> (t + xu, addDetailView c x xu src D)))"

definition addB :: "string \<Rightarrow> number \<Rightarrow> (string \<Rightarrow> number option) \<Rightarrow> string \<Rightarrow> number option" where
  "addB c x B = B(c \<mapsto> (case B c of None \<Rightarrow> 0 | Some v \<Rightarrow> v) + x)"

definition absOp ::
  "transfer \<Rightarrow> string
     \<Rightarrow> EntitySolvencyData \<times> (string \<Rightarrow> number option) \<times> entryView \<times> entryView
     \<Rightarrow> EntitySolvencyData \<times> (string \<Rightarrow> number option) \<times> entryView \<times> entryView" where
  "absOp e j v =
     (case (e, v) of ((u, c, k, x, xu), (cd, B, R, C)) \<Rightarrow>
        (cd,
         (if j = k \<and> totalLiabilities cd \<noteq> []
          then addB c x B else B),
         (if j = k then addView u c x xu u R else R),
         (if j = u then addView k c x xu u C else C)))"

definition sim :: "EntitySolvencyData \<Rightarrow> EntitySolvencyData \<Rightarrow> bool" where
  "sim d d' \<longleftrightarrow> viewOf d = viewOf d'"

definition simSt :: "entityData \<Rightarrow> entityData \<Rightarrow> bool" where
  "simSt s s' \<longleftrightarrow> list_all2 (\<lambda>x y. fst x = fst y \<and> sim (snd x) (snd y)) s s'"

definition tidy :: "entityData \<Rightarrow> bool" where
  "tidy s \<longleftrightarrow> distinct (map fst s) \<and> list_all (\<lambda>x. distinct (map fst (shortfallsByCoin (snd x)))) s"

definition targets :: "transfer list \<Rightarrow> string set" where
  "targets es = (\<lambda>e. fst (snd (snd e))) ` set es"

text \<open>Records that are equal up to the order of their lists: the per-type shortfalls, the
  received and caused entries, and the details within an entry.\<close>

definition canon :: "EntityShortfall \<Rightarrow> string \<times> ShortfallDetail multiset \<times> number" where
  "canon s = (owesTo s, mset (shortfalls s), totalUsdValue s)"

definition sameUpToOrder :: "EntitySolvencyData \<Rightarrow> EntitySolvencyData \<Rightarrow> bool" where
  "sameUpToOrder d d' \<longleftrightarrow>
     core d = core d' \<and>
     mset (shortfallsByCoin d) = mset (shortfallsByCoin d') \<and>
     mset (map canon (shortfallsReceived d)) = mset (map canon (shortfallsReceived d')) \<and>
     mset (map canon (shortfallsCaused d)) = mset (map canon (shortfallsCaused d'))"

text \<open>Lists of entries with one entry per counterparty and one detail per asset type.\<close>

definition neatEntries :: "EntityShortfall list \<Rightarrow> bool" where
  "neatEntries ss \<longleftrightarrow>
     distinct (map owesTo ss) \<and> list_all (\<lambda>s. distinct (map sd_coinType (shortfalls s))) ss"

definition neatRecord :: "EntitySolvencyData \<Rightarrow> bool" where
  "neatRecord d \<longleftrightarrow> neatEntries (shortfallsReceived d) \<and> neatEntries (shortfallsCaused d)"

definition neat :: "entityData \<Rightarrow> bool" where
  "neat s \<longleftrightarrow> tidy s \<and> list_all (\<lambda>x. neatRecord (snd x)) s"

text \<open>Two debtors of one creditor: A owes 100 USDC and B owes 50 USDC to C, and neither
  holds anything.\<close>

definition debtorOf :: "string \<Rightarrow> string \<Rightarrow> int \<Rightarrow> Entity" where
  "debtorOf a b x =
     \<lparr>entity_id = a, entity_type = Position, entity_name = a,
      holdings = [],
      obligations = [\<lparr>ob_from = a, ob_to = b, ob_asset = CoinAsset USDC x\<rparr>]\<rparr>"

definition fork :: "Entity list" where
  "fork = [debtorOf ''A'' ''C'' 100000000, debtorOf ''B'' ''C'' 50000000,
           \<lparr>entity_id = ''C'', entity_type = Sav, entity_name = ''C'', holdings = [], obligations = []\<rparr>]"

text \<open>The number of edges into \<open>w\<close> whose source is not yet in the output of the sort.\<close>

definition unmet :: "(string \<times> string) list \<Rightarrow> string list \<Rightarrow> string \<Rightarrow> int" where
  "unmet es out w = int (length (filter (\<lambda>e. snd e = w \<and> fst e \<notin> set out) es))"

section \<open>Properties\<close>

subsection \<open>The documented chain\<close>

text \<open>
  C1. In the chain scenario the run succeeds and the pool receives a shortfall of 600 USDC
  from the position. The strategy and the vault, however, also receive 600 USDC each: a
  creditor with outbound obligations forwards the whole amount it received, not the part
  it cannot pay (400 for the pool, 200 for the strategy), so the vault's entry is 600 and
  not the documented 200.
\<close>

theorem chain_vault_receives_600:
  "map_sum id receivedAmounts (checkEntitySolvency chain usdcPrices) =
     Inr [(''position'', []),
          (''pool'', [(''position'', ''USDC'', 600)]),
          (''strategy'', [(''pool'', ''USDC'', 600)]),
          (''vault'', [(''strategy'', ''USDC'', 600)])]"
  by code_simp

subsection \<open>Cycle detection\<close>

lemma on_cycle_pred:
  assumes "(x, x) \<in> E\<^sup>+"
  shows "\<exists>y. (y, x) \<in> E \<and> (y, y) \<in> E\<^sup>+"
proof -
  from assms obtain y where y: "(x, y) \<in> E\<^sup>*" "(y, x) \<in> E"
    by (meson tranclD2)
  then have "(y, y) \<in> E\<^sup>+" by (meson rtrancl_into_trancl2)
  with y show ?thesis by blast
qed

lemma prune_keeps_cycles:
  "{x. (x, x) \<in> (set es)\<^sup>+} \<subseteq> set ns \<Longrightarrow> {x. (x, x) \<in> (set es)\<^sup>+} \<subseteq> set (prune es ns)"
proof (induction es ns rule: prune.induct)
  case (1 es ns)
  let ?C = "{x. (x, x) \<in> (set es)\<^sup>+}"
  let ?ns' = "filter (hasPredIn es ns) ns"
  have sub: "?C \<subseteq> set ?ns'"
  proof
    fix x assume x: "x \<in> ?C"
    then obtain y where "(y, x) \<in> set es" "(y, y) \<in> (set es)\<^sup>+"
      using on_cycle_pred[of x "set es"] by blast
    with 1(2) have "hasPredIn es ns x" unfolding hasPredIn_def by force
    with x 1(2) show "x \<in> set ?ns'" by auto
  qed
  show ?case
  proof (cases "length ?ns' < length ns")
    case True
    with 1(1)[OF refl True sub] show ?thesis by (subst prune.simps) (simp add: Let_def)
  next
    case False
    with 1(2) show ?thesis by (subst prune.simps) (simp add: Let_def)
  qed
qed

lemma prune_fixpoint: "\<forall>v \<in> set (prune es ns). hasPredIn es (prune es ns) v"
proof (induction es ns rule: prune.induct)
  case (1 es ns)
  let ?ns' = "filter (hasPredIn es ns) ns"
  show ?case
  proof (cases "length ?ns' < length ns")
    case True
    with 1[OF refl True] show ?thesis by (subst (1 2) prune.simps) (simp add: Let_def)
  next
    case False
    then have "length ?ns' = length ns" using length_filter_le[of "hasPredIn es ns" ns] by linarith
    then have "\<forall>v \<in> set ns. hasPredIn es ns v"
      by (metis length_filter_less linorder_neq_iff)
    with False show ?thesis by (subst (1 2) prune.simps) (simp add: Let_def)
  qed
qed

lemma closed_preds_cycle:
  assumes ne: "R \<noteq> []" and cl: "\<forall>v \<in> set R. hasPredIn es R v"
  shows "\<exists>x. (x, x) \<in> (set es)\<^sup>+"
proof (rule ccontr)
  assume no: "\<not> ?thesis"
  let ?E = "{e \<in> set es. fst e \<in> set R \<and> snd e \<in> set R}"
  have "?E \<subseteq> set es" by blast
  then have "?E\<^sup>+ \<subseteq> (set es)\<^sup>+" by (rule trancl_mono_subset)
  with no have "acyclic ?E" unfolding acyclic_def by blast
  moreover have "finite ?E" by simp
  ultimately have "wf ?E" by (simp add: finite_acyclic_wf)
  moreover from ne obtain r where "r \<in> set R" by (cases R) auto
  ultimately obtain z where z: "z \<in> set R" "\<And>y. (y, z) \<in> ?E \<Longrightarrow> y \<notin> set R"
    by (rule wfE_min) blast
  from cl z(1) obtain e where "e \<in> set es" "snd e = z" "fst e \<in> set R"
    unfolding hasPredIn_def by blast
  then have "(fst e, z) \<in> ?E" using z(1) by (cases e) auto
  with z(2) \<open>fst e \<in> set R\<close> show False by blast
qed

text \<open>The decision procedure agrees with the contract of \<^verbatim>\<open>hasCycle\<close>: it answers yes
  exactly when some node reaches itself along one or more edges.\<close>

lemma hasCycle_iff:
  assumes "\<forall>e \<in> set (edges g). fst e \<in> set (nodes g)"
  shows "hasCycle g \<longleftrightarrow> (\<exists>x. (x, x) \<in> (set (edges g))\<^sup>+)"
proof
  assume "hasCycle g"
  then show "\<exists>x. (x, x) \<in> (set (edges g))\<^sup>+"
    unfolding hasCycle_def using closed_preds_cycle prune_fixpoint by blast
next
  assume "\<exists>x. (x, x) \<in> (set (edges g))\<^sup>+"
  then obtain x where x: "(x, x) \<in> (set (edges g))\<^sup>+" ..
  have "{x. (x, x) \<in> (set (edges g))\<^sup>+} \<subseteq> set (nodes g)"
  proof
    fix y assume "y \<in> {x. (x, x) \<in> (set (edges g))\<^sup>+}"
    then obtain z where "(y, z) \<in> set (edges g)" by (meson CollectD tranclD)
    with assms show "y \<in> set (nodes g)" by force
  qed
  from prune_keeps_cycles[OF this] x show "hasCycle g"
    unfolding hasCycle_def by auto
qed

lemma set_addEdges_aux:
  "set (foldl (\<lambda>es e. if fst e \<in> N \<and> snd e \<in> N \<and> e \<notin> set es then es @ [e] else es) acc cands) =
     set acc \<union> {e \<in> set cands. fst e \<in> N \<and> snd e \<in> N}"
  by (induction cands arbitrary: acc) auto

lemma edges_buildGraph: "set (edges (buildGraph entities)) = obligationEdges entities"
proof -
  have "set (concat (map (\<lambda>entity. map (\<lambda>ob. (entity_id entity, ob_to ob)) (obligations entity))
              entities)) =
        {(entity_id e, ob_to ob) | e ob. e \<in> set entities \<and> ob \<in> set (obligations e)}"
    by auto
  then show ?thesis
    unfolding buildGraph_def addEdges_def Let_def obligationEdges_def
    by (simp add: set_addEdges_aux) fastforce
qed

lemma nodes_buildGraph: "nodes (buildGraph entities) = map entity_id entities"
  by (simp add: buildGraph_def Let_def)

lemma hasCycle_buildGraph:
  "hasCycle (buildGraph entities) \<longleftrightarrow> (\<exists>x. (x, x) \<in> (obligationEdges entities)\<^sup>+)"
proof -
  have "\<forall>e \<in> set (edges (buildGraph entities)). fst e \<in> set (nodes (buildGraph entities))"
    unfolding edges_buildGraph nodes_buildGraph obligationEdges_def by auto
  from hasCycle_iff[OF this] show ?thesis by (simp add: edges_buildGraph)
qed

text \<open>
  C4. If the obligation graph has a cycle (some entity reaches itself along debtor \<rightarrow>
  creditor edges between entities of the input), \<^verbatim>\<open>checkEntitySolvency\<close> ends in an error:
  the error of the first pass if that failed, the cycle error otherwise. The records the
  first pass computed are not returned.
\<close>

theorem cyclic_graph_fails:
  "(v, v) \<in> (obligationEdges entities)\<^sup>+ \<Longrightarrow>
   checkEntitySolvency entities pm =
     (case firstPass entities pm of Inl e \<Rightarrow> Inl e | Inr st \<Rightarrow> Inl CyclicGraph)"
proof -
  assume "(v, v) \<in> (obligationEdges entities)\<^sup>+"
  then have "hasCycle (buildGraph entities)"
    using hasCycle_buildGraph by blast
  then show ?thesis
    by (simp add: checkEntitySolvency_def propagateShortfalls_def Let_def split: sum.splits)
qed

theorem cyclic_graph_fails_witness:
  "checkEntitySolvency cycle3 usdcPrices = Inl CyclicGraph"
proof -
  have e: "edges (buildGraph cycle3) = [(''A'', ''B''), (''B'', ''C''), (''C'', ''A'')]"
    by code_simp
  have "(''A'', ''B'') \<in> obligationEdges cycle3" "(''B'', ''C'') \<in> obligationEdges cycle3"
    "(''C'', ''A'') \<in> obligationEdges cycle3"
    unfolding edges_buildGraph[symmetric] e by simp_all
  then have c: "(''A'', ''A'') \<in> (obligationEdges cycle3)\<^sup>+"
    by (meson trancl.intros)
  have f: "isl (firstPass cycle3 usdcPrices) = False"
    by code_simp
  from cyclic_graph_fails[OF c, of usdcPrices] f show ?thesis
    by (cases "firstPass cycle3 usdcPrices") simp_all
qed

subsection \<open>Missing prices during propagation\<close>

lemma distributeCoin_unpriced:
  "pm coinType = None \<Longrightarrow> distributeCoin eid obc pm st (coinType, a) = st"
  by (simp add: distributeCoin_def Let_def)

text \<open>
  C9. When an entity is processed and the price map has no price for one of its shortfall
  asset types, the distribution step of that asset type leaves every record as it was (no
  received entry, no caused entry), and the processing of the entity is the distribution of
  its other asset types; nothing is thrown, the pass goes on.
\<close>

theorem unpriced_shortfall_is_skipped:
  "find (\<lambda>e. entity_id e = eid) entities = Some entity \<Longrightarrow> map_of st eid = Some d \<Longrightarrow>
   shortfallsByCoin d = xs @ (coinType, a) # ys \<Longrightarrow> pm coinType = None \<Longrightarrow>
   distributeCoin eid (obligationsByCreditor entity) pm st' (coinType, a) = st' \<and>
   propagateEntityShortfalls eid st entities pm =
     foldl (distributeCoin eid (obligationsByCreditor entity) pm) st (xs @ ys)"
  by (simp add: propagateEntityShortfalls_def distributeCoin_unpriced)

theorem unpriced_shortfall_is_skipped_witness:
  "usdcPrices ''XCOIN'' = None \<and>
   distributeCoin ''debtor'' (obligationsByCreditor twoCoinDebtor) usdcPrices twoCoinState (''XCOIN'', 10)
     = twoCoinState \<and>
   propagateEntityShortfalls ''debtor'' twoCoinState [twoCoinDebtor, plainCreditor] usdcPrices =
     foldl (distributeCoin ''debtor'' (obligationsByCreditor twoCoinDebtor) usdcPrices) twoCoinState
       [(''USDC'', 10)] \<and>
   map (\<lambda>(k, d). (k, shortfallsReceived d, shortfallsCaused d))
     (propagateEntityShortfalls ''debtor'' twoCoinState [twoCoinDebtor, plainCreditor] usdcPrices) =
     [(''debtor'', [],
         [\<lparr>owesTo = ''creditor'',
           shortfalls = [\<lparr>sd_coinType = ''USDC'', sd_amount = 10, sd_usdValue = 10,
                          sd_causedBy = ''debtor''\<rparr>],
           totalUsdValue = 10\<rparr>]),
      (''creditor'',
         [\<lparr>owesTo = ''debtor'',
           shortfalls = [\<lparr>sd_coinType = ''USDC'', sd_amount = 10, sd_usdValue = 10,
                          sd_causedBy = ''debtor''\<rparr>],
           totalUsdValue = 10\<rparr>], [])]"
proof -
  have h1: "find (\<lambda>e. entity_id e = ''debtor'') [twoCoinDebtor, plainCreditor] = Some twoCoinDebtor"
    by code_simp
  have h2: "map_of twoCoinState ''debtor'' = Some twoCoinDebtorData"
    by code_simp
  have h3: "shortfallsByCoin twoCoinDebtorData = [] @ (''XCOIN'', 10) # [(''USDC'', 10)]"
    by code_simp
  have h4: "usdcPrices ''XCOIN'' = None"
    by code_simp
  have h5: "map (\<lambda>(k, d). (k, shortfallsReceived d, shortfallsCaused d))
     (propagateEntityShortfalls ''debtor'' twoCoinState [twoCoinDebtor, plainCreditor] usdcPrices) =
     [(''debtor'', [],
         [\<lparr>owesTo = ''creditor'',
           shortfalls = [\<lparr>sd_coinType = ''USDC'', sd_amount = 10, sd_usdValue = 10,
                          sd_causedBy = ''debtor''\<rparr>],
           totalUsdValue = 10\<rparr>]),
      (''creditor'',
         [\<lparr>owesTo = ''debtor'',
           shortfalls = [\<lparr>sd_coinType = ''USDC'', sd_amount = 10, sd_usdValue = 10,
                          sd_causedBy = ''debtor''\<rparr>],
           totalUsdValue = 10\<rparr>], [])]"
    by code_simp
  from unpriced_shortfall_is_skipped[where xs="[]" and st'=twoCoinState and pm=usdcPrices
      and coinType="''XCOIN''" and eid="''debtor''", OF h1 h2 h3 h4] h4 h5 show ?thesis
    by simp
qed

subsection \<open>Failures of the first pass\<close>

lemma foldE_Inl:
  "foldE f s xs = Inl e \<Longrightarrow> \<exists>s' x. x \<in> set xs \<and> f s' x = Inl e"
proof (induction xs arbitrary: s)
  case Nil
  then show ?case by simp
next
  case (Cons x xs)
  show ?case
  proof (cases "f s x")
    case (Inl e')
    with Cons.prems show ?thesis by auto
  next
    case (Inr s')
    with Cons.prems have "foldE f s' xs = Inl e" by simp
    from Cons.IH[OF this] show ?thesis by auto
  qed
qed

lemma foldE_invariant:
  assumes "P s" and "\<And>s x s'. P s \<Longrightarrow> x \<in> set xs \<Longrightarrow> f s x = Inr s' \<Longrightarrow> P s'"
    and "foldE f s xs = Inr r"
  shows "P r"
  using assms
proof (induction xs arbitrary: s)
  case Nil
  then show ?case by simp
next
  case (Cons x xs)
  from Cons.prems(3) obtain s' where s': "f s x = Inr s'" "foldE f s' xs = Inr r"
    by (cases "f s x") auto
  have "P s'" using Cons.prems(1,2) s'(1) by auto
  then show ?case
    by (rule Cons.IH) (use Cons.prems(2) s'(2) in auto)
qed

lemma foldE_Inr_all:
  "foldE f s xs = Inr r \<Longrightarrow> x \<in> set xs \<Longrightarrow> \<exists>s' s''. f s' x = Inr s''"
proof (induction xs arbitrary: s)
  case Nil
  then show ?case by simp
next
  case (Cons y ys)
  from Cons.prems(1) obtain s1 where s1: "f s y = Inr s1" "foldE f s1 ys = Inr r"
    by (cases "f s y") auto
  show ?case
  proof (cases "x = y")
    case True
    with s1 show ?thesis by blast
  next
    case False
    with Cons.prems(2) have "x \<in> set ys" by simp
    from Cons.IH[OF s1(2) this] show ?thesis .
  qed
qed

lemma keys_addAsset: "fst ` set (addAsset m a) = fst ` set m \<union> set (assetTypes a)"
  by (cases a) (auto simp: Let_def AList.dom_update)

lemma keys_foldl_addAsset:
  "fst ` set (foldl addAsset m as) = fst ` set m \<union> set (concat (map assetTypes as))"
  by (induction as arbitrary: m) (auto simp: keys_addAsset)

lemma keys_aggregateAssets:
  "fst ` set (aggregateAssets entities e) =
     holdingTypes e \<union> set (concat (map assetTypes (incoming entities e)))"
  by (simp add: aggregateAssets_def keys_foldl_addAsset holdingTypes_def)

lemma incoming_types:
  "set (concat (map assetTypes (incoming entities e))) \<subseteq> (\<Union>x \<in> set entities. obligationTypes x)"
  by (auto simp: incoming_def obligationTypes_def)

lemma flattenObligation_isl:
  "isl (flattenObligation pm ob) \<longleftrightarrow> (\<exists>t \<in> set (assetTypes (ob_asset ob)). pm t = None)"
  by (cases "ob_asset ob") (auto simp: Let_def split: option.splits)

lemma flattenObligation_priced:
  "flattenObligation pm ob = Inr ds \<Longrightarrow> d \<in> set ds \<Longrightarrow> pm (od_coinType d) \<noteq> None"
  by (cases "ob_asset ob") (auto simp: Let_def split: option.splits)

lemma flattenObligations_Inl:
  assumes "flattenObligations pm obs = Inl err"
  shows "\<exists>ob \<in> set obs. \<exists>t \<in> set (assetTypes (ob_asset ob)). pm t = None"
proof -
  from foldE_Inl[OF assms[unfolded flattenObligations_def]]
  obtain acc ob where ob: "ob \<in> set obs"
    and "(case flattenObligation pm ob of Inl e \<Rightarrow> Inl e | Inr ds \<Rightarrow> Inr (acc @ ds)) = Inl err"
    by blast
  then have "isl (flattenObligation pm ob)" by (cases "flattenObligation pm ob") auto
  with ob show ?thesis unfolding flattenObligation_isl by blast
qed

lemma flattenObligations_unpriced:
  assumes "ob \<in> set obs" "t \<in> set (assetTypes (ob_asset ob))" "pm t = None"
  shows "\<exists>err. flattenObligations pm obs = Inl err"
proof (cases "flattenObligations pm obs")
  case (Inl err)
  then show ?thesis by blast
next
  case (Inr ds)
  from foldE_Inr_all[OF Inr[unfolded flattenObligations_def] assms(1)]
  obtain acc r where "(case flattenObligation pm ob of Inl e \<Rightarrow> Inl e | Inr ds \<Rightarrow> Inr (acc @ ds)) = Inr r"
    by blast
  then have "\<not> isl (flattenObligation pm ob)" by (cases "flattenObligation pm ob") auto
  with assms(2,3) show ?thesis unfolding flattenObligation_isl by blast
qed

lemma flattenObligations_priced:
  assumes "flattenObligations pm obs = Inr ds" "d \<in> set ds"
  shows "pm (od_coinType d) \<noteq> None"
proof -
  let ?P = "\<lambda>acc. \<forall>d \<in> set acc. pm (od_coinType d) \<noteq> None"
  have "?P ds"
  proof (rule foldE_invariant[where P = ?P, OF _ _ assms(1)[unfolded flattenObligations_def]])
    show "?P []" by simp
  next
    fix s x s'
    assume "?P s" "x \<in> set obs"
      "(case flattenObligation pm x of Inl e \<Rightarrow> Inl e | Inr ds \<Rightarrow> Inr (s @ ds)) = Inr s'"
    then show "?P s'"
      using flattenObligation_priced[of pm x]
      by (cases "flattenObligation pm x") (auto simp del: flattenObligation.simps)
  qed
  with assms(2) show ?thesis by blast
qed

lemma sumAssetsUsd_Inl:
  assumes "sumAssetsUsd pm tot = Inl err"
  shows "\<exists>k \<in> fst ` set tot. pm k = None"
proof -
  from foldE_Inl[OF assms[unfolded sumAssetsUsd_def]]
  obtain acc x where x: "x \<in> set tot"
    and c: "(case x of (coinType, amount) \<Rightarrow> case pm coinType of None \<Rightarrow> Inl (PriceNotFound coinType)
        | Some price \<Rightarrow> Inr (acc + toDecimal amount * price)) = Inl err"
    by blast
  from c have "pm (fst x) = None" by (cases x) (auto split: option.splits)
  with x show ?thesis by blast
qed

lemma sumAssetsUsd_Inr:
  assumes "sumAssetsUsd pm tot = Inr v" "k \<in> fst ` set tot"
  shows "pm k \<noteq> None"
proof -
  from assms(2) obtain a where "(k, a) \<in> set tot" by auto
  from foldE_Inr_all[OF assms(1)[unfolded sumAssetsUsd_def] this]
  show ?thesis by (auto split: option.splits)
qed

lemma keys_obligationsByCoin_aux:
  "fst ` set (foldl (\<lambda>acc ob. case map_of acc (od_coinType ob) of
                        Some l \<Rightarrow> AList.update (od_coinType ob) (l @ [ob]) acc
                      | None \<Rightarrow> AList.update (od_coinType ob) [ob] acc) acc obs) =
   fst ` set acc \<union> od_coinType ` set obs"
proof (induction obs arbitrary: acc)
  case Nil
  then show ?case by simp
next
  case (Cons ob obs)
  show ?case
    by (cases "map_of acc (od_coinType ob)") (simp_all add: Cons.IH AList.dom_update)
qed

lemma keys_obligationsByCoin: "fst ` set (obligationsByCoin obs) = od_coinType ` set obs"
  by (simp add: obligationsByCoin_def keys_obligationsByCoin_aux)

text \<open>The four ways in which one netting step ends.\<close>

lemma netCoin_cases:
  assumes "netCoin pm obs st g = r"
  obtains
    (surplus) "totalObIntOf (snd g) < availableOf (remainingByCoin st) (fst g)"
      "r = Inr (st\<lparr>remainingByCoin :=
                  AList.update (fst g) (availableOf (remainingByCoin st) (fst g) - totalObIntOf (snd g))
                    (remainingByCoin st)\<rparr>)"
  | (exact) "totalObIntOf (snd g) = availableOf (remainingByCoin st) (fst g)"
      "r = Inr (st\<lparr>remainingByCoin := AList.delete (fst g) (remainingByCoin st)\<rparr>)"
  | (unpriced) "availableOf (remainingByCoin st) (fst g) < totalObIntOf (snd g)"
      "pm (fst g) = None" "r = Inl (PriceNotFound (fst g))"
  | (deficit) price obligation where
      "availableOf (remainingByCoin st) (fst g) < totalObIntOf (snd g)"
      "pm (fst g) = Some price" "find (\<lambda>ob. od_coinType ob = fst g) obs = Some obligation"
      "r = Inr \<lparr>remainingByCoin = AList.delete (fst g) (remainingByCoin st),
               remainingLiabilitiesUsd = remainingLiabilitiesUsd st +
                 toDecimal (fromInt (totalObIntOf (snd g) - availableOf (remainingByCoin st) (fst g))
                   (amt_decimals (od_amount obligation))) * price,
               shortfallUsdByCoin = AList.update (fst g)
                 (toDecimal (fromInt (totalObIntOf (snd g) - availableOf (remainingByCoin st) (fst g))
                   (amt_decimals (od_amount obligation))) * price) (shortfallUsdByCoin st)\<rparr>"
  | (orphan) price where
      "availableOf (remainingByCoin st) (fst g) < totalObIntOf (snd g)"
      "pm (fst g) = Some price" "find (\<lambda>ob. od_coinType ob = fst g) obs = None"
      "r = Inr (st\<lparr>remainingByCoin := AList.delete (fst g) (remainingByCoin st)\<rparr>)"
proof (cases "totalObIntOf (snd g) \<le> availableOf (remainingByCoin st) (fst g)")
  case True
  show ?thesis
  proof (cases "totalObIntOf (snd g) = availableOf (remainingByCoin st) (fst g)")
    case True
    with assms have "r = Inr (st\<lparr>remainingByCoin := AList.delete (fst g) (remainingByCoin st)\<rparr>)"
      by (simp add: netCoin_def Let_def)
    with True show ?thesis by (rule exact)
  next
    case False
    with True have lt: "totalObIntOf (snd g) < availableOf (remainingByCoin st) (fst g)" by simp
    with assms have "r = Inr (st\<lparr>remainingByCoin :=
                  AList.update (fst g) (availableOf (remainingByCoin st) (fst g) - totalObIntOf (snd g))
                    (remainingByCoin st)\<rparr>)"
      by (simp add: netCoin_def Let_def)
    with lt show ?thesis by (rule surplus)
  qed
next
  case False
  then have lt: "availableOf (remainingByCoin st) (fst g) < totalObIntOf (snd g)" by simp
  show ?thesis
  proof (cases "pm (fst g)")
    case None
    with lt assms have "r = Inl (PriceNotFound (fst g))" by (simp add: netCoin_def Let_def)
    with lt None show ?thesis by (rule unpriced)
  next
    case (Some price)
    show ?thesis
    proof (cases "find (\<lambda>ob. od_coinType ob = fst g) obs")
      case None
      with lt Some assms have "r = Inr (st\<lparr>remainingByCoin := AList.delete (fst g) (remainingByCoin st)\<rparr>)"
        by (simp add: netCoin_def Let_def)
      with lt Some None show ?thesis by (rule orphan)
    next
      case (Some obligation)
      with lt \<open>pm (fst g) = Some price\<close> assms have "r = Inr \<lparr>remainingByCoin = AList.delete (fst g) (remainingByCoin st),
               remainingLiabilitiesUsd = remainingLiabilitiesUsd st +
                 toDecimal (fromInt (totalObIntOf (snd g) - availableOf (remainingByCoin st) (fst g))
                   (amt_decimals (od_amount obligation))) * price,
               shortfallUsdByCoin = AList.update (fst g)
                 (toDecimal (fromInt (totalObIntOf (snd g) - availableOf (remainingByCoin st) (fst g))
                   (amt_decimals (od_amount obligation))) * price) (shortfallUsdByCoin st)\<rparr>"
        by (simp add: netCoin_def Let_def)
      with lt \<open>pm (fst g) = Some price\<close> Some show ?thesis by (rule deficit)
    qed
  qed
qed

lemma netCoin_Inl: "netCoin pm obs st g = Inl err \<Longrightarrow> pm (fst g) = None"
  by (erule netCoin_cases) simp_all

lemma netCoin_keys:
  assumes "netCoin pm obs st g = Inr st'"
  shows "fst ` set (remainingByCoin st') \<subseteq> insert (fst g) (fst ` set (remainingByCoin st))"
    and "fst ` set (shortfallUsdByCoin st') \<subseteq> insert (fst g) (fst ` set (shortfallUsdByCoin st))"
  using assms dom_delete_subset[of "fst g" "remainingByCoin st"]
  by (erule_tac netCoin_cases; auto simp: AList.dom_update)+

lemma subset_chain:
  "A1 \<subseteq> insert x A0 \<Longrightarrow> B1 \<subseteq> insert x B0 \<Longrightarrow> A \<subseteq> A1 \<union> G \<Longrightarrow> B \<subseteq> B1 \<union> G \<Longrightarrow>
   A \<subseteq> A0 \<union> insert x G \<and> B \<subseteq> B0 \<union> insert x G"
  by blast

lemma netting_keys_fold:
  "foldE (netCoin pm obs) s gs = Inr st \<Longrightarrow>
     fst ` set (remainingByCoin st) \<subseteq> fst ` set (remainingByCoin s) \<union> fst ` set gs \<and>
     fst ` set (shortfallUsdByCoin st) \<subseteq> fst ` set (shortfallUsdByCoin s) \<union> fst ` set gs"
proof (induction gs arbitrary: s)
  case Nil
  then show ?case by simp
next
  case (Cons g gs)
  from Cons.prems have "\<exists>s1. netCoin pm obs s g = Inr s1 \<and> foldE (netCoin pm obs) s1 gs = Inr st"
    by (cases "netCoin pm obs s g") simp_all
  then obtain s1 where n: "netCoin pm obs s g = Inr s1" and r: "foldE (netCoin pm obs) s1 gs = Inr st"
    by blast
  have 1: "fst ` set (remainingByCoin s1) \<subseteq> insert (fst g) (fst ` set (remainingByCoin s))"
    by (rule netCoin_keys(1)[OF n])
  have 2: "fst ` set (shortfallUsdByCoin s1) \<subseteq> insert (fst g) (fst ` set (shortfallUsdByCoin s))"
    by (rule netCoin_keys(2)[OF n])
  have 3: "fst ` set (remainingByCoin st) \<subseteq> fst ` set (remainingByCoin s1) \<union> fst ` set gs"
    by (rule conjunct1[OF Cons.IH[OF r]])
  have 4: "fst ` set (shortfallUsdByCoin st) \<subseteq> fst ` set (shortfallUsdByCoin s1) \<union> fst ` set gs"
    by (rule conjunct2[OF Cons.IH[OF r]])
  have 5: "fst ` set (g # gs) = insert (fst g) (fst ` set gs)" by simp
  show ?case unfolding 5 by (rule subset_chain[OF 1 2 3 4])
qed


lemma keys_map_amt: "fst ` set (map (\<lambda>(coinType, amount). (coinType, amt_int amount)) tot) = fst ` set tot"
  by (induction tot) auto

lemma directNetting_keys:
  assumes "directNetting pm tot obs = Inr st"
  shows "fst ` set (remainingByCoin st) \<subseteq> fst ` set tot \<union> od_coinType ` set obs"
    and "fst ` set (shortfallUsdByCoin st) \<subseteq> od_coinType ` set obs"
proof -
  let ?s0 = "\<lparr>remainingByCoin = map (\<lambda>(coinType, amount). (coinType, amt_int amount)) tot,
        remainingLiabilitiesUsd = 0, shortfallUsdByCoin = []\<rparr>"
  have f: "foldE (netCoin pm obs) ?s0 (obligationsByCoin obs) = Inr st"
    using assms by (simp only: directNetting_def)
  have r0: "fst ` set (remainingByCoin ?s0) = fst ` set tot"
    by (simp add: keys_map_amt del: set_map)
  have s0: "fst ` set (shortfallUsdByCoin ?s0) = {}" by simp
  note k = netting_keys_fold[OF f, unfolded r0 s0 keys_obligationsByCoin]
  show "fst ` set (remainingByCoin st) \<subseteq> fst ` set tot \<union> od_coinType ` set obs"
    by (rule conjunct1[OF k])
  show "fst ` set (shortfallUsdByCoin st) \<subseteq> od_coinType ` set obs"
    using conjunct2[OF k] by simp
qed

lemma directNetting_Inl:
  assumes "directNetting pm tot obs = Inl err"
  shows "\<exists>k \<in> od_coinType ` set obs. pm k = None"
proof -
  from foldE_Inl[OF assms[unfolded directNetting_def]]
  obtain s g where g: "g \<in> set (obligationsByCoin obs)" and n: "netCoin pm obs s g = Inl err" by blast
  from g have "fst g \<in> fst ` set (obligationsByCoin obs)" by simp
  then have "fst g \<in> od_coinType ` set obs" by (simp only: keys_obligationsByCoin)
  moreover have "pm (fst g) = None" by (rule netCoin_Inl[OF n])
  ultimately show ?thesis by (rule bexI[rotated])
qed

lemma sumRemainingUsd_Inl:
  assumes "sumRemainingUsd pm tot remaining = Inl err"
  shows "\<exists>k \<in> fst ` set remaining. pm k = None"
proof -
  from foldE_Inl[OF assms[unfolded sumRemainingUsd_def]]
  obtain acc x where x: "x \<in> set remaining"
    and c: "(case x of (coinType, amount) \<Rightarrow> case pm coinType of None \<Rightarrow> Inl (PriceNotFound coinType)
        | Some price \<Rightarrow> (case map_of tot coinType of
                     Some assetAmount \<Rightarrow>
                       Inr (acc + toNumber (fromInt amount (amt_decimals assetAmount)) * price)
                   | None \<Rightarrow> Inr acc)) = Inl err"
    by blast
  from c have "pm (fst x) = None" by (cases x) (auto split: option.splits)
  with x show ?thesis by blast
qed

lemma swapRepayments_Inl:
  assumes "swapRepayments pm u sh = Inl err"
  shows "\<exists>k \<in> fst ` set sh. pm k = None"
proof -
  from foldE_Inl[OF assms[unfolded swapRepayments_def Let_def]]
  obtain acc x where x: "x \<in> set sh"
    and c: "(case x of (coinType, coinShortfallUsd) \<Rightarrow> case pm coinType of None \<Rightarrow> Inl (PriceNotFound coinType)
        | Some price \<Rightarrow> Inr (acc @ [\<lparr>ab_coinType = coinType,
              ab_amount = u * (coinShortfallUsd / sumShortfallUsd sh) / price\<rparr>])) = Inl err"
    by blast
  from c have "pm (fst x) = None" by (cases x) (auto split: option.splits)
  with x show ?thesis by blast
qed

lemma crossAssetCoverage_Inl:
  assumes "crossAssetCoverage pm tot st = Inl err"
  shows "\<exists>k \<in> fst ` set (remainingByCoin st) \<union> fst ` set (shortfallUsdByCoin st). pm k = None"
proof (cases "remainingLiabilitiesUsd st > 0 \<and> remainingByCoin st \<noteq> []")
  case False
  with assms show ?thesis by (simp add: crossAssetCoverage_def)
next
  case True
  show ?thesis
  proof (cases "sumRemainingUsd pm tot (remainingByCoin st)")
    case (Inl e)
    from sumRemainingUsd_Inl[OF this] show ?thesis by blast
  next
    case (Inr v)
    let ?u = "min v (remainingLiabilitiesUsd st)"
    show ?thesis
    proof (cases "?u > 0 \<and> shortfallUsdByCoin st \<noteq> []")
      case False
      with assms True Inr show ?thesis by (auto simp: crossAssetCoverage_def Let_def)
    next
      case u: True
      show ?thesis
      proof (cases "swapRepayments pm ?u (shortfallUsdByCoin st)")
        case (Inl e)
        from swapRepayments_Inl[OF this] show ?thesis by blast
      next
        case reps: (Inr reps)
        with assms True Inr u show ?thesis by (simp add: crossAssetCoverage_def Let_def)
      qed
    qed
  qed
qed

text \<open>The first pass fails for an entity only on a missing price, and the asset type
  without a price is one of the entity's holdings, inbound or outbound obligations.\<close>

lemma entitySolvency_Inl:
  assumes "entitySolvency entities pm e = Inl err"
  shows "\<exists>t \<in> holdingTypes e \<union> obligationTypes e \<union> set (concat (map assetTypes (incoming entities e))).
           pm t = None"
proof (cases "flattenObligations pm (obligations e)")
  case (Inl e1)
  from flattenObligations_Inl[OF this] show ?thesis
    unfolding obligationTypes_def by auto
next
  case obs: (Inr obs)
  let ?tot = "aggregateAssets entities e"
  show ?thesis
  proof (cases "sumAssetsUsd pm ?tot")
    case (Inl e2)
    from sumAssetsUsd_Inl[OF this] show ?thesis
      unfolding keys_aggregateAssets by blast
  next
    case usd: (Inr assetsUsd)
    have priced_obs: "\<And>k. k \<in> od_coinType ` set obs \<Longrightarrow> pm k \<noteq> None"
      using flattenObligations_priced[OF obs] by blast
    have priced_tot: "\<And>k. k \<in> fst ` set ?tot \<Longrightarrow> pm k \<noteq> None"
      using sumAssetsUsd_Inr[OF usd] by blast
    show ?thesis
    proof (cases "directNetting pm ?tot obs")
      case (Inl e3)
      from directNetting_Inl[OF this] priced_obs show ?thesis by blast
    next
      case st: (Inr st)
      show ?thesis
      proof (cases "crossAssetCoverage pm ?tot st")
        case (Inl e4)
        from crossAssetCoverage_Inl[OF this] obtain k
          where k: "k \<in> fst ` set (remainingByCoin st) \<union> fst ` set (shortfallUsdByCoin st)"
            and n: "pm k = None" by (rule bexE)
        from k directNetting_keys[OF st] have "k \<in> fst ` set ?tot \<union> od_coinType ` set obs"
          by (simp only: Un_iff subset_iff) metis
        with priced_obs priced_tot n show ?thesis by (simp only: Un_iff) metis
      next
        case (Inr sw)
        with assms obs usd st show ?thesis by (simp add: entitySolvency_def Let_def)
      qed
    qed
  qed
qed

lemma entitySolvency_unpriced:
  assumes "t \<in> holdingTypes e \<union> obligationTypes e" "pm t = None"
  shows "\<exists>err. entitySolvency entities pm e = Inl err"
proof (cases "flattenObligations pm (obligations e)")
  case (Inl e1)
  then show ?thesis by (simp add: entitySolvency_def Let_def)
next
  case obs: (Inr obs)
  have "t \<notin> obligationTypes e"
  proof
    assume "t \<in> obligationTypes e"
    then obtain ob where "ob \<in> set (obligations e)" "t \<in> set (assetTypes (ob_asset ob))"
      unfolding obligationTypes_def by auto
    from flattenObligations_unpriced[where pm=pm and t=t, OF this assms(2)] obs show False by simp
  qed
  with assms(1) have "t \<in> fst ` set (aggregateAssets entities e)"
    unfolding keys_aggregateAssets by blast
  with sumAssetsUsd_Inr[of pm "aggregateAssets entities e" _ t] assms(2)
  obtain e2 where "sumAssetsUsd pm (aggregateAssets entities e) = Inl e2"
    by (cases "sumAssetsUsd pm (aggregateAssets entities e)") auto
  with obs show ?thesis by (simp add: entitySolvency_def Let_def)
qed

lemma flattenObligation_error: "flattenObligation pm ob \<noteq> Inl CyclicGraph"
  by (cases "ob_asset ob") (auto simp: Let_def split: option.splits)

lemma flattenObligations_error: "flattenObligations pm obs \<noteq> Inl CyclicGraph"
proof
  assume "flattenObligations pm obs = Inl CyclicGraph"
  from foldE_Inl[OF this[unfolded flattenObligations_def]]
  obtain acc ob where
    "(case flattenObligation pm ob of Inl e \<Rightarrow> Inl e | Inr ds \<Rightarrow> Inr (acc @ ds)) = Inl CyclicGraph"
    by blast
  then have "flattenObligation pm ob = Inl CyclicGraph"
    by (cases "flattenObligation pm ob") (simp_all del: flattenObligation.simps)
  then show False using flattenObligation_error by blast
qed

lemma sumAssetsUsd_error: "sumAssetsUsd pm tot \<noteq> Inl CyclicGraph"
proof
  assume "sumAssetsUsd pm tot = Inl CyclicGraph"
  from foldE_Inl[OF this[unfolded sumAssetsUsd_def]]
  obtain acc x where
    "(case x of (coinType, amount) \<Rightarrow> case pm coinType of None \<Rightarrow> Inl (PriceNotFound coinType)
        | Some price \<Rightarrow> Inr (acc + toDecimal amount * price)) = Inl CyclicGraph"
    by blast
  then show False by (cases x) (auto split: option.splits)
qed

lemma netCoin_error: "netCoin pm obs st g \<noteq> Inl CyclicGraph"
proof
  assume "netCoin pm obs st g = Inl CyclicGraph"
  then show False by (rule netCoin_cases) simp_all
qed

lemma directNetting_error: "directNetting pm tot obs \<noteq> Inl CyclicGraph"
proof
  assume "directNetting pm tot obs = Inl CyclicGraph"
  from foldE_Inl[OF this[unfolded directNetting_def]]
  obtain s g where "netCoin pm obs s g = Inl CyclicGraph" by blast
  then show False using netCoin_error by blast
qed

lemma sumRemainingUsd_error: "sumRemainingUsd pm tot remaining \<noteq> Inl CyclicGraph"
proof
  assume "sumRemainingUsd pm tot remaining = Inl CyclicGraph"
  from foldE_Inl[OF this[unfolded sumRemainingUsd_def]]
  obtain acc x where
    "(case x of (coinType, amount) \<Rightarrow> case pm coinType of None \<Rightarrow> Inl (PriceNotFound coinType)
        | Some price \<Rightarrow> (case map_of tot coinType of
                     Some assetAmount \<Rightarrow>
                       Inr (acc + toNumber (fromInt amount (amt_decimals assetAmount)) * price)
                   | None \<Rightarrow> Inr acc)) = Inl CyclicGraph"
    by blast
  then show False by (cases x) (auto split: option.splits)
qed

lemma swapRepayments_error: "swapRepayments pm u sh \<noteq> Inl CyclicGraph"
proof
  assume "swapRepayments pm u sh = Inl CyclicGraph"
  from foldE_Inl[OF this[unfolded swapRepayments_def Let_def]]
  obtain acc x where
    "(case x of (coinType, coinShortfallUsd) \<Rightarrow> case pm coinType of None \<Rightarrow> Inl (PriceNotFound coinType)
        | Some price \<Rightarrow> Inr (acc @ [\<lparr>ab_coinType = coinType,
              ab_amount = u * (coinShortfallUsd / sumShortfallUsd sh) / price\<rparr>])) = Inl CyclicGraph"
    by blast
  then show False by (cases x) (auto split: option.splits)
qed

lemma crossAssetCoverage_error: "crossAssetCoverage pm tot st \<noteq> Inl CyclicGraph"
proof
  assume a: "crossAssetCoverage pm tot st = Inl CyclicGraph"
  show False
  proof (cases "remainingLiabilitiesUsd st > 0 \<and> remainingByCoin st \<noteq> []")
    case False
    with a show ?thesis by (simp add: crossAssetCoverage_def)
  next
    case True
    show ?thesis
    proof (cases "sumRemainingUsd pm tot (remainingByCoin st)")
      case (Inl e)
      with a True have "e = CyclicGraph" by (simp add: crossAssetCoverage_def)
      with Inl sumRemainingUsd_error show ?thesis by blast
    next
      case (Inr v)
      let ?u = "min v (remainingLiabilitiesUsd st)"
      show ?thesis
      proof (cases "?u > 0 \<and> shortfallUsdByCoin st \<noteq> []")
        case False
        with a True Inr show ?thesis by (auto simp: crossAssetCoverage_def Let_def)
      next
        case u: True
        show ?thesis
        proof (cases "swapRepayments pm ?u (shortfallUsdByCoin st)")
          case (Inl e)
          with a True Inr u have "e = CyclicGraph" by (simp add: crossAssetCoverage_def Let_def)
          with Inl swapRepayments_error show ?thesis by blast
        next
          case reps: (Inr reps)
          with a True Inr u show ?thesis by (simp add: crossAssetCoverage_def Let_def)
        qed
      qed
    qed
  qed
qed

lemma entitySolvency_error: "entitySolvency entities pm e \<noteq> Inl CyclicGraph"
proof
  assume a: "entitySolvency entities pm e = Inl CyclicGraph"
  let ?tot = "aggregateAssets entities e"
  show False
  proof (cases "flattenObligations pm (obligations e)")
    case (Inl e1)
    with a have "e1 = CyclicGraph" by (simp add: entitySolvency_def Let_def)
    with Inl flattenObligations_error show ?thesis by blast
  next
    case obs: (Inr obs)
    show ?thesis
    proof (cases "sumAssetsUsd pm ?tot")
      case (Inl e2)
      with a obs have "e2 = CyclicGraph" by (simp add: entitySolvency_def Let_def)
      with Inl sumAssetsUsd_error show ?thesis by blast
    next
      case usd: (Inr assetsUsd)
      show ?thesis
      proof (cases "directNetting pm ?tot obs")
        case (Inl e3)
        with a obs usd have "e3 = CyclicGraph" by (simp add: entitySolvency_def Let_def)
        with Inl directNetting_error show ?thesis by blast
      next
        case st: (Inr st)
        show ?thesis
        proof (cases "crossAssetCoverage pm ?tot st")
          case (Inl e4)
          with a obs usd st have "e4 = CyclicGraph" by (simp add: entitySolvency_def Let_def)
          with Inl crossAssetCoverage_error show ?thesis by blast
        next
          case (Inr sw)
          with a obs usd st show ?thesis by (simp add: entitySolvency_def Let_def)
        qed
      qed
    qed
  qed
qed

lemma firstPass_Inl:
  assumes "firstPass entities pm = Inl err"
  shows "\<exists>e \<in> set entities. entitySolvency entities pm e = Inl err"
proof -
  from foldE_Inl[OF assms[unfolded firstPass_def]]
  obtain acc e where e: "e \<in> set entities"
    and c: "(case entitySolvency entities pm e of Inl x \<Rightarrow> Inl x
             | Inr d \<Rightarrow> Inr (AList.update (entity_id e) d acc)) = Inl err"
    by blast
  from c have "entitySolvency entities pm e = Inl err"
    by (cases "entitySolvency entities pm e") simp_all
  with e show ?thesis by (rule bexI[rotated])
qed

lemma firstPass_Inr:
  assumes "firstPass entities pm = Inr st" "e \<in> set entities"
  shows "\<exists>d. entitySolvency entities pm e = Inr d"
proof -
  from foldE_Inr_all[OF assms(1)[unfolded firstPass_def] assms(2)]
  obtain acc r where "(case entitySolvency entities pm e of Inl x \<Rightarrow> Inl x
             | Inr d \<Rightarrow> Inr (AList.update (entity_id e) d acc)) = Inr r"
    by blast
  then show ?thesis by (cases "entitySolvency entities pm e") simp_all
qed

text \<open>
  C7 (as amended). The first pass fails exactly when the price map has no price for an
  asset type that some entity of the input holds or owes, whether or not that asset type
  is in deficit; and the failure is a pricing error.
\<close>

theorem first_pass_fails_iff_price_missing:
  "((\<exists>err. firstPass entities pm = Inl err) \<longleftrightarrow>
      (\<exists>e \<in> set entities. \<exists>t \<in> holdingTypes e \<union> obligationTypes e. pm t = None)) \<and>
   firstPass entities pm \<noteq> Inl CyclicGraph"
proof (intro conjI iffI)
  assume "\<exists>err. firstPass entities pm = Inl err"
  then obtain err where "firstPass entities pm = Inl err" ..
  from firstPass_Inl[OF this] obtain e where e: "e \<in> set entities"
    and f: "entitySolvency entities pm e = Inl err" by (rule bexE)
  from entitySolvency_Inl[OF f] obtain t
    where t: "t \<in> holdingTypes e \<union> obligationTypes e \<union> set (concat (map assetTypes (incoming entities e)))"
      and n: "pm t = None" by (rule bexE)
  show "\<exists>e \<in> set entities. \<exists>t \<in> holdingTypes e \<union> obligationTypes e. pm t = None"
  proof (cases "t \<in> holdingTypes e \<union> obligationTypes e")
    case True
    with e n show ?thesis by blast
  next
    case False
    with t have "t \<in> set (concat (map assetTypes (incoming entities e)))" by blast
    with incoming_types[of entities e] obtain x where "x \<in> set entities" "t \<in> obligationTypes x"
      by blast
    with n show ?thesis by blast
  qed
next
  assume "\<exists>e \<in> set entities. \<exists>t \<in> holdingTypes e \<union> obligationTypes e. pm t = None"
  then obtain e t where e: "e \<in> set entities" and t: "t \<in> holdingTypes e \<union> obligationTypes e"
    and n: "pm t = None" by blast
  from entitySolvency_unpriced[where pm=pm and t=t and entities=entities, OF t n]
  obtain err where f: "entitySolvency entities pm e = Inl err"
    by blast
  show "\<exists>err. firstPass entities pm = Inl err"
  proof (cases "firstPass entities pm")
    case (Inl a)
    then show ?thesis by blast
  next
    case (Inr st)
    from firstPass_Inr[OF this e] f show ?thesis by simp
  qed
next
  show "firstPass entities pm \<noteq> Inl CyclicGraph"
  proof
    assume "firstPass entities pm = Inl CyclicGraph"
    from firstPass_Inl[OF this] entitySolvency_error show False by blast
  qed
qed

theorem first_pass_fails_iff_price_missing_witness:
  "(\<exists>err. firstPass [twoCoinDebtor, plainCreditor] usdcPrices = Inl err) \<and>
   \<not> (\<exists>err. firstPass chain usdcPrices = Inl err)"
proof -
  have 1: "twoCoinDebtor \<in> set [twoCoinDebtor, plainCreditor]" by simp
  have 2: "''XCOIN'' \<in> holdingTypes twoCoinDebtor \<union> obligationTypes twoCoinDebtor"
    by (simp add: obligationTypes_def twoCoinDebtor_def XCOIN_def)
  have 3: "usdcPrices ''XCOIN'' = None" by (simp add: usdcPrices_def)
  have 4: "\<not> (\<exists>e \<in> set chain. \<exists>t \<in> holdingTypes e \<union> obligationTypes e. usdcPrices t = None)"
    by (simp add: chain_def chainPosition_def chainPool_def chainStrategy_def chainVault_def
        holdingTypes_def obligationTypes_def usdcPrices_def USDC_def)
  from 1 2 3 have 5: "\<exists>e \<in> set [twoCoinDebtor, plainCreditor].
      \<exists>t \<in> holdingTypes e \<union> obligationTypes e. usdcPrices t = None" by blast
  from first_pass_fails_iff_price_missing[of "[twoCoinDebtor, plainCreditor]" usdcPrices] 5
    first_pass_fails_iff_price_missing[of chain usdcPrices] 4
  show ?thesis by blast
qed

theorem unpriced_holding_without_deficit_fails:
  "obligations usdcHolder = [] \<and> firstPass [usdcHolder] noPrices = Inl (PriceNotFound ''USDC'')"
  by code_simp

subsection \<open>Final classification\<close>

lemma keeps_refl: "keeps d d"
  by (simp add: keeps_def)

lemma keeps_trans: "keeps a b \<Longrightarrow> keeps b c \<Longrightarrow> keeps a c"
  by (simp add: keeps_def)

lemma evolves_refl: "evolves st st"
  unfolding evolves_def by (rule list_all2_refl) (simp add: keeps_refl)

lemma evolves_trans: "evolves a b \<Longrightarrow> evolves b c \<Longrightarrow> evolves a c"
  unfolding evolves_def
proof -
  assume ab: "list_all2 (\<lambda>x y. fst y = fst x \<and> keeps (snd x) (snd y)) a b"
    and bc: "list_all2 (\<lambda>x y. fst y = fst x \<and> keeps (snd x) (snd y)) b c"
  show "list_all2 (\<lambda>x y. fst y = fst x \<and> keeps (snd x) (snd y)) a c"
    by (rule list_all2_trans[OF _ ab bc]) (metis keeps_trans)
qed

lemma evolves_update:
  "map_of st k = Some d \<Longrightarrow> keeps d d' \<Longrightarrow> evolves st (AList.update k d' st)"
proof (induction st)
  case Nil
  then show ?case by simp
next
  case (Cons p ps)
  show ?case
  proof (cases "fst p = k")
    case True
    with Cons.prems have "snd p = d" by (cases p) simp
    with True Cons.prems(2) show ?thesis
      using evolves_refl[of ps] by (cases p) (simp add: evolves_def)
  next
    case False
    with Cons.prems have "map_of ps k = Some d" by (cases p) simp
    from Cons.IH[OF this Cons.prems(2)] False show ?thesis
      by (cases p) (simp add: evolves_def keeps_refl)
  qed
qed

lemma evolves_modifyData:
  "(\<And>d. keeps d (f d)) \<Longrightarrow> evolves st (modifyData k f st)"
  by (cases "map_of st k") (simp_all add: modifyData_def evolves_refl evolves_update)

lemma keeps_received: "keeps d (d\<lparr>shortfallsReceived := r\<rparr>)"
  by (simp add: keeps_def)

lemma keeps_caused: "keeps d (d\<lparr>shortfallsCaused := r\<rparr>)"
  by (simp add: keeps_def)

lemma keeps_byCoin:
  "keeps d (if totalLiabilities d \<noteq> []
            then d\<lparr>shortfallsByCoin := AList.update c v (shortfallsByCoin d)\<rparr> else d)"
  by (simp add: keeps_def)

lemma evolves_distributeToCreditor:
  "evolves st (distributeToCreditor eid coinType a u totalObs st cr)"
proof (cases "getNum (snd cr) coinType > 0 \<and> map_of st (fst cr) \<noteq> None")
  case False
  then show ?thesis
    by (auto simp: distributeToCreditor_def Let_def evolves_refl)
next
  case True
  then obtain cd where cd: "map_of st (fst cr) = Some cd" by auto
  let ?x = "a * (getNum (snd cr) coinType / totalObs)"
  let ?xu = "u * (getNum (snd cr) coinType / totalObs)"
  let ?st1 = "modifyData (fst cr)
                (\<lambda>d. d\<lparr>shortfallsReceived := addShortfall (shortfallsReceived d) eid coinType ?x ?xu eid\<rparr>) st"
  let ?st2 = "modifyData eid
                (\<lambda>d. d\<lparr>shortfallsCaused := addShortfall (shortfallsCaused d) (fst cr) coinType ?x ?xu eid\<rparr>) ?st1"
  let ?st3 = "modifyData (fst cr)
                (\<lambda>d. if totalLiabilities d \<noteq> []
                      then d\<lparr>shortfallsByCoin := AList.update coinType
                               (getNum (shortfallsByCoin d) coinType + ?x) (shortfallsByCoin d)\<rparr>
                      else d) ?st2"
  have eq: "distributeToCreditor eid coinType a u totalObs st cr = ?st3"
    using True cd by (simp add: distributeToCreditor_def Let_def)
  have 1: "evolves st ?st1" by (rule evolves_modifyData) (rule keeps_received)
  have 2: "evolves ?st1 ?st2" by (rule evolves_modifyData) (rule keeps_caused)
  have 3: "evolves ?st2 ?st3" by (rule evolves_modifyData) (rule keeps_byCoin)
  show ?thesis unfolding eq by (rule evolves_trans[OF evolves_trans[OF 1 2] 3])
qed

lemma evolves_foldl:
  "(\<And>s x. evolves s (f s x)) \<Longrightarrow> evolves st (foldl f st xs)"
proof (induction xs arbitrary: st)
  case Nil
  show ?case by (simp add: evolves_refl)
next
  case (Cons x xs)
  have "evolves st (f st x)" by (rule Cons.prems)
  moreover have "evolves (f st x) (foldl f (f st x) xs)" by (rule Cons.IH) (rule Cons.prems)
  ultimately show ?case by (simp add: evolves_trans)
qed

lemma evolves_distributeCoin: "evolves st (distributeCoin eid obc pm st sh)"
proof (cases "totalObligationsForCoin obc (fst sh) > 0")
  case False
  then show ?thesis by (simp add: distributeCoin_def Let_def evolves_refl)
next
  case True
  show ?thesis
  proof (cases "pm (fst sh)")
    case None
    with True show ?thesis by (simp add: distributeCoin_def Let_def evolves_refl)
  next
    case (Some price)
    with True show ?thesis
      by (simp add: distributeCoin_def Let_def evolves_foldl evolves_distributeToCreditor)
  qed
qed

lemma evolves_propagateEntityShortfalls:
  "evolves st (propagateEntityShortfalls eid st entities pm)"
proof (cases "find (\<lambda>e. entity_id e = eid) entities")
  case None
  then show ?thesis by (simp add: propagateEntityShortfalls_def evolves_refl)
next
  case (Some entity)
  show ?thesis
  proof (cases "map_of st eid")
    case None
    with Some show ?thesis by (simp add: propagateEntityShortfalls_def evolves_refl)
  next
    case d: (Some d)
    with Some show ?thesis
      by (simp add: propagateEntityShortfalls_def Let_def evolves_refl evolves_foldl
          evolves_distributeCoin)
  qed
qed

lemma evolves_propagateAlong: "evolves st (propagateAlong order st entities pm)"
  unfolding propagateAlong_def
  by (rule evolves_foldl) (rule evolves_propagateEntityShortfalls)

lemma foldl_invariant:
  "I st \<Longrightarrow> (\<And>s x. x \<in> set xs \<Longrightarrow> I s \<Longrightarrow> I (f s x)) \<Longrightarrow> I (foldl f st xs)"
proof (induction xs arbitrary: st)
  case Nil
  then show ?case by simp
next
  case (Cons x xs)
  have "I (f st x)" by (rule Cons.prems(2)) (simp_all add: Cons.prems(1))
  then have "I (foldl f (f st x) xs)"
    by (rule Cons.IH) (rule Cons.prems(2), simp_all)
  then show ?case by simp
qed

lemma list_all_update:
  "list_all P m \<Longrightarrow> P (k, v) \<Longrightarrow> list_all P (AList.update k v m)"
  by (induction m) auto

lemma allPositive_lookup:
  "allPositive st \<Longrightarrow> map_of st k = Some d \<Longrightarrow> positiveShortfalls d"
proof -
  assume a: "allPositive st" and m: "map_of st k = Some d"
  from m have "(k, d) \<in> set st" by (rule map_of_SomeD)
  with a show ?thesis unfolding allPositive_def list_all_iff by fastforce
qed

lemma allPositive_modifyData:
  assumes "allPositive st" "\<And>d. positiveShortfalls d \<Longrightarrow> positiveShortfalls (f d)"
  shows "allPositive (modifyData k f st)"
proof (cases "map_of st k")
  case None
  with assms(1) show ?thesis by (simp add: modifyData_def)
next
  case (Some d)
  have "positiveShortfalls (f d)" by (rule assms(2)) (rule allPositive_lookup[OF assms(1) Some])
  then have "list_all (\<lambda>x. positiveShortfalls (snd x)) (AList.update k (f d) st)"
    using assms(1) unfolding allPositive_def by (intro list_all_update) simp_all
  with Some show ?thesis by (simp add: modifyData_def allPositive_def)
qed

lemma getNum_nonneg:
  assumes "list_all (\<lambda>cv. 0 < snd cv) m"
  shows "0 \<le> getNum m c"
proof (cases "map_of m c")
  case None
  then show ?thesis by (simp add: getNum_def)
next
  case (Some v)
  then have "(c, v) \<in> set m" by (rule map_of_SomeD)
  with assms have "0 < v" unfolding list_all_iff by fastforce
  with Some show ?thesis by (simp add: getNum_def)
qed

lemma positive_byCoin:
  assumes "positiveShortfalls d" "0 < x"
  shows "positiveShortfalls (if totalLiabilities d \<noteq> []
            then d\<lparr>shortfallsByCoin := AList.update c (getNum (shortfallsByCoin d) c + x) (shortfallsByCoin d)\<rparr>
            else d)"
proof -
  from assms(1) have "0 \<le> getNum (shortfallsByCoin d) c"
    unfolding positiveShortfalls_def by (rule getNum_nonneg)
  with assms(2) have "0 < getNum (shortfallsByCoin d) c + x" by simp
  with assms(1) show ?thesis
    unfolding positiveShortfalls_def by (simp add: list_all_update)
qed

lemma allPositive_distributeToCreditor:
  assumes "allPositive st" "0 < a" "0 < totalObs"
  shows "allPositive (distributeToCreditor eid coinType a u totalObs st cr)"
proof (cases "getNum (snd cr) coinType > 0 \<and> map_of st (fst cr) \<noteq> None")
  case False
  with assms(1) show ?thesis
    by (auto simp: distributeToCreditor_def Let_def)
next
  case True
  then obtain cd where cd: "map_of st (fst cr) = Some cd" by auto
  let ?x = "a * (getNum (snd cr) coinType / totalObs)"
  let ?xu = "u * (getNum (snd cr) coinType / totalObs)"
  let ?st1 = "modifyData (fst cr)
                (\<lambda>d. d\<lparr>shortfallsReceived := addShortfall (shortfallsReceived d) eid coinType ?x ?xu eid\<rparr>) st"
  let ?st2 = "modifyData eid
                (\<lambda>d. d\<lparr>shortfallsCaused := addShortfall (shortfallsCaused d) (fst cr) coinType ?x ?xu eid\<rparr>) ?st1"
  let ?st3 = "modifyData (fst cr)
                (\<lambda>d. if totalLiabilities d \<noteq> []
                      then d\<lparr>shortfallsByCoin := AList.update coinType
                               (getNum (shortfallsByCoin d) coinType + ?x) (shortfallsByCoin d)\<rparr>
                      else d) ?st2"
  have eq: "distributeToCreditor eid coinType a u totalObs st cr = ?st3"
    using True cd by (simp add: distributeToCreditor_def Let_def)
  have x: "0 < ?x" using assms(2,3) True by simp
  have 1: "allPositive ?st1"
    by (rule allPositive_modifyData[OF assms(1)]) (simp add: positiveShortfalls_def)
  have 2: "allPositive ?st2"
    by (rule allPositive_modifyData[OF 1]) (simp add: positiveShortfalls_def)
  have 3: "allPositive ?st3"
    by (rule allPositive_modifyData[OF 2]) (rule positive_byCoin[OF _ x])
  show ?thesis unfolding eq by (rule 3)
qed

lemma allPositive_distributeCoin:
  assumes "allPositive st" "0 < snd sh"
  shows "allPositive (distributeCoin eid obc pm st sh)"
proof (cases "totalObligationsForCoin obc (fst sh) > 0")
  case False
  with assms(1) show ?thesis by (simp add: distributeCoin_def Let_def)
next
  case True
  show ?thesis
  proof (cases "pm (fst sh)")
    case None
    with True assms(1) show ?thesis by (simp add: distributeCoin_def Let_def)
  next
    case (Some price)
    have "allPositive (foldl (distributeToCreditor eid (fst sh) (snd sh) (snd sh * price)
             (totalObligationsForCoin obc (fst sh))) st obc)"
      by (rule foldl_invariant[where I = allPositive, OF assms(1)])
        (rule allPositive_distributeToCreditor[OF _ assms(2) True])
    with True Some show ?thesis by (simp add: distributeCoin_def Let_def)
  qed
qed

lemma allPositive_propagateEntityShortfalls:
  assumes "allPositive st"
  shows "allPositive (propagateEntityShortfalls eid st entities pm)"
proof (cases "find (\<lambda>e. entity_id e = eid) entities")
  case None
  with assms show ?thesis by (simp add: propagateEntityShortfalls_def)
next
  case (Some entity)
  show ?thesis
  proof (cases "map_of st eid")
    case None
    with Some assms show ?thesis by (simp add: propagateEntityShortfalls_def)
  next
    case d: (Some d)
    have pos: "\<And>sh. sh \<in> set (shortfallsByCoin d) \<Longrightarrow> 0 < snd sh"
      using allPositive_lookup[OF assms d] unfolding positiveShortfalls_def list_all_iff by simp
    have "allPositive (foldl (distributeCoin eid (obligationsByCreditor entity) pm) st (shortfallsByCoin d))"
    proof (rule foldl_invariant[where I = allPositive, OF assms])
      fix s x assume "x \<in> set (shortfallsByCoin d)" "allPositive s"
      then show "allPositive (distributeCoin eid (obligationsByCreditor entity) pm s x)"
        using pos by (intro allPositive_distributeCoin) simp_all
    qed
    with Some d assms show ?thesis
      by (simp add: propagateEntityShortfalls_def Let_def)
  qed
qed

lemma allPositive_propagateAlong:
  "allPositive st \<Longrightarrow> allPositive (propagateAlong order st entities pm)"
  unfolding propagateAlong_def
  by (rule foldl_invariant[where I = allPositive]) (simp_all add: allPositive_propagateEntityShortfalls)

lemma entitySolvency_Inr:
  assumes "entitySolvency entities pm e = Inr d"
  obtains obs assetsUsd st sw where
    "flattenObligations pm (obligations e) = Inr obs"
    "sumAssetsUsd pm (aggregateAssets entities e) = Inr assetsUsd"
    "directNetting pm (aggregateAssets entities e) obs = Inr st"
    "crossAssetCoverage pm (aggregateAssets entities e) st = Inr sw"
    "d = \<lparr>entityId = entity_id e,
          entityType = entity_type e,
          entityName = entity_name e,
          totalAssets = totalAssetsList (aggregateAssets entities e),
          totalLiabilities = totalLiabilitiesList obs,
          totalAssetsUsd = assetsUsd,
          totalLiabilitiesUsd = sumLiabilitiesUsd obs,
          shortfallUsd = max (sw_remainingLiabilitiesUsd sw) 0,
          swapUsedUsd = sw_swapUsedUsd sw,
          swappedRepayments = sw_swappedRepayments sw,
          shortfallsByCoin = residualByCoin pm (max (sw_remainingLiabilitiesUsd sw) 0) (shortfallUsdByCoin st),
          shortfallsReceived = [],
          shortfallsCaused = []\<rparr>"
proof (cases "flattenObligations pm (obligations e)")
  case (Inl e1)
  with assms show ?thesis by (simp add: entitySolvency_def Let_def)
next
  case obs: (Inr obs)
  show ?thesis
  proof (cases "sumAssetsUsd pm (aggregateAssets entities e)")
    case (Inl e2)
    with assms obs show ?thesis by (simp add: entitySolvency_def Let_def)
  next
    case usd: (Inr assetsUsd)
    show ?thesis
    proof (cases "directNetting pm (aggregateAssets entities e) obs")
      case (Inl e3)
      with assms obs usd show ?thesis by (simp add: entitySolvency_def Let_def)
    next
      case st: (Inr st)
      show ?thesis
      proof (cases "crossAssetCoverage pm (aggregateAssets entities e) st")
        case (Inl e4)
        with assms obs usd st show ?thesis by (simp add: entitySolvency_def Let_def)
      next
        case sw: (Inr sw)
        show ?thesis
          by (rule that[OF obs usd st sw]) (use assms obs usd st sw in \<open>simp add: entitySolvency_def Let_def\<close>)
      qed
    qed
  qed
qed

lemma foldl_plus: "foldl (\<lambda>s v. s + v) a xs = a + sum_list xs" for a :: rat
  by (induction xs arbitrary: a) (simp_all add: add.assoc)

lemma sumShortfallUsd_sum: "sumShortfallUsd sh = sum_list (map snd sh)"
  by (simp add: sumShortfallUsd_def foldl_plus)

lemma update_fresh: "k \<notin> fst ` set m \<Longrightarrow> AList.update k v m = m @ [(k, v)]"
  by (induction m) auto

lemma netCoin_shortfalls:
  assumes "netCoin pm obs s g = Inr s1"
  obtains
    (same) "shortfallUsdByCoin s1 = shortfallUsdByCoin s"
      "remainingLiabilitiesUsd s1 = remainingLiabilitiesUsd s"
  | (deficit) price x where "pm (fst g) = Some price" "0 < x"
      "shortfallUsdByCoin s1 = AList.update (fst g) (x * price) (shortfallUsdByCoin s)"
      "remainingLiabilitiesUsd s1 = remainingLiabilitiesUsd s + x * price"
  using assms
proof (cases rule: netCoin_cases)
  case surplus
  then show ?thesis by (intro same) simp_all
next
  case exact
  then show ?thesis by (intro same) simp_all
next
  case unpriced
  then show ?thesis by simp
next
  case (deficit price obligation)
  let ?short = "totalObIntOf (snd g) - availableOf (remainingByCoin s) (fst g)"
  let ?x = "of_int ?short / 10 ^ amt_decimals (od_amount obligation) :: rat"
  have x: "0 < ?x" using deficit(1) by simp
  have u: "toDecimal (fromInt ?short (amt_decimals (od_amount obligation))) = ?x"
    by (simp add: toDecimal_def fromInt_def)
  show ?thesis
    by (rule that(2)[OF deficit(2) x]) (use deficit(4) u in simp_all)
next
  case (orphan price)
  then show ?thesis by (intro same) simp_all
qed

text \<open>After netting, the uncovered USD is the sum of the per-type deficits, and each
  deficit is a positive amount times the price of its asset type.\<close>

lemma netting_shortfalls_fold:
  assumes "foldE (netCoin pm obs) s gs = Inr st" "distinct (map fst gs)"
    "fst ` set (shortfallUsdByCoin s) \<inter> fst ` set gs = {}"
    "remainingLiabilitiesUsd s = sum_list (map snd (shortfallUsdByCoin s))"
    "\<forall>tu \<in> set (shortfallUsdByCoin s). \<exists>p x. pm (fst tu) = Some p \<and> snd tu = x * p \<and> 0 < x"
  shows "remainingLiabilitiesUsd st = sum_list (map snd (shortfallUsdByCoin st)) \<and>
         (\<forall>tu \<in> set (shortfallUsdByCoin st). \<exists>p x. pm (fst tu) = Some p \<and> snd tu = x * p \<and> 0 < x)"
  using assms
proof (induction gs arbitrary: s)
  case Nil
  then show ?case by simp
next
  case (Cons g gs)
  from Cons.prems(1) have "\<exists>s1. netCoin pm obs s g = Inr s1 \<and> foldE (netCoin pm obs) s1 gs = Inr st"
    by (cases "netCoin pm obs s g") simp_all
  then obtain s1 where n: "netCoin pm obs s g = Inr s1" and r: "foldE (netCoin pm obs) s1 gs = Inr st"
    by blast
  have dg: "distinct (map fst gs)" and fresh: "fst g \<notin> fst ` set gs"
    using Cons.prems(2) by simp_all
  have gfresh: "fst g \<notin> fst ` set (shortfallUsdByCoin s)"
    using Cons.prems(3) by auto
  have disj: "fst ` set (shortfallUsdByCoin s) \<inter> fst ` set gs = {}"
    using Cons.prems(3) by auto
  from n have "fst ` set (shortfallUsdByCoin s1) \<inter> fst ` set gs = {} \<and>
     remainingLiabilitiesUsd s1 = sum_list (map snd (shortfallUsdByCoin s1)) \<and>
     (\<forall>tu \<in> set (shortfallUsdByCoin s1). \<exists>p x. pm (fst tu) = Some p \<and> snd tu = x * p \<and> 0 < x)"
  proof (cases rule: netCoin_shortfalls)
    case same
    with disj Cons.prems(4,5) show ?thesis by simp
  next
    case (deficit price x)
    have eq: "shortfallUsdByCoin s1 = shortfallUsdByCoin s @ [(fst g, x * price)]"
      unfolding deficit(3) by (rule update_fresh[OF gfresh])
    have 1: "fst ` set (shortfallUsdByCoin s1) \<inter> fst ` set gs = {}"
      unfolding eq using disj fresh by auto
    have 2: "remainingLiabilitiesUsd s1 = sum_list (map snd (shortfallUsdByCoin s1))"
      unfolding eq deficit(4) using Cons.prems(4) by simp
    have 3: "\<forall>tu \<in> set (shortfallUsdByCoin s1). \<exists>p x. pm (fst tu) = Some p \<and> snd tu = x * p \<and> 0 < x"
      unfolding eq using Cons.prems(5) deficit(1,2) by auto
    from 1 2 3 show ?thesis by (intro conjI)
  qed
  then show ?case
    using Cons.IH[OF r dg] by (elim conjE) simp
qed

lemma distinct_obligationsByCoin_aux:
  "distinct (map fst acc) \<Longrightarrow>
   distinct (map fst (foldl (\<lambda>acc ob. case map_of acc (od_coinType ob) of
                        Some l \<Rightarrow> AList.update (od_coinType ob) (l @ [ob]) acc
                      | None \<Rightarrow> AList.update (od_coinType ob) [ob] acc) acc obs))"
proof (induction obs arbitrary: acc)
  case Nil
  then show ?case by simp
next
  case (Cons ob obs)
  show ?case
    by (cases "map_of acc (od_coinType ob)") (simp_all add: Cons.IH Cons.prems distinct_update)
qed

lemma distinct_obligationsByCoin: "distinct (map fst (obligationsByCoin obs))"
  by (simp add: obligationsByCoin_def distinct_obligationsByCoin_aux)

lemma directNetting_shortfalls:
  assumes "directNetting pm tot obs = Inr st"
  shows "remainingLiabilitiesUsd st = sum_list (map snd (shortfallUsdByCoin st))"
    and "\<forall>tu \<in> set (shortfallUsdByCoin st). \<exists>p x. pm (fst tu) = Some p \<and> snd tu = x * p \<and> 0 < x"
proof -
  let ?s0 = "\<lparr>remainingByCoin = map (\<lambda>(coinType, amount). (coinType, amt_int amount)) tot,
        remainingLiabilitiesUsd = 0, shortfallUsdByCoin = []\<rparr>"
  have f: "foldE (netCoin pm obs) ?s0 (obligationsByCoin obs) = Inr st"
    using assms by (simp only: directNetting_def)
  have k: "remainingLiabilitiesUsd st = sum_list (map snd (shortfallUsdByCoin st)) \<and>
         (\<forall>tu \<in> set (shortfallUsdByCoin st). \<exists>p x. pm (fst tu) = Some p \<and> snd tu = x * p \<and> 0 < x)"
    by (rule netting_shortfalls_fold[OF f distinct_obligationsByCoin]) simp_all
  show "remainingLiabilitiesUsd st = sum_list (map snd (shortfallUsdByCoin st))"
    by (rule conjunct1[OF k])
  show "\<forall>tu \<in> set (shortfallUsdByCoin st). \<exists>p x. pm (fst tu) = Some p \<and> snd tu = x * p \<and> 0 < x"
    by (rule conjunct2[OF k])
qed

lemma residual_step_positive:
  "list_all (\<lambda>cv. 0 < snd cv) acc \<Longrightarrow>
   list_all (\<lambda>cv. 0 < snd cv)
     (case pm (fst x) of
        Some price \<Rightarrow> (if f * (snd x / t) / price > 0
                        then AList.update (fst x) (f * (snd x / t) / price) acc else acc)
      | None \<Rightarrow> acc)" for f t :: rat
  by (cases "pm (fst x)") (simp_all add: list_all_update)

lemma residualByCoin_unfold:
  "residualByCoin pm f sh =
     (if f > 0 \<and> sh \<noteq> [] then
        foldl (\<lambda>acc x. case pm (fst x) of
                  Some price \<Rightarrow> (if f * (snd x / sumShortfallUsd sh) / price > 0
                                  then AList.update (fst x) (f * (snd x / sumShortfallUsd sh) / price) acc
                                  else acc)
                | None \<Rightarrow> acc) [] sh
      else [])"
  unfolding residualByCoin_def Let_def
  by (simp add: case_prod_unfold)

lemma residualByCoin_positive: "list_all (\<lambda>cv. 0 < snd cv) (residualByCoin pm f sh)"
proof (cases "f > 0 \<and> sh \<noteq> []")
  case False
  then show ?thesis by (auto simp: residualByCoin_unfold)
next
  case True
  have "list_all (\<lambda>cv. 0 < snd cv)
     (foldl (\<lambda>acc x. case pm (fst x) of
                  Some price \<Rightarrow> (if f * (snd x / sumShortfallUsd sh) / price > 0
                                  then AList.update (fst x) (f * (snd x / sumShortfallUsd sh) / price) acc
                                  else acc)
                | None \<Rightarrow> acc) [] sh)"
    by (rule foldl_invariant[where I = "list_all (\<lambda>cv. 0 < snd cv)"])
       (simp_all add: residual_step_positive)
  with True show ?thesis by (simp add: residualByCoin_unfold)
qed

lemma foldl_nonempty:
  assumes "\<And>acc x. acc \<noteq> [] \<Longrightarrow> g acc x \<noteq> []" "x \<in> set xs" "\<And>acc. g acc x \<noteq> []"
  shows "foldl g acc xs \<noteq> []"
  using assms(2)
proof (induction xs arbitrary: acc)
  case Nil
  then show ?case by simp
next
  case (Cons y ys)
  show ?case
  proof (cases "x = y")
    case True
    have "g acc y \<noteq> []" unfolding True[symmetric] by (rule assms(3))
    then have "foldl g (g acc y) ys \<noteq> []"
      by (rule foldl_invariant[where I = "\<lambda>a. a \<noteq> []"]) (rule assms(1))
    then show ?thesis by simp
  next
    case False
    with Cons.prems have "x \<in> set ys" by simp
    from Cons.IH[OF this] show ?thesis by simp
  qed
qed

lemma sum_list_pos_elem:
  fixes xs :: "rat list"
  assumes "0 < sum_list xs"
  shows "\<exists>x \<in> set xs. 0 < x"
proof (rule ccontr)
  assume "\<not> ?thesis"
  then have "\<forall>x \<in> set xs. x \<le> 0" by auto
  then have "sum_list xs \<le> 0" by (simp add: sum_list_nonpos)
  with assms show False by simp
qed

lemma residualByCoin_nonempty:
  assumes "0 < f" "0 < sum_list (map snd sh)"
    "\<forall>tu \<in> set sh. \<exists>p x. pm (fst tu) = Some p \<and> snd tu = x * p \<and> 0 < x"
  shows "residualByCoin pm f sh \<noteq> []"
proof -
  from sum_list_pos_elem[OF assms(2)] obtain tu where tu: "tu \<in> set sh" and u: "0 < snd tu"
    by auto
  from assms(3) tu obtain p x where p: "pm (fst tu) = Some p" and x: "snd tu = x * p" "0 < x"
    by blast
  from u x have pp: "0 < p" by (simp add: zero_less_mult_iff)
  have t: "0 < sumShortfallUsd sh" using assms(2) by (simp add: sumShortfallUsd_sum)
  have amt: "0 < f * (snd tu / sumShortfallUsd sh) / p"
    using assms(1) u t pp by simp
  from tu have ne: "sh \<noteq> []" by auto
  let ?g = "\<lambda>acc x. case pm (fst x) of
                  Some price \<Rightarrow> (if f * (snd x / sumShortfallUsd sh) / price > 0
                                  then AList.update (fst x) (f * (snd x / sumShortfallUsd sh) / price) acc
                                  else acc)
                | None \<Rightarrow> acc"
  have "foldl ?g [] sh \<noteq> []"
  proof (rule foldl_nonempty[where g = ?g, OF _ tu])
    fix acc :: "(string \<times> rat) list" and y
    assume "acc \<noteq> []"
    then show "?g acc y \<noteq> []" by (cases "pm (fst y)") simp_all
  next
    fix acc :: "(string \<times> rat) list"
    show "?g acc tu \<noteq> []" using p amt by simp
  qed
  with assms(1) ne show ?thesis by (simp add: residualByCoin_unfold)
qed

lemma crossAssetCoverage_remaining:
  assumes "crossAssetCoverage pm tot st = Inr sw" "0 < sw_remainingLiabilitiesUsd sw"
  shows "0 < remainingLiabilitiesUsd st"
proof (cases "remainingLiabilitiesUsd st > 0 \<and> remainingByCoin st \<noteq> []")
  case True
  then show ?thesis by simp
next
  case False
  with assms(1) have "sw_remainingLiabilitiesUsd sw = remainingLiabilitiesUsd st"
    by (auto simp: crossAssetCoverage_def)
  with assms(2) show ?thesis by simp
qed

lemma crossAssetCoverage_none:
  assumes "crossAssetCoverage pm tot st = Inr sw" "remainingLiabilitiesUsd st = 0"
  shows "sw_remainingLiabilitiesUsd sw = 0"
  using assms by (auto simp: crossAssetCoverage_def)

text \<open>What the first pass establishes for the record of an entity.\<close>

lemma entitySolvency_facts:
  assumes "entitySolvency entities pm e = Inr d"
  shows "entityId d = entity_id e"
    and "positiveShortfalls d"
    and "0 < shortfallUsd d \<Longrightarrow> shortfallsByCoin d \<noteq> []"
    and "obligations e = [] \<Longrightarrow> totalLiabilities d = [] \<and> shortfallsByCoin d = [] \<and> shortfallUsd d = 0"
proof -
  from assms obtain obs assetsUsd st sw where
    obs: "flattenObligations pm (obligations e) = Inr obs" and
    usd: "sumAssetsUsd pm (aggregateAssets entities e) = Inr assetsUsd" and
    st: "directNetting pm (aggregateAssets entities e) obs = Inr st" and
    sw: "crossAssetCoverage pm (aggregateAssets entities e) st = Inr sw" and
    d: "d = \<lparr>entityId = entity_id e,
          entityType = entity_type e,
          entityName = entity_name e,
          totalAssets = totalAssetsList (aggregateAssets entities e),
          totalLiabilities = totalLiabilitiesList obs,
          totalAssetsUsd = assetsUsd,
          totalLiabilitiesUsd = sumLiabilitiesUsd obs,
          shortfallUsd = max (sw_remainingLiabilitiesUsd sw) 0,
          swapUsedUsd = sw_swapUsedUsd sw,
          swappedRepayments = sw_swappedRepayments sw,
          shortfallsByCoin = residualByCoin pm (max (sw_remainingLiabilitiesUsd sw) 0) (shortfallUsdByCoin st),
          shortfallsReceived = [],
          shortfallsCaused = []\<rparr>"
    by (rule entitySolvency_Inr)
  have f1: "entityId d = entity_id e" by (simp add: d)
  have f2: "shortfallsByCoin d = residualByCoin pm (shortfallUsd d) (shortfallUsdByCoin st)"
    by (simp add: d)
  have f3: "shortfallUsd d = max (sw_remainingLiabilitiesUsd sw) 0" by (simp add: d)
  have f4: "totalLiabilities d = totalLiabilitiesList obs" by (simp add: d)
  show "entityId d = entity_id e" by (rule f1)
  show "positiveShortfalls d"
    unfolding positiveShortfalls_def f2 by (rule residualByCoin_positive)
  show "shortfallsByCoin d \<noteq> []" if pos: "0 < shortfallUsd d"
  proof -
    from pos f3 have "0 < sw_remainingLiabilitiesUsd sw" by simp
    from crossAssetCoverage_remaining[OF sw this] directNetting_shortfalls(1)[OF st]
    have "0 < sum_list (map snd (shortfallUsdByCoin st))" by simp
    from residualByCoin_nonempty[OF pos this directNetting_shortfalls(2)[OF st]]
    show ?thesis unfolding f2 .
  qed
  show "totalLiabilities d = [] \<and> shortfallsByCoin d = [] \<and> shortfallUsd d = 0"
    if no: "obligations e = []"
  proof -
    from obs no have o: "obs = []" by (simp add: flattenObligations_def)
    from st o have s: "remainingLiabilitiesUsd st = 0"
      by (auto simp: directNetting_def obligationsByCoin_def)
    from crossAssetCoverage_none[OF sw s] f3 have z: "shortfallUsd d = 0" by simp
    have "residualByCoin pm 0 (shortfallUsdByCoin st) = []" by (simp add: residualByCoin_def)
    with f2 z have "shortfallsByCoin d = []" by simp
    moreover have "totalLiabilities d = []" unfolding f4 o by (simp add: totalLiabilitiesList_def)
    ultimately show ?thesis using z by simp
  qed
qed

lemma set_update_subset: "set (AList.update k v m) \<subseteq> insert (k, v) (set m)"
  by (induction m) auto

text \<open>The records after the first pass: one per entity id, each computed from an entity
  with that id.\<close>

lemma firstPass_fold:
  assumes "foldE (\<lambda>acc entity. case entitySolvency entities pm entity of Inl e \<Rightarrow> Inl e
                     | Inr d \<Rightarrow> Inr (AList.update (entity_id entity) d acc)) acc es = Inr st"
    "distinct (map fst acc)"
    "\<forall>x \<in> set acc. \<exists>e \<in> set entities. fst x = entity_id e \<and> entitySolvency entities pm e = Inr (snd x)"
    "set es \<subseteq> set entities"
  shows "distinct (map fst st) \<and>
         (\<forall>x \<in> set st. \<exists>e \<in> set entities. fst x = entity_id e \<and> entitySolvency entities pm e = Inr (snd x)) \<and>
         fst ` set st = fst ` set acc \<union> entity_id ` set es"
  using assms
proof (induction es arbitrary: acc)
  case Nil
  then show ?case by simp
next
  case (Cons e es)
  let ?body = "\<lambda>acc entity. case entitySolvency entities pm entity of Inl e \<Rightarrow> Inl e
                     | Inr d \<Rightarrow> Inr (AList.update (entity_id entity) d acc)"
  from Cons.prems(1) have "\<exists>d. entitySolvency entities pm e = Inr d \<and>
      foldE ?body (AList.update (entity_id e) d acc) es = Inr st"
    by (cases "entitySolvency entities pm e") simp_all
  then obtain d where d: "entitySolvency entities pm e = Inr d"
    and r: "foldE ?body (AList.update (entity_id e) d acc) es = Inr st" by blast
  let ?acc = "AList.update (entity_id e) d acc"
  have e: "e \<in> set entities" using Cons.prems(4) by simp
  have 1: "distinct (map fst ?acc)" using Cons.prems(2) by (rule distinct_update)
  have 2: "\<forall>x \<in> set ?acc. \<exists>e \<in> set entities. fst x = entity_id e \<and> entitySolvency entities pm e = Inr (snd x)"
  proof
    fix x assume "x \<in> set ?acc"
    with set_update_subset[of "entity_id e" d acc] have "x = (entity_id e, d) \<or> x \<in> set acc" by auto
    then show "\<exists>e \<in> set entities. fst x = entity_id e \<and> entitySolvency entities pm e = Inr (snd x)"
    proof
      assume "x = (entity_id e, d)"
      with e d show ?thesis by (intro bexI[of _ e]) simp_all
    next
      assume "x \<in> set acc"
      with Cons.prems(3) show ?thesis by (rule bspec)
    qed
  qed
  have 3: "set es \<subseteq> set entities" using Cons.prems(4) by simp
  have k: "fst ` set ?acc = insert (entity_id e) (fst ` set acc)" by (simp add: AList.dom_update)
  from Cons.IH[OF r 1 2 3] show ?case unfolding k by simp
qed

lemma firstPass_records:
  assumes "firstPass entities pm = Inr st"
  shows "distinct (map fst st)"
    and "\<forall>x \<in> set st. \<exists>e \<in> set entities. fst x = entity_id e \<and> entitySolvency entities pm e = Inr (snd x)"
    and "fst ` set st = entity_id ` set entities"
proof -
  have k: "distinct (map fst st) \<and>
         (\<forall>x \<in> set st. \<exists>e \<in> set entities. fst x = entity_id e \<and> entitySolvency entities pm e = Inr (snd x)) \<and>
         fst ` set st = fst ` set ([] :: entityData) \<union> entity_id ` set entities"
    by (rule firstPass_fold[OF assms[unfolded firstPass_def]]) simp_all
  show "distinct (map fst st)" by (rule conjunct1[OF k])
  show "\<forall>x \<in> set st. \<exists>e \<in> set entities. fst x = entity_id e \<and> entitySolvency entities pm e = Inr (snd x)"
    by (rule conjunct1[OF conjunct2[OF k]])
  show "fst ` set st = entity_id ` set entities"
    using conjunct2[OF conjunct2[OF k]] by simp
qed

lemma firstPass_allPositive:
  assumes "firstPass entities pm = Inr st"
  shows "allPositive st"
  unfolding allPositive_def list_all_iff
proof
  fix x assume "x \<in> set st"
  with firstPass_records(2)[OF assms] obtain e where "entitySolvency entities pm e = Inr (snd x)"
    by blast
  then show "positiveShortfalls (snd x)" by (rule entitySolvency_facts(2))
qed

lemma firstPass_direct:
  assumes "firstPass entities pm = Inr st" "x \<in> set st"
  shows "entityId (snd x) = fst x"
    and "0 < shortfallUsd (snd x) \<Longrightarrow> shortfallsByCoin (snd x) \<noteq> []"
proof -
  from firstPass_records(2)[OF assms(1)] assms(2) obtain e
    where e: "fst x = entity_id e" "entitySolvency entities pm e = Inr (snd x)" by blast
  show "entityId (snd x) = fst x" using entitySolvency_facts(1)[OF e(2)] e(1) by simp
  show "0 < shortfallUsd (snd x) \<Longrightarrow> shortfallsByCoin (snd x) \<noteq> []"
    by (rule entitySolvency_facts(3)[OF e(2)])
qed

lemma firstPass_no_obligations:
  assumes "firstPass entities pm = Inr st" "distinct (map entity_id entities)"
    "e \<in> set entities" "obligations e = []"
  shows "\<exists>x \<in> set st. fst x = entity_id e \<and> totalLiabilities (snd x) = [] \<and>
           shortfallsByCoin (snd x) = [] \<and> shortfallUsd (snd x) = 0"
proof -
  from assms(3) have "entity_id e \<in> fst ` set st"
    unfolding firstPass_records(3)[OF assms(1)] by simp
  then obtain x where x: "x \<in> set st" "fst x = entity_id e" by auto
  from firstPass_records(2)[OF assms(1)] x(1) obtain e'
    where e': "e' \<in> set entities" "fst x = entity_id e'" "entitySolvency entities pm e' = Inr (snd x)"
    by blast
  from assms(2) have "inj_on entity_id (set entities)" by (simp add: distinct_map)
  with e'(1,2) x(2) assms(3) have "e' = e" by (simp add: inj_on_def)
  with e'(3) have "entitySolvency entities pm e = Inr (snd x)" by simp
  from entitySolvency_facts(4)[OF this assms(4)] x show ?thesis by blast
qed

lemma evolves_fst: "evolves st st' \<Longrightarrow> map fst st' = map fst st"
  unfolding evolves_def by (induction rule: list_all2_induct) simp_all

lemma evolves_backward:
  "evolves st st' \<Longrightarrow> y \<in> set st' \<Longrightarrow> \<exists>x \<in> set st. fst y = fst x \<and> keeps (snd x) (snd y)"
  unfolding evolves_def
proof (induction rule: list_all2_induct)
  case Nil
  then show ?case by simp
next
  case (Cons a as b bs)
  show ?case
  proof (cases "y = b")
    case True
    with Cons.hyps(1) show ?thesis by simp
  next
    case False
    with Cons.prems have "y \<in> set bs" by simp
    from Cons.IH[OF this] show ?thesis by auto
  qed
qed

lemma evolves_forward:
  "evolves st st' \<Longrightarrow> x \<in> set st \<Longrightarrow> \<exists>y \<in> set st'. fst y = fst x \<and> keeps (snd x) (snd y)"
  unfolding evolves_def
proof (induction rule: list_all2_induct)
  case Nil
  then show ?case by simp
next
  case (Cons a as b bs)
  show ?case
  proof (cases "x = a")
    case True
    with Cons.hyps(1) show ?thesis by simp
  next
    case False
    with Cons.prems have "x \<in> set as" by simp
    from Cons.IH[OF this] show ?thesis by auto
  qed
qed

lemma distinct_filter_member:
  assumes "distinct (map f xs)" "x \<in> set xs"
  shows "f x \<in> set (map f (filter P xs)) \<longleftrightarrow> P x"
proof
  assume "f x \<in> set (map f (filter P xs))"
  then obtain y where y: "y \<in> set xs" "P y" "f y = f x" by auto
  from assms(1) have "inj_on f (set xs)" by (simp add: distinct_map)
  with y(1,3) assms(2) have "y = x" by (simp add: inj_on_def)
  with y(2) show "P x" by simp
next
  assume "P x"
  with assms(2) show "f x \<in> set (map f (filter P xs))" by auto
qed

lemma checkEntitySolvency_Inr:
  assumes "checkEntitySolvency entities pm = Inr r"
  obtains st where "firstPass entities pm = Inr st"
    "\<not> hasCycle (buildGraph entities)"
    "r = finalResult (propagateAlong (topologicalSort (buildGraph entities)) st entities pm)"
proof (cases "firstPass entities pm")
  case (Inl e)
  with assms show ?thesis by (simp add: checkEntitySolvency_def)
next
  case (Inr st)
  show ?thesis
  proof (cases "hasCycle (buildGraph entities)")
    case True
    with assms Inr show ?thesis
      by (simp add: checkEntitySolvency_def propagateShortfalls_def Let_def)
  next
    case False
    show ?thesis
      by (rule that[OF Inr False])
        (use assms Inr False in \<open>simp add: checkEntitySolvency_def propagateShortfalls_def Let_def\<close>)
  qed
qed

lemma positive_nonempty_iff:
  assumes "positiveShortfalls d"
  shows "shortfallsByCoin d \<noteq> [] \<longleftrightarrow> (\<exists>cv \<in> set (shortfallsByCoin d). snd cv \<noteq> 0)"
proof
  assume "shortfallsByCoin d \<noteq> []"
  then obtain cv where cv: "cv \<in> set (shortfallsByCoin d)" by (cases "shortfallsByCoin d") auto
  with assms have "0 < snd cv" unfolding positiveShortfalls_def list_all_iff by simp
  with cv show "\<exists>cv \<in> set (shortfallsByCoin d). snd cv \<noteq> 0" by (intro bexI[of _ cv]) simp_all
next
  assume "\<exists>cv \<in> set (shortfallsByCoin d). snd cv \<noteq> 0"
  then show "shortfallsByCoin d \<noteq> []" by auto
qed

text \<open>The records after the propagation pass, along any processing order.\<close>

lemma propagated_records:
  assumes fp: "firstPass entities pm = Inr st"
    and st': "st' = propagateAlong order st entities pm"
  shows "distinct (map entityId (map snd st'))"
    and "\<And>y. y \<in> set st' \<Longrightarrow> positiveShortfalls (snd y)"
    and "\<And>y. y \<in> set st' \<Longrightarrow> 0 < shortfallUsd (snd y) \<Longrightarrow> shortfallsByCoin (snd y) \<noteq> []"
    and "\<And>y. y \<in> set st' \<Longrightarrow> entityId (snd y) = fst y"
proof -
  have ev: "evolves st st'" unfolding st' by (rule evolves_propagateAlong)
  have pos: "allPositive st'" unfolding st'
    by (rule allPositive_propagateAlong[OF firstPass_allPositive[OF fp]])
  show id: "entityId (snd y) = fst y" if y: "y \<in> set st'" for y
  proof -
    from evolves_backward[OF ev y] obtain x
      where x: "x \<in> set st" "fst y = fst x" "keeps (snd x) (snd y)" by blast
    from x(3) have "entityId (snd y) = entityId (snd x)" by (simp add: keeps_def)
    with firstPass_direct(1)[OF fp x(1)] x(2) show ?thesis by simp
  qed
  show "positiveShortfalls (snd y)" if y: "y \<in> set st'" for y
    using pos y unfolding allPositive_def list_all_iff by simp
  show "shortfallsByCoin (snd y) \<noteq> []" if y: "y \<in> set st'" and u: "0 < shortfallUsd (snd y)" for y
  proof -
    from evolves_backward[OF ev y] obtain x
      where x: "x \<in> set st" "fst y = fst x" "keeps (snd x) (snd y)" by blast
    from x(3) u have "0 < shortfallUsd (snd x)" by (simp add: keeps_def)
    from firstPass_direct(2)[OF fp x(1) this] x(3) show ?thesis by (simp add: keeps_def)
  qed
  have "map entityId (map snd st') = map fst st'"
    using id by (simp add: map_eq_conv)
  also have "\<dots> = map fst st" by (rule evolves_fst[OF ev])
  finally show "distinct (map entityId (map snd st'))"
    using firstPass_records(1)[OF fp] by simp
qed

lemma isInsolvent_iff:
  assumes "positiveShortfalls d" "0 < shortfallUsd d \<Longrightarrow> shortfallsByCoin d \<noteq> []"
  shows "isInsolvent d \<longleftrightarrow>
     ((\<exists>cv \<in> set (shortfallsByCoin d). snd cv \<noteq> 0) \<or>
      (totalLiabilities d \<noteq> [] \<and> shortfallsReceived d \<noteq> []))"
  using assms(2) unfolding positive_nonempty_iff[OF assms(1), symmetric] isInsolvent_def Let_def
  by blast

text \<open>
  C3. In the result of a run, a record is listed in \<^verbatim>\<open>insolventEntities\<close> exactly when
  its per-type shortfall map has a nonzero entry, or it has liabilities and received a
  shortfall. An entity with no outbound obligation is never listed (the entity map has one
  entity per id).
\<close>

theorem insolvency_classification:
  assumes "checkEntitySolvency entities pm = Inr r"
  shows "(\<forall>d \<in> set (details r).
            entityId d \<in> set (insolventEntities r) \<longleftrightarrow>
              ((\<exists>cv \<in> set (shortfallsByCoin d). snd cv \<noteq> 0) \<or>
               (totalLiabilities d \<noteq> [] \<and> shortfallsReceived d \<noteq> []))) \<and>
         (distinct (map entity_id entities) \<longrightarrow>
            (\<forall>e \<in> set entities. obligations e = [] \<longrightarrow> entity_id e \<notin> set (insolventEntities r)))"
proof -
  from assms obtain st where fp: "firstPass entities pm = Inr st"
    and r: "r = finalResult (propagateAlong (topologicalSort (buildGraph entities)) st entities pm)"
    by (rule checkEntitySolvency_Inr)
  define st' where "st' = propagateAlong (topologicalSort (buildGraph entities)) st entities pm"
  note P = propagated_records[OF fp st'_def]
  have det: "details r = map snd st'" by (simp add: r finalResult_def Let_def st'_def)
  have ins: "insolventEntities r = map entityId (filter isInsolvent (map snd st'))"
    by (simp add: r finalResult_def Let_def st'_def)
  have member: "entityId d \<in> set (insolventEntities r) \<longleftrightarrow> isInsolvent d"
    if "d \<in> set (map snd st')" for d
    unfolding ins by (rule distinct_filter_member[OF P(1) that])
  have part1: "\<forall>d \<in> set (details r).
            entityId d \<in> set (insolventEntities r) \<longleftrightarrow>
              ((\<exists>cv \<in> set (shortfallsByCoin d). snd cv \<noteq> 0) \<or>
               (totalLiabilities d \<noteq> [] \<and> shortfallsReceived d \<noteq> []))"
  proof
    fix d assume "d \<in> set (details r)"
    then have d: "d \<in> set (map snd st')" by (simp add: det)
    then obtain y where y: "y \<in> set st'" "d = snd y" by auto
    have "isInsolvent d \<longleftrightarrow>
       ((\<exists>cv \<in> set (shortfallsByCoin d). snd cv \<noteq> 0) \<or>
        (totalLiabilities d \<noteq> [] \<and> shortfallsReceived d \<noteq> []))"
      unfolding y(2) by (rule isInsolvent_iff[OF P(2)[OF y(1)] P(3)[OF y(1)]])
    with member[OF d] show "entityId d \<in> set (insolventEntities r) \<longleftrightarrow>
       ((\<exists>cv \<in> set (shortfallsByCoin d). snd cv \<noteq> 0) \<or>
        (totalLiabilities d \<noteq> [] \<and> shortfallsReceived d \<noteq> []))" by simp
  qed
  have part2: "entity_id e \<notin> set (insolventEntities r)"
    if dist: "distinct (map entity_id entities)" and e: "e \<in> set entities" and no: "obligations e = []"
    for e
  proof -
    from firstPass_no_obligations[OF fp dist e no] obtain x where x: "x \<in> set st"
      "fst x = entity_id e" "totalLiabilities (snd x) = []" "shortfallsByCoin (snd x) = []"
      "shortfallUsd (snd x) = 0" by blast
    have ev: "evolves st st'" unfolding st'_def by (rule evolves_propagateAlong)
    from evolves_forward[OF ev x(1)] obtain y where y: "y \<in> set st'" "fst y = fst x"
      "keeps (snd x) (snd y)" by blast
    from y(3) x(3,4,5) have "totalLiabilities (snd y) = []" "shortfallsByCoin (snd y) = []"
      "shortfallUsd (snd y) = 0" by (simp_all add: keeps_def)
    then have "\<not> isInsolvent (snd y)" by (simp add: isInsolvent_def)
    moreover have "snd y \<in> set (map snd st')" using y(1) by simp
    moreover have "entityId (snd y) = entity_id e" using P(4)[OF y(1)] y(2) x(2) by simp
    ultimately show ?thesis using member[of "snd y"] by simp
  qed
  from part1 part2 show ?thesis by blast
qed

theorem insolvency_classification_witness:
  "chainVault \<in> set chain \<and> obligations chainVault = [] \<and>
   ''vault'' \<notin> set (insolventEntities (projr (checkEntitySolvency chain usdcPrices))) \<and>
   insolventEntities (projr (checkEntitySolvency chain usdcPrices)) = [''position'', ''pool'', ''strategy'']"
proof -
  have 0: "isl (checkEntitySolvency chain usdcPrices) = False" by code_simp
  then have 1: "checkEntitySolvency chain usdcPrices = Inr (projr (checkEntitySolvency chain usdcPrices))"
    by (cases "checkEntitySolvency chain usdcPrices") simp_all
  have 2: "distinct (map entity_id chain)" by code_simp
  have 3: "chainVault \<in> set chain" by (simp add: chain_def)
  have 4: "obligations chainVault = []" by (simp add: chainVault_def)
  have 5: "entity_id chainVault = ''vault''" by (simp add: chainVault_def)
  have 6: "insolventEntities (projr (checkEntitySolvency chain usdcPrices)) = [''position'', ''pool'', ''strategy'']"
    by code_simp
  from insolvency_classification[OF 1] 2 3 4 5 6 show ?thesis by auto
qed

subsection \<open>Pro-rata distribution\<close>

lemma map_of_modifyData:
  "map_of (modifyData k f st) j = map_option (if j = k then f else id) (map_of st j)"
proof (cases "map_of st k")
  case None
  then show ?thesis by (cases "j = k") (simp_all add: modifyData_def option.map_id)
next
  case (Some d)
  then show ?thesis
    by (cases "j = k") (simp_all add: modifyData_def update_conv' option.map_id)
qed

text \<open>The three mutations of one creditor's share, as one function of the record at a key.\<close>

lemma map_of_distributeToCreditor:
  "map_of (distributeToCreditor eid c a u S st cr) j =
     (if 0 < getNum (snd cr) c \<and> map_of st (fst cr) \<noteq> None then
        map_option
          (\<lambda>d. (if j = fst cr
                 then (\<lambda>d. if totalLiabilities d \<noteq> []
                          then d\<lparr>shortfallsByCoin := AList.update c
                                   (getNum (shortfallsByCoin d) c + a * (getNum (snd cr) c / S))
                                   (shortfallsByCoin d)\<rparr>
                          else d)
                 else id)
                ((if j = eid
                  then (\<lambda>d. d\<lparr>shortfallsCaused := addShortfall (shortfallsCaused d) (fst cr) c
                                  (a * (getNum (snd cr) c / S)) (u * (getNum (snd cr) c / S)) eid\<rparr>)
                  else id)
                 ((if j = fst cr
                   then (\<lambda>d. d\<lparr>shortfallsReceived := addShortfall (shortfallsReceived d) eid c
                                  (a * (getNum (snd cr) c / S)) (u * (getNum (snd cr) c / S)) eid\<rparr>)
                   else id) d)))
          (map_of st j)
      else map_of st j)"
proof (cases "0 < getNum (snd cr) c \<and> map_of st (fst cr) \<noteq> None")
  case False
  then show ?thesis by (auto simp: distributeToCreditor_def Let_def)
next
  case True
  then obtain cd where cd: "map_of st (fst cr) = Some cd" by auto
  show ?thesis
    using True cd
    by (simp add: distributeToCreditor_def Let_def map_of_modifyData option.map_comp comp_def)
qed

lemma dom_distributeToCreditor:
  "map_of (distributeToCreditor eid c a u S st cr) j = None \<longleftrightarrow> map_of st j = None"
  by (simp add: map_of_distributeToCreditor)

lemma foldl_dom:
  assumes "\<And>s x j. map_of (f s x) j = None \<longleftrightarrow> map_of s j = None"
  shows "map_of (foldl f st xs) j = None \<longleftrightarrow> map_of st j = None"
  by (induction xs arbitrary: st) (simp_all add: assms)

lemma recipients_distributeToCreditor:
  "recipients (distributeToCreditor eid c a u S st cr) c' obc = recipients st c' obc"
  by (simp add: recipients_def dom_distributeToCreditor)

text \<open>Adding a share to a list of entries adds its amount and its USD value once.\<close>

lemma detailSum_addDetail_amount:
  "detailSum sd_amount c (addDetail ds c' x xu src) = detailSum sd_amount c ds + (if c = c' then x else 0)"
  by (induction ds) (auto simp: detailSum_def)

lemma detailSum_addDetail_usd:
  "detailSum sd_usdValue c (addDetail ds c' x xu src) = detailSum sd_usdValue c ds + (if c = c' then xu else 0)"
  by (induction ds) (auto simp: detailSum_def)

lemma recordedAll_addShortfall_amount:
  "recordedAll sd_amount c (addShortfall ss k c' x xu src) =
     recordedAll sd_amount c ss + (if c = c' then x else 0)"
proof (induction ss)
  case Nil
  show ?case by (simp add: recordedAll_def detailSum_def)
next
  case (Cons s ss)
  show ?case
  proof (cases "owesTo s = k")
    case True
    then show ?thesis by (simp add: recordedAll_def detailSum_addDetail_amount)
  next
    case False
    with Cons.IH show ?thesis by (simp add: recordedAll_def)
  qed
qed

lemma recordedAll_addShortfall_usd:
  "recordedAll sd_usdValue c (addShortfall ss k c' x xu src) =
     recordedAll sd_usdValue c ss + (if c = c' then xu else 0)"
proof (induction ss)
  case Nil
  show ?case by (simp add: recordedAll_def detailSum_def)
next
  case (Cons s ss)
  show ?case
  proof (cases "owesTo s = k")
    case True
    then show ?thesis by (simp add: recordedAll_def detailSum_addDetail_usd)
  next
    case False
    with Cons.IH show ?thesis by (simp add: recordedAll_def)
  qed
qed

lemma filter_addShortfall:
  "filter (\<lambda>s. owesTo s = j) (addShortfall ss k c x xu src) =
     (if j = k then addShortfall (filter (\<lambda>s. owesTo s = j) ss) k c x xu src
      else filter (\<lambda>s. owesTo s = j) ss)"
  by (induction ss) auto

lemma recorded_addShortfall_amount:
  "recorded sd_amount j c (addShortfall ss k c' x xu src) =
     recorded sd_amount j c ss + (if j = k \<and> c = c' then x else 0)"
  by (simp add: recorded_def filter_addShortfall recordedAll_addShortfall_amount)

lemma recorded_addShortfall_usd:
  "recorded sd_usdValue j c (addShortfall ss k c' x xu src) =
     recorded sd_usdValue j c ss + (if j = k \<and> c = c' then xu else 0)"
  by (simp add: recorded_def filter_addShortfall recordedAll_addShortfall_usd)

lemma fold_accumulate:
  fixes \<mu> :: "EntitySolvencyData \<Rightarrow> rat"
  assumes step: "\<And>st cr d. map_of st j = Some d \<Longrightarrow>
      \<exists>d'. map_of (f st cr) j = Some d' \<and> \<mu> d' = \<mu> d + (if act st cr then w cr else 0)"
    and inv: "\<And>st cr cr'. act (f st cr) cr' = act st cr'"
    and start: "map_of st j = Some d"
  shows "\<exists>d'. map_of (foldl f st crs) j = Some d' \<and>
           \<mu> d' = \<mu> d + sum_list (map w (filter (act st) crs))"
  using start
proof (induction crs arbitrary: st d)
  case Nil
  then show ?case by simp
next
  case (Cons cr crs)
  from step[OF Cons.prems, of cr] obtain d1 where d1: "map_of (f st cr) j = Some d1"
    and m1: "\<mu> d1 = \<mu> d + (if act st cr then w cr else 0)" by blast
  from Cons.IH[OF d1] obtain d' where d': "map_of (foldl f (f st cr) crs) j = Some d'"
    and m': "\<mu> d' = \<mu> d1 + sum_list (map w (filter (act (f st cr)) crs))" by blast
  have "filter (act (f st cr)) crs = filter (act st) crs"
    by (rule filter_cong) (simp_all add: inv)
  with m1 m' have "\<mu> d' = \<mu> d + sum_list (map w (filter (act st) (cr # crs)))" by simp
  with d' show ?case by simp
qed

lemma distributed_record:
  assumes "map_of st j = Some d" "0 < getNum (snd cr) c \<and> map_of st (fst cr) \<noteq> None"
  obtains d' where "map_of (distributeToCreditor eid c a u S st cr) j = Some d'"
    "shortfallsCaused d' =
       (if j = eid then addShortfall (shortfallsCaused d) (fst cr) c
               (a * (getNum (snd cr) c / S)) (u * (getNum (snd cr) c / S)) eid
        else shortfallsCaused d)"
    "shortfallsReceived d' =
       (if j = fst cr then addShortfall (shortfallsReceived d) eid c
               (a * (getNum (snd cr) c / S)) (u * (getNum (snd cr) c / S)) eid
        else shortfallsReceived d)"
proof -
  let ?f1 = "\<lambda>d. d\<lparr>shortfallsReceived := addShortfall (shortfallsReceived d) eid c
                                  (a * (getNum (snd cr) c / S)) (u * (getNum (snd cr) c / S)) eid\<rparr>"
  let ?f2 = "\<lambda>d. d\<lparr>shortfallsCaused := addShortfall (shortfallsCaused d) (fst cr) c
                                  (a * (getNum (snd cr) c / S)) (u * (getNum (snd cr) c / S)) eid\<rparr>"
  let ?f3 = "\<lambda>d. if totalLiabilities d \<noteq> []
                          then d\<lparr>shortfallsByCoin := AList.update c
                                   (getNum (shortfallsByCoin d) c + a * (getNum (snd cr) c / S))
                                   (shortfallsByCoin d)\<rparr>
                          else d"
  let ?d' = "(if j = fst cr then ?f3 else id) ((if j = eid then ?f2 else id)
               ((if j = fst cr then ?f1 else id) d))"
  have 1: "map_of (distributeToCreditor eid c a u S st cr) j = Some ?d'"
    unfolding map_of_distributeToCreditor using assms by simp
  have 2: "shortfallsCaused ?d' =
       (if j = eid then addShortfall (shortfallsCaused d) (fst cr) c
               (a * (getNum (snd cr) c / S)) (u * (getNum (snd cr) c / S)) eid
        else shortfallsCaused d)"
    by (cases "j = fst cr"; cases "j = eid"; simp)
  have 3: "shortfallsReceived ?d' =
       (if j = fst cr then addShortfall (shortfallsReceived d) eid c
               (a * (getNum (snd cr) c / S)) (u * (getNum (snd cr) c / S)) eid
        else shortfallsReceived d)"
    by (cases "j = fst cr"; cases "j = eid"; simp)
  from 1 2 3 show ?thesis by (rule that)
qed

lemma idle_record:
  assumes "\<not> (0 < getNum (snd cr) c \<and> map_of st (fst cr) \<noteq> None)"
  shows "distributeToCreditor eid c a u S st cr = st"
  using assms by (auto simp: distributeToCreditor_def Let_def)

lemma caused_step:
  assumes "map_of st eid = Some d"
  shows "\<exists>d'. map_of (distributeToCreditor eid c a u S st cr) eid = Some d' \<and>
     shortfallsCaused d' =
       (if 0 < getNum (snd cr) c \<and> map_of st (fst cr) \<noteq> None
        then addShortfall (shortfallsCaused d) (fst cr) c
               (a * (getNum (snd cr) c / S)) (u * (getNum (snd cr) c / S)) eid
        else shortfallsCaused d)"
proof (cases "0 < getNum (snd cr) c \<and> map_of st (fst cr) \<noteq> None")
  case True
  from distributed_record[OF assms True, of eid a u S] obtain d' where
    "map_of (distributeToCreditor eid c a u S st cr) eid = Some d'"
    "shortfallsCaused d' = addShortfall (shortfallsCaused d) (fst cr) c
               (a * (getNum (snd cr) c / S)) (u * (getNum (snd cr) c / S)) eid"
    by (metis (no_types, lifting))
  with True show ?thesis by simp
next
  case False
  then show ?thesis using assms by (auto simp: idle_record)
qed

lemma received_step:
  assumes "map_of st j = Some d"
  shows "\<exists>d'. map_of (distributeToCreditor eid c a u S st cr) j = Some d' \<and>
     shortfallsReceived d' =
       (if (0 < getNum (snd cr) c \<and> map_of st (fst cr) \<noteq> None) \<and> fst cr = j
        then addShortfall (shortfallsReceived d) eid c
               (a * (getNum (snd cr) c / S)) (u * (getNum (snd cr) c / S)) eid
        else shortfallsReceived d)"
proof (cases "0 < getNum (snd cr) c \<and> map_of st (fst cr) \<noteq> None")
  case True
  from distributed_record[OF assms True, of eid a u S] obtain d' where
    "map_of (distributeToCreditor eid c a u S st cr) j = Some d'"
    "shortfallsReceived d' =
       (if j = fst cr then addShortfall (shortfallsReceived d) eid c
               (a * (getNum (snd cr) c / S)) (u * (getNum (snd cr) c / S)) eid
        else shortfallsReceived d)"
    by (metis (no_types, lifting))
  with True show ?thesis by auto
next
  case False
  then show ?thesis using assms by (auto simp: idle_record)
qed

lemma caused_total_fold:
  assumes "map_of st eid = Some d"
  shows "\<exists>d'. map_of (foldl (distributeToCreditor eid c a u S) st obc) eid = Some d' \<and>
     recordedAll sd_amount c (shortfallsCaused d') =
       recordedAll sd_amount c (shortfallsCaused d) +
         sum_list (map (\<lambda>cr. a * (getNum (snd cr) c / S))
           (filter (\<lambda>cr. 0 < getNum (snd cr) c \<and> map_of st (fst cr) \<noteq> None) obc))"
proof (rule fold_accumulate[where \<mu> = "\<lambda>d. recordedAll sd_amount c (shortfallsCaused d)"
      and act = "\<lambda>st cr. 0 < getNum (snd cr) c \<and> map_of st (fst cr) \<noteq> None", OF _ _ assms])
  fix st :: entityData and cr :: "string \<times> (string \<times> number) list" and d
  assume m: "map_of st eid = Some d"
  from caused_step[where c=c and a=a and u=u and S=S and cr=cr, OF m] obtain d' where
    1: "map_of (distributeToCreditor eid c a u S st cr) eid = Some d'" and
    2: "shortfallsCaused d' =
       (if 0 < getNum (snd cr) c \<and> map_of st (fst cr) \<noteq> None
        then addShortfall (shortfallsCaused d) (fst cr) c
               (a * (getNum (snd cr) c / S)) (u * (getNum (snd cr) c / S)) eid
        else shortfallsCaused d)" by blast
  have "recordedAll sd_amount c (shortfallsCaused d') = recordedAll sd_amount c (shortfallsCaused d) +
       (if 0 < getNum (snd cr) c \<and> map_of st (fst cr) \<noteq> None then a * (getNum (snd cr) c / S) else 0)"
    unfolding 2 by (auto simp: recordedAll_addShortfall_amount)
  with 1 show "\<exists>d'. map_of (distributeToCreditor eid c a u S st cr) eid = Some d' \<and>
     recordedAll sd_amount c (shortfallsCaused d') = recordedAll sd_amount c (shortfallsCaused d) +
       (if 0 < getNum (snd cr) c \<and> map_of st (fst cr) \<noteq> None then a * (getNum (snd cr) c / S) else 0)"
    by blast
next
  fix st :: entityData and cr cr' :: "string \<times> (string \<times> number) list"
  show "(0 < getNum (snd cr') c \<and> map_of (distributeToCreditor eid c a u S st cr) (fst cr') \<noteq> None) =
        (0 < getNum (snd cr') c \<and> map_of st (fst cr') \<noteq> None)"
    by (simp add: dom_distributeToCreditor)
qed

lemma caused_fold:
  fixes q :: "EntityShortfall list \<Rightarrow> rat"
  assumes start: "map_of st eid = Some d"
    and add: "\<And>ss k x xu. q (addShortfall ss k c x xu eid) = q ss + (if P k then sel x xu else 0)"
  shows "\<exists>d'. map_of (foldl (distributeToCreditor eid c a u S) st obc) eid = Some d' \<and>
     q (shortfallsCaused d') =
       q (shortfallsCaused d) +
         sum_list (map (\<lambda>cr. sel (a * (getNum (snd cr) c / S)) (u * (getNum (snd cr) c / S)))
           (filter (\<lambda>cr. (0 < getNum (snd cr) c \<and> map_of st (fst cr) \<noteq> None) \<and> P (fst cr)) obc))"
proof (rule fold_accumulate[where \<mu> = "\<lambda>d. q (shortfallsCaused d)"
      and act = "\<lambda>st cr. (0 < getNum (snd cr) c \<and> map_of st (fst cr) \<noteq> None) \<and> P (fst cr)", OF _ _ start])
  fix st :: entityData and cr :: "string \<times> (string \<times> number) list" and d
  assume m: "map_of st eid = Some d"
  from caused_step[where c=c and a=a and u=u and S=S and cr=cr, OF m] obtain d' where
    1: "map_of (distributeToCreditor eid c a u S st cr) eid = Some d'" and
    2: "shortfallsCaused d' =
       (if 0 < getNum (snd cr) c \<and> map_of st (fst cr) \<noteq> None
        then addShortfall (shortfallsCaused d) (fst cr) c
               (a * (getNum (snd cr) c / S)) (u * (getNum (snd cr) c / S)) eid
        else shortfallsCaused d)" by blast
  have "q (shortfallsCaused d') = q (shortfallsCaused d) +
       (if (0 < getNum (snd cr) c \<and> map_of st (fst cr) \<noteq> None) \<and> P (fst cr)
        then sel (a * (getNum (snd cr) c / S)) (u * (getNum (snd cr) c / S)) else 0)"
    unfolding 2 by (auto simp: add)
  with 1 show "\<exists>d'. map_of (distributeToCreditor eid c a u S st cr) eid = Some d' \<and>
     q (shortfallsCaused d') = q (shortfallsCaused d) +
       (if (0 < getNum (snd cr) c \<and> map_of st (fst cr) \<noteq> None) \<and> P (fst cr)
        then sel (a * (getNum (snd cr) c / S)) (u * (getNum (snd cr) c / S)) else 0)"
    by blast
next
  fix st :: entityData and cr cr' :: "string \<times> (string \<times> number) list"
  show "((0 < getNum (snd cr') c \<and> map_of (distributeToCreditor eid c a u S st cr) (fst cr') \<noteq> None) \<and> P (fst cr')) =
        ((0 < getNum (snd cr') c \<and> map_of st (fst cr') \<noteq> None) \<and> P (fst cr'))"
    by (simp add: dom_distributeToCreditor)
qed

lemma received_fold:
  fixes q :: "EntityShortfall list \<Rightarrow> rat"
  assumes start: "map_of st j = Some d"
    and add: "\<And>ss x xu. q (addShortfall ss eid c x xu eid) = q ss + sel x xu"
  shows "\<exists>d'. map_of (foldl (distributeToCreditor eid c a u S) st obc) j = Some d' \<and>
     q (shortfallsReceived d') =
       q (shortfallsReceived d) +
         sum_list (map (\<lambda>cr. sel (a * (getNum (snd cr) c / S)) (u * (getNum (snd cr) c / S)))
           (filter (\<lambda>cr. (0 < getNum (snd cr) c \<and> map_of st (fst cr) \<noteq> None) \<and> fst cr = j) obc))"
proof (rule fold_accumulate[where \<mu> = "\<lambda>d. q (shortfallsReceived d)"
      and act = "\<lambda>st cr. (0 < getNum (snd cr) c \<and> map_of st (fst cr) \<noteq> None) \<and> fst cr = j", OF _ _ start])
  fix st :: entityData and cr :: "string \<times> (string \<times> number) list" and d
  assume m: "map_of st j = Some d"
  from received_step[where c=c and a=a and u=u and S=S and cr=cr and eid=eid, OF m] obtain d' where
    1: "map_of (distributeToCreditor eid c a u S st cr) j = Some d'" and
    2: "shortfallsReceived d' =
       (if (0 < getNum (snd cr) c \<and> map_of st (fst cr) \<noteq> None) \<and> fst cr = j
        then addShortfall (shortfallsReceived d) eid c
               (a * (getNum (snd cr) c / S)) (u * (getNum (snd cr) c / S)) eid
        else shortfallsReceived d)" by blast
  have "q (shortfallsReceived d') = q (shortfallsReceived d) +
       (if (0 < getNum (snd cr) c \<and> map_of st (fst cr) \<noteq> None) \<and> fst cr = j
        then sel (a * (getNum (snd cr) c / S)) (u * (getNum (snd cr) c / S)) else 0)"
    unfolding 2 by (auto simp: add)
  with 1 show "\<exists>d'. map_of (distributeToCreditor eid c a u S st cr) j = Some d' \<and>
     q (shortfallsReceived d') = q (shortfallsReceived d) +
       (if (0 < getNum (snd cr) c \<and> map_of st (fst cr) \<noteq> None) \<and> fst cr = j
        then sel (a * (getNum (snd cr) c / S)) (u * (getNum (snd cr) c / S)) else 0)"
    by blast
next
  fix st :: entityData and cr cr' :: "string \<times> (string \<times> number) list"
  show "((0 < getNum (snd cr') c \<and> map_of (distributeToCreditor eid c a u S st cr) (fst cr') \<noteq> None) \<and> fst cr' = j) =
        ((0 < getNum (snd cr') c \<and> map_of st (fst cr') \<noteq> None) \<and> fst cr' = j)"
    by (simp add: dom_distributeToCreditor)
qed

lemma distributeCoin_priced:
  "pm c = Some price \<Longrightarrow> 0 < totalObligationsForCoin obc c \<Longrightarrow>
   distributeCoin eid obc pm st (c, a) =
     foldl (distributeToCreditor eid c a (a * price) (totalObligationsForCoin obc c)) st obc"
  by (simp add: distributeCoin_def Let_def)

lemma filter_key_distinct:
  "distinct (map fst xs) \<Longrightarrow> (k, m) \<in> set xs \<Longrightarrow> P (k, m) \<Longrightarrow>
   filter (\<lambda>cr. P cr \<and> fst cr = k) xs = [(k, m)]"
proof (induction xs)
  case Nil
  then show ?case by simp
next
  case (Cons y ys)
  show ?case
  proof (cases "y = (k, m)")
    case True
    from Cons.prems(1) True have "\<forall>z \<in> set ys. fst z \<noteq> k" by force
    then have "filter (\<lambda>cr. P cr \<and> fst cr = k) ys = []" by (simp add: filter_empty_conv)
    with True Cons.prems(3) show ?thesis by simp
  next
    case False
    with Cons.prems(2) have in_ys: "(k, m) \<in> set ys" by simp
    then have "k \<in> fst ` set ys" by force
    with Cons.prems(1) have "fst y \<noteq> k" by auto
    with Cons.IH[OF _ in_ys Cons.prems(3)] Cons.prems(1) show ?thesis by simp
  qed
qed

lemma totalObligationsForCoin_sum:
  "totalObligationsForCoin obc c = sum_list (map (\<lambda>cr. getNum (snd cr) c) obc)"
proof -
  have "foldl (\<lambda>sum creditorObs. sum + getNum creditorObs c) z xs = z + sum_list (map (\<lambda>m. getNum m c) xs)"
    for z :: rat and xs
    by (induction xs arbitrary: z) (simp_all add: add.assoc)
  then show ?thesis by (simp add: totalObligationsForCoin_def comp_def)
qed

lemma sum_positive_part:
  fixes g :: "'a \<Rightarrow> rat"
  assumes "\<forall>x \<in> set xs. 0 \<le> g x" "\<forall>x \<in> set xs. 0 < g x \<longrightarrow> P x"
  shows "sum_list (map g (filter (\<lambda>x. 0 < g x \<and> P x) xs)) = sum_list (map g xs)"
  using assms
proof (induction xs)
  case Nil
  then show ?case by simp
next
  case (Cons x xs)
  then have ih: "sum_list (map g (filter (\<lambda>x. 0 < g x \<and> P x) xs)) = sum_list (map g xs)" by simp
  show ?case
  proof (cases "0 < g x")
    case True
    with Cons.prems(2) ih show ?thesis by simp
  next
    case False
    with Cons.prems(1) have "g x = 0" by force
    with False ih show ?thesis by simp
  qed
qed

lemma sum_filter_le:
  fixes g :: "'a \<Rightarrow> rat"
  assumes "\<forall>x \<in> set xs. 0 \<le> g x"
  shows "sum_list (map g (filter P xs)) \<le> sum_list (map g xs)"
  using assms
proof (induction xs)
  case Nil
  then show ?case by simp
next
  case (Cons x xs)
  then have "sum_list (map g (filter P xs)) \<le> sum_list (map g xs)" "0 \<le> g x" by simp_all
  then show ?case by simp
qed

lemma sum_filter_excluding:
  fixes g :: "'a \<Rightarrow> rat"
  assumes "\<forall>x \<in> set xs. 0 \<le> g x" "e \<in> set xs" "\<not> P e"
  shows "sum_list (map g (filter P xs)) + g e \<le> sum_list (map g xs)"
  using assms
proof (induction xs)
  case Nil
  then show ?case by simp
next
  case (Cons x xs)
  have nn: "\<forall>x \<in> set xs. 0 \<le> g x" and gx: "0 \<le> g x" using Cons.prems(1) by simp_all
  show ?case
  proof (cases "e = x")
    case True
    with Cons.prems(3) sum_filter_le[OF nn, of P] show ?thesis by simp
  next
    case False
    with Cons.prems(2) have "e \<in> set xs" by simp
    from Cons.IH[OF nn this Cons.prems(3)] gx show ?thesis by simp
  qed
qed

lemma sum_list_scaled:
  fixes g :: "'a \<Rightarrow> rat"
  shows "sum_list (map (\<lambda>x. a * (g x / S)) xs) = a * (sum_list (map g xs) / S)"
  by (induction xs) (simp_all add: add_divide_distrib distrib_left)

text \<open>
  C5 (as amended). Distribution of a shortfall \<open>a\<close> of asset type \<open>c\<close> by a processed entity,
  with a price for \<open>c\<close> and a positive total \<open>S\<close> of obligations in \<open>c\<close>: every creditor that
  is owed a positive amount \<open>s\<close> of \<open>c\<close> and has a record gets exactly \<open>a * s / S\<close> recorded,
  in amount and (times the price) in USD, as received on its side and as caused on the
  entity's side. When all creditors owed a positive amount have a record (and no amount is
  negative), the recorded shares add up to \<open>a\<close>.
\<close>

theorem pro_rata_allocation:
  assumes "pm c = Some price"
    and "0 < totalObligationsForCoin obc c"
    and "distinct (map fst obc)"
    and "map_of st eid = Some d"
    and "(k, m) \<in> set obc" and "0 < getNum m c" and "map_of st k = Some dk"
  shows "\<exists>d' dk'.
     map_of (distributeCoin eid obc pm st (c, a)) eid = Some d' \<and>
     map_of (distributeCoin eid obc pm st (c, a)) k = Some dk' \<and>
     recorded sd_amount eid c (shortfallsReceived dk') =
       recorded sd_amount eid c (shortfallsReceived dk) + a * (getNum m c / totalObligationsForCoin obc c) \<and>
     recorded sd_usdValue eid c (shortfallsReceived dk') =
       recorded sd_usdValue eid c (shortfallsReceived dk) +
         a * price * (getNum m c / totalObligationsForCoin obc c) \<and>
     recorded sd_amount k c (shortfallsCaused d') =
       recorded sd_amount k c (shortfallsCaused d) + a * (getNum m c / totalObligationsForCoin obc c) \<and>
     recorded sd_usdValue k c (shortfallsCaused d') =
       recorded sd_usdValue k c (shortfallsCaused d) +
         a * price * (getNum m c / totalObligationsForCoin obc c) \<and>
     ((\<forall>cr \<in> set obc. 0 \<le> getNum (snd cr) c \<and> (0 < getNum (snd cr) c \<longrightarrow> map_of st (fst cr) \<noteq> None)) \<longrightarrow>
        recordedAll sd_amount c (shortfallsCaused d') = recordedAll sd_amount c (shortfallsCaused d) + a \<and>
        recordedAll sd_usdValue c (shortfallsCaused d') =
          recordedAll sd_usdValue c (shortfallsCaused d) + a * price)"
proof -
  let ?S = "totalObligationsForCoin obc c"
  let ?u = "a * price"
  let ?st' = "foldl (distributeToCreditor eid c a ?u ?S) st obc"
  let ?act = "\<lambda>cr. 0 < getNum (snd cr) c \<and> map_of st (fst cr) \<noteq> None"
  have eq: "distributeCoin eid obc pm st (c, a) = ?st'"
    using assms(1,2) by (rule distributeCoin_priced[where pm=pm and c=c])
  have act: "?act (k, m)" using assms(6,7) by simp
  have one: "filter (\<lambda>cr. ?act cr \<and> fst cr = k) obc = [(k, m)]"
    by (rule filter_key_distinct[where P = ?act, OF assms(3,5) act])
  have "\<exists>d'. map_of ?st' k = Some d' \<and>
     recorded sd_amount eid c (shortfallsReceived d') =
       recorded sd_amount eid c (shortfallsReceived dk) +
         sum_list (map (\<lambda>cr. a * (getNum (snd cr) c / ?S)) (filter (\<lambda>cr. ?act cr \<and> fst cr = k) obc))"
    by (rule received_fold[where q = "recorded sd_amount eid c" and sel = "\<lambda>x xu. x"
          and eid = eid and c = c, OF assms(7)])
       (simp add: recorded_addShortfall_amount)
  then obtain dk' where dk': "map_of ?st' k = Some dk'"
    and ra: "recorded sd_amount eid c (shortfallsReceived dk') =
       recorded sd_amount eid c (shortfallsReceived dk) + a * (getNum m c / ?S)"
    unfolding one by auto
  have "\<exists>d'. map_of ?st' k = Some d' \<and>
     recorded sd_usdValue eid c (shortfallsReceived d') =
       recorded sd_usdValue eid c (shortfallsReceived dk) +
         sum_list (map (\<lambda>cr. ?u * (getNum (snd cr) c / ?S)) (filter (\<lambda>cr. ?act cr \<and> fst cr = k) obc))"
    by (rule received_fold[where q = "recorded sd_usdValue eid c" and sel = "\<lambda>x xu. xu"
          and eid = eid and c = c, OF assms(7)])
       (simp add: recorded_addShortfall_usd)
  then obtain dk2 where dk2: "map_of ?st' k = Some dk2"
    and ru0: "recorded sd_usdValue eid c (shortfallsReceived dk2) =
       recorded sd_usdValue eid c (shortfallsReceived dk) + ?u * (getNum m c / ?S)"
    unfolding one by auto
  from dk' dk2 have "dk2 = dk'" by simp
  with ru0 have ru: "recorded sd_usdValue eid c (shortfallsReceived dk') =
       recorded sd_usdValue eid c (shortfallsReceived dk) + ?u * (getNum m c / ?S)" by simp
  have "\<exists>d'. map_of ?st' eid = Some d' \<and>
     recorded sd_amount k c (shortfallsCaused d') =
       recorded sd_amount k c (shortfallsCaused d) +
         sum_list (map (\<lambda>cr. a * (getNum (snd cr) c / ?S)) (filter (\<lambda>cr. ?act cr \<and> fst cr = k) obc))"
    by (rule caused_fold[where q = "recorded sd_amount k c" and sel = "\<lambda>x xu. x" and P = "\<lambda>k'. k' = k"
          and eid = eid and c = c, OF assms(4)])
       (simp add: recorded_addShortfall_amount eq_commute)
  then obtain d' where d': "map_of ?st' eid = Some d'"
    and ca: "recorded sd_amount k c (shortfallsCaused d') =
       recorded sd_amount k c (shortfallsCaused d) + a * (getNum m c / ?S)"
    unfolding one by auto
  have "\<exists>d'. map_of ?st' eid = Some d' \<and>
     recorded sd_usdValue k c (shortfallsCaused d') =
       recorded sd_usdValue k c (shortfallsCaused d) +
         sum_list (map (\<lambda>cr. ?u * (getNum (snd cr) c / ?S)) (filter (\<lambda>cr. ?act cr \<and> fst cr = k) obc))"
    by (rule caused_fold[where q = "recorded sd_usdValue k c" and sel = "\<lambda>x xu. xu" and P = "\<lambda>k'. k' = k"
          and eid = eid and c = c, OF assms(4)])
       (simp add: recorded_addShortfall_usd eq_commute)
  then obtain d2 where d2: "map_of ?st' eid = Some d2"
    and cu0: "recorded sd_usdValue k c (shortfallsCaused d2) =
       recorded sd_usdValue k c (shortfallsCaused d) + ?u * (getNum m c / ?S)"
    unfolding one by auto
  have "\<exists>d'. map_of ?st' eid = Some d' \<and>
     recordedAll sd_amount c (shortfallsCaused d') =
       recordedAll sd_amount c (shortfallsCaused d) +
         sum_list (map (\<lambda>cr. a * (getNum (snd cr) c / ?S)) (filter (\<lambda>cr. ?act cr \<and> True) obc))"
    by (rule caused_fold[where q = "recordedAll sd_amount c" and sel = "\<lambda>x xu. x" and P = "\<lambda>k'. True"
          and eid = eid and c = c, OF assms(4)])
       (simp add: recordedAll_addShortfall_amount)
  then obtain d3 where d3: "map_of ?st' eid = Some d3"
    and ta0: "recordedAll sd_amount c (shortfallsCaused d3) =
       recordedAll sd_amount c (shortfallsCaused d) +
         sum_list (map (\<lambda>cr. a * (getNum (snd cr) c / ?S)) (filter ?act obc))"
    by auto
  have "\<exists>d'. map_of ?st' eid = Some d' \<and>
     recordedAll sd_usdValue c (shortfallsCaused d') =
       recordedAll sd_usdValue c (shortfallsCaused d) +
         sum_list (map (\<lambda>cr. ?u * (getNum (snd cr) c / ?S)) (filter (\<lambda>cr. ?act cr \<and> True) obc))"
    by (rule caused_fold[where q = "recordedAll sd_usdValue c" and sel = "\<lambda>x xu. xu" and P = "\<lambda>k'. True"
          and eid = eid and c = c, OF assms(4)])
       (simp add: recordedAll_addShortfall_usd)
  then obtain d4 where d4: "map_of ?st' eid = Some d4"
    and tu0: "recordedAll sd_usdValue c (shortfallsCaused d4) =
       recordedAll sd_usdValue c (shortfallsCaused d) +
         sum_list (map (\<lambda>cr. ?u * (getNum (snd cr) c / ?S)) (filter ?act obc))"
    by auto
  from d' d2 d3 d4 have same: "d2 = d'" "d3 = d'" "d4 = d'" by simp_all
  note cu = cu0[unfolded same] and ta = ta0[unfolded same] and tu = tu0[unfolded same]
  have total: "recordedAll sd_amount c (shortfallsCaused d') = recordedAll sd_amount c (shortfallsCaused d) + a \<and>
        recordedAll sd_usdValue c (shortfallsCaused d') = recordedAll sd_usdValue c (shortfallsCaused d) + ?u"
    if all: "\<forall>cr \<in> set obc. 0 \<le> getNum (snd cr) c \<and> (0 < getNum (snd cr) c \<longrightarrow> map_of st (fst cr) \<noteq> None)"
  proof -
    have "sum_list (map (\<lambda>cr. getNum (snd cr) c) (filter ?act obc)) =
          sum_list (map (\<lambda>cr. getNum (snd cr) c) obc)"
      by (rule sum_positive_part[where g = "\<lambda>cr. getNum (snd cr) c"
            and P = "\<lambda>cr. map_of st (fst cr) \<noteq> None"]) (use all in auto)
    then have s: "sum_list (map (\<lambda>cr. getNum (snd cr) c) (filter ?act obc)) = ?S"
      by (simp add: totalObligationsForCoin_sum)
    have "sum_list (map (\<lambda>cr. a * (getNum (snd cr) c / ?S)) (filter ?act obc)) = a"
      unfolding sum_list_scaled s using assms(2) by simp
    moreover have "sum_list (map (\<lambda>cr. ?u * (getNum (snd cr) c / ?S)) (filter ?act obc)) = ?u"
      unfolding sum_list_scaled s using assms(2) by simp
    ultimately show ?thesis using ta tu by simp
  qed
  show ?thesis
    unfolding eq using d' dk' ra ru ca cu total by blast
qed

theorem pro_rata_allocation_witness:
  "recorded sd_amount ''entity3'' ''USDC''
     (shortfallsReceived (the (map_of
        (distributeCoin ''entity3'' (obligationsByCreditor (proRataEntities ! 2)) usdcPrices
           (projr (firstPass proRataEntities usdcPrices)) (''USDC'', 350)) ''entity1''))) = 525 / 2 \<and>
   recordedAll sd_amount ''USDC''
     (shortfallsCaused (the (map_of
        (distributeCoin ''entity3'' (obligationsByCreditor (proRataEntities ! 2)) usdcPrices
           (projr (firstPass proRataEntities usdcPrices)) (''USDC'', 350)) ''entity3''))) = 350"
proof -
  let ?obc = "obligationsByCreditor (proRataEntities ! 2)"
  let ?st = "projr (firstPass proRataEntities usdcPrices)"
  let ?d = "the (map_of ?st ''entity3'')"
  let ?dk = "the (map_of ?st ''entity1'')"
  have h1: "usdcPrices ''USDC'' = Some 1" by code_simp
  have h2: "0 < totalObligationsForCoin ?obc ''USDC''" by code_simp
  have h3: "distinct (map fst ?obc)" by code_simp
  have "map_of ?st ''entity3'' \<noteq> None" by code_simp
  then have h4: "map_of ?st ''entity3'' = Some ?d" by simp
  have h5: "(''entity1'', [(''USDC'', 300)]) \<in> set ?obc" by code_simp
  have h6: "0 < getNum [(''USDC'', 300)] ''USDC''" by code_simp
  have "map_of ?st ''entity1'' \<noteq> None" by code_simp
  then have h7: "map_of ?st ''entity1'' = Some ?dk" by simp
  have all: "\<forall>cr \<in> set ?obc. 0 \<le> getNum (snd cr) ''USDC'' \<and>
      (0 < getNum (snd cr) ''USDC'' \<longrightarrow> map_of ?st (fst cr) \<noteq> None)"
    by code_simp
  have v1: "recorded sd_amount ''entity3'' ''USDC'' (shortfallsReceived ?dk) = 0" by code_simp
  have v2: "recordedAll sd_amount ''USDC'' (shortfallsCaused ?d) = 0" by code_simp
  have v3: "getNum [(''USDC'', 300)] ''USDC'' / totalObligationsForCoin ?obc ''USDC'' = 3 / 4"
    by code_simp
  from pro_rata_allocation[where pm = usdcPrices and c = "''USDC''" and a = 350, OF h1 h2 h3 h4 h5 h6 h7]
    all v1 v2 v3
  show ?thesis by auto
qed

theorem absent_creditor_breaks_sum:
  "map_sum id
     (\<lambda>r. map (\<lambda>d. (entityId d, shortfallsByCoin d,
                       recordedAll sd_amount ''USDC'' (shortfallsCaused d),
                       recordedAll sd_amount ''USDC'' (shortfallsReceived d))) (details r))
     (checkEntitySolvency [splitDebtor, insideCreditor] usdcPrices) =
   Inr [(''debtor'', [(''USDC'', 400)], 100, 0), (''inside'', [], 0, 100)]"
  by code_simp

text \<open>
  C10. A creditor that is owed a positive amount of the asset type but has no record (its
  id is not in the entity map): its step changes nothing, so no received entry, no caused
  entry and no record for it exist afterwards. The denominator is the sum over all
  creditors, this one included, so with a positive shortfall and no negative amounts the
  recorded shares add up to strictly less than the shortfall.
\<close>

theorem absent_creditor_share_dropped:
  assumes "pm c = Some price"
    and "0 < totalObligationsForCoin obc c"
    and "map_of st eid = Some d"
    and "(x, mx) \<in> set obc" and "0 < getNum mx c" and "map_of st x = None"
    and "\<forall>cr \<in> set obc. 0 \<le> getNum (snd cr) c"
    and "0 < a"
  shows "distributeToCreditor eid c a (a * price) (totalObligationsForCoin obc c) st (x, mx) = st \<and>
     map_of (distributeCoin eid obc pm st (c, a)) x = None \<and>
     totalObligationsForCoin obc c = sum_list (map (\<lambda>cr. getNum (snd cr) c) obc) \<and>
     (\<exists>d'. map_of (distributeCoin eid obc pm st (c, a)) eid = Some d' \<and>
        recorded sd_amount x c (shortfallsCaused d') = recorded sd_amount x c (shortfallsCaused d) \<and>
        recordedAll sd_amount c (shortfallsCaused d') =
          recordedAll sd_amount c (shortfallsCaused d) +
            a * (sum_list (map (\<lambda>cr. getNum (snd cr) c) (recipients st c obc)) /
                 totalObligationsForCoin obc c) \<and>
        recordedAll sd_amount c (shortfallsCaused d') < recordedAll sd_amount c (shortfallsCaused d) + a)"
proof -
  let ?S = "totalObligationsForCoin obc c"
  let ?u = "a * price"
  let ?st' = "foldl (distributeToCreditor eid c a ?u ?S) st obc"
  let ?act = "\<lambda>cr. 0 < getNum (snd cr) c \<and> map_of st (fst cr) \<noteq> None"
  let ?g = "\<lambda>cr. getNum (snd cr) c"
  have eq: "distributeCoin eid obc pm st (c, a) = ?st'"
    using assms(1,2) by (rule distributeCoin_priced[where pm=pm and c=c])
  have 1: "distributeToCreditor eid c a ?u ?S st (x, mx) = st"
    by (rule idle_record) (simp add: assms(6))
  have 2: "map_of ?st' x = None"
    using assms(6) by (simp add: foldl_dom[where f = "distributeToCreditor eid c a ?u ?S"] dom_distributeToCreditor)
  have 3: "?S = sum_list (map ?g obc)" by (rule totalObligationsForCoin_sum)
  have none: "filter (\<lambda>cr. ?act cr \<and> fst cr = x) obc = []"
    using assms(6) by (auto simp add: filter_empty_conv)
  have "\<exists>d'. map_of ?st' eid = Some d' \<and>
     recorded sd_amount x c (shortfallsCaused d') =
       recorded sd_amount x c (shortfallsCaused d) +
         sum_list (map (\<lambda>cr. a * (getNum (snd cr) c / ?S)) (filter (\<lambda>cr. ?act cr \<and> fst cr = x) obc))"
    by (rule caused_fold[where q = "recorded sd_amount x c" and sel = "\<lambda>x xu. x" and P = "\<lambda>k'. k' = x"
          and eid = eid and c = c, OF assms(3)])
       (simp add: recorded_addShortfall_amount eq_commute)
  then obtain d' where d': "map_of ?st' eid = Some d'"
    and cx: "recorded sd_amount x c (shortfallsCaused d') = recorded sd_amount x c (shortfallsCaused d)"
    unfolding none by auto
  have "\<exists>d'. map_of ?st' eid = Some d' \<and>
     recordedAll sd_amount c (shortfallsCaused d') =
       recordedAll sd_amount c (shortfallsCaused d) +
         sum_list (map (\<lambda>cr. a * (getNum (snd cr) c / ?S)) (filter (\<lambda>cr. ?act cr \<and> True) obc))"
    by (rule caused_fold[where q = "recordedAll sd_amount c" and sel = "\<lambda>x xu. x" and P = "\<lambda>k'. True"
          and eid = eid and c = c, OF assms(3)])
       (simp add: recordedAll_addShortfall_amount)
  then obtain d3 where d3: "map_of ?st' eid = Some d3"
    and ta0: "recordedAll sd_amount c (shortfallsCaused d3) =
       recordedAll sd_amount c (shortfallsCaused d) +
         sum_list (map (\<lambda>cr. a * (getNum (snd cr) c / ?S)) (filter ?act obc))"
    by auto
  from d' d3 have "d3 = d'" by simp
  with ta0 have ta: "recordedAll sd_amount c (shortfallsCaused d') =
       recordedAll sd_amount c (shortfallsCaused d) + a * (sum_list (map ?g (recipients st c obc)) / ?S)"
    unfolding sum_list_scaled recipients_def by simp
  have "sum_list (map ?g (filter ?act obc)) + ?g (x, mx) \<le> sum_list (map ?g obc)"
    by (rule sum_filter_excluding[OF assms(7,4)]) (simp add: assms(6))
  with assms(5) 3 have lt: "sum_list (map ?g (recipients st c obc)) < ?S"
    by (simp add: recipients_def)
  have "sum_list (map ?g (recipients st c obc)) / ?S < 1"
    using lt assms(2) by simp
  with assms(8) have "a * (sum_list (map ?g (recipients st c obc)) / ?S) < a * 1"
    by (intro mult_strict_left_mono) simp_all
  with ta have strict: "recordedAll sd_amount c (shortfallsCaused d') <
       recordedAll sd_amount c (shortfallsCaused d) + a" by simp
  show ?thesis
    unfolding eq using 1 2 3 d' cx ta strict by blast
qed

theorem absent_creditor_share_dropped_witness:
  "map_of (distributeCoin ''debtor'' (obligationsByCreditor splitDebtor) usdcPrices
     (projr (firstPass [splitDebtor, insideCreditor] usdcPrices)) (''USDC'', 400)) ''outside'' = None \<and>
   recordedAll sd_amount ''USDC''
     (shortfallsCaused (the (map_of
        (distributeCoin ''debtor'' (obligationsByCreditor splitDebtor) usdcPrices
           (projr (firstPass [splitDebtor, insideCreditor] usdcPrices)) (''USDC'', 400)) ''debtor''))) < 400"
proof -
  let ?obc = "obligationsByCreditor splitDebtor"
  let ?st = "projr (firstPass [splitDebtor, insideCreditor] usdcPrices)"
  let ?d = "the (map_of ?st ''debtor'')"
  have h1: "usdcPrices ''USDC'' = Some 1" by code_simp
  have h2: "0 < totalObligationsForCoin ?obc ''USDC''" by code_simp
  have "map_of ?st ''debtor'' \<noteq> None" by code_simp
  then have h3: "map_of ?st ''debtor'' = Some ?d" by simp
  have h4: "(''outside'', [(''USDC'', 300)]) \<in> set ?obc" by code_simp
  have h5: "0 < getNum [(''USDC'', 300)] ''USDC''" by code_simp
  have h6: "map_of ?st ''outside'' = None" by code_simp
  have h7: "\<forall>cr \<in> set ?obc. 0 \<le> getNum (snd cr) ''USDC''" by code_simp
  have h8: "(0::rat) < 400" by simp
  have v: "recordedAll sd_amount ''USDC'' (shortfallsCaused ?d) = 0" by code_simp
  from absent_creditor_share_dropped[where pm = usdcPrices and c = "''USDC''" and a = 400,
      OF h1 h2 h3 h4 h5 h6 h7 h8] v
  show ?thesis by auto
qed

subsection \<open>The first-pass shortfall\<close>

lemma usd_zero: "usd pm dec t 0 = 0"
  by (simp add: usd_def)

lemma usd_diff: "usd pm dec t (x - y) = usd pm dec t x - usd pm dec t y"
  by (simp add: usd_def diff_divide_distrib left_diff_distrib)

lemma usd_add: "usd pm dec t (x + y) = usd pm dec t x + usd pm dec t y"
  by (simp add: usd_def add_divide_distrib distrib_right)

lemma usd_sum_list: "usd pm dec t (sum_list xs) = sum_list (map (usd pm dec t) xs)"
  by (induction xs) (simp_all add: usd_zero usd_add)

lemma usd_nonneg: "0 \<le> x \<Longrightarrow> 0 \<le> priceOf pm t \<Longrightarrow> 0 \<le> usd pm dec t x"
  by (simp add: usd_def)

lemma sum_update_present:
  fixes h :: "'k \<times> 'v \<Rightarrow> rat"
  assumes "distinct (map fst m)" "map_of m k = Some old"
  shows "sum_list (map h (AList.update k v m)) = sum_list (map h m) - h (k, old) + h (k, v)"
  using assms by (induction m) (auto split: if_splits)

lemma sum_delete_present:
  fixes h :: "'k \<times> 'v \<Rightarrow> rat"
  assumes "distinct (map fst m)" "map_of m k = Some old"
  shows "sum_list (map h (AList.delete k m)) = sum_list (map h m) - h (k, old)"
  using assms
proof (induction m)
  case Nil
  then show ?case by simp
next
  case (Cons p m)
  show ?case
  proof (cases "fst p = k")
    case True
    with Cons.prems have "k \<notin> fst ` set m" "p = (k, old)" by (auto simp: prod_eq_iff)
    then show ?thesis by (simp add: AList.delete_id)
  next
    case False
    with Cons show ?thesis by (cases p) (auto split: if_splits)
  qed
qed

lemma absent_key: "map_of m k = None \<longleftrightarrow> k \<notin> fst ` set m"
  by (simp add: map_of_eq_None_iff)

lemma usdOfMap_update:
  assumes "distinct (map fst m)"
  shows "usdOfMap pm dec (AList.update k v m) =
           usdOfMap pm dec m - usd pm dec k (availableOf m k) + usd pm dec k v"
proof (cases "map_of m k")
  case None
  then have "AList.update k v m = m @ [(k, v)]" by (simp add: update_fresh absent_key)
  with None show ?thesis by (simp add: usdOfMap_def availableOf_def usd_zero)
next
  case (Some old)
  from sum_update_present[OF assms Some, where h = "\<lambda>tx. usd pm dec (fst tx) (snd tx)" and v = v]
  show ?thesis by (simp add: usdOfMap_def availableOf_def Some)
qed

lemma usdOfMap_delete:
  assumes "distinct (map fst m)"
  shows "usdOfMap pm dec (AList.delete k m) = usdOfMap pm dec m - usd pm dec k (availableOf m k)"
proof (cases "map_of m k")
  case None
  then have "AList.delete k m = m" by (simp add: AList.delete_id absent_key)
  with None show ?thesis by (simp add: usdOfMap_def availableOf_def usd_zero)
next
  case (Some old)
  from sum_delete_present[OF assms Some, where h = "\<lambda>tx. usd pm dec (fst tx) (snd tx)"]
  show ?thesis by (simp add: usdOfMap_def availableOf_def Some)
qed

lemma usdOfMap_nonneg:
  assumes "\<forall>tx \<in> set m. 0 \<le> snd tx" "\<And>t. 0 \<le> priceOf pm t"
  shows "0 \<le> usdOfMap pm dec m"
  unfolding usdOfMap_def using assms(1)
  by (intro sum_list_nonneg) (auto simp add: usd_nonneg assms(2))

lemma foldl_plus_int: "foldl (\<lambda>s x. s + f x) a xs = a + sum_list (map f xs)" for a :: int
  by (induction xs arbitrary: a) simp_all

lemma totalObIntOf_sum: "totalObIntOf g = sum_list (map (\<lambda>ob. amt_int (od_amount ob)) g)"
  by (simp add: totalObIntOf_def foldl_plus_int)

text \<open>Grouping by asset type.\<close>

lemma map_of_obligationsByCoin:
  "map_of (obligationsByCoin obs) t =
     (if filter (\<lambda>ob. od_coinType ob = t) obs = [] then None
      else Some (filter (\<lambda>ob. od_coinType ob = t) obs))"
proof (induction obs rule: rev_induct)
  case Nil
  then show ?case by (simp add: obligationsByCoin_def)
next
  case (snoc x xs)
  then show ?case
    by (cases "map_of (obligationsByCoin xs) (od_coinType x)")
       (auto simp add: obligationsByCoin_def AList.update_conv' split: if_splits)
qed

lemma group_members:
  assumes "g \<in> set (obligationsByCoin obs)"
  shows "snd g = filter (\<lambda>ob. od_coinType ob = fst g) obs" and "snd g \<noteq> []"
proof -
  from assms have "map_of (obligationsByCoin obs) (fst g) = Some (snd g)"
    by (simp add: distinct_obligationsByCoin)
  then show "snd g = filter (\<lambda>ob. od_coinType ob = fst g) obs" and "snd g \<noteq> []"
    by (auto simp add: map_of_obligationsByCoin split: if_splits)
qed

lemma sum_indicator_absent:
  fixes v :: rat
  shows "k \<notin> set ks \<Longrightarrow> sum_list (map (\<lambda>t. if k = t then v else 0) ks) = 0"
  by (induction ks) auto

lemma sum_indicator:
  fixes v :: rat
  shows "distinct ks \<Longrightarrow> k \<in> set ks \<Longrightarrow> sum_list (map (\<lambda>t. if k = t then v else 0) ks) = v"
  by (induction ks) (auto simp add: sum_indicator_absent)

lemma sum_by_key:
  fixes f :: "'a \<Rightarrow> rat"
  assumes "distinct ks"
  shows "key ` set xs \<subseteq> set ks \<Longrightarrow>
     sum_list (map (\<lambda>t. sum_list (map f (filter (\<lambda>x. key x = t) xs))) ks) = sum_list (map f xs)"
proof (induction xs)
  case Nil
  then show ?case by (simp add: sum_list_0)
next
  case (Cons x xs)
  have "sum_list (map (\<lambda>t. sum_list (map f (filter (\<lambda>x. key x = t) (x # xs)))) ks) =
        sum_list (map (\<lambda>t. (if key x = t then f x else 0) +
                            sum_list (map f (filter (\<lambda>x. key x = t) xs))) ks)"
    by (rule arg_cong[where f = sum_list], rule map_cong) simp_all
  also have "\<dots> = sum_list (map (\<lambda>t. if key x = t then f x else 0) ks) +
                  sum_list (map (\<lambda>t. sum_list (map f (filter (\<lambda>x. key x = t) xs))) ks)"
    by (simp add: sum_list_addf)
  also have "\<dots> = f x + sum_list (map f xs)"
    using Cons assms by (simp add: sum_indicator)
  finally show ?case by simp
qed

lemma groups_usd:
  "sum_list (map (\<lambda>g. usd pm dec (fst g) (totalObIntOf (snd g))) (obligationsByCoin obs)) =
   sum_list (map (\<lambda>ob. usd pm dec (od_coinType ob) (amt_int (od_amount ob))) obs)"
proof -
  let ?f = "\<lambda>ob. usd pm dec (od_coinType ob) (amt_int (od_amount ob))"
  have each: "usd pm dec (fst g) (totalObIntOf (snd g)) =
              sum_list (map ?f (filter (\<lambda>ob. od_coinType ob = fst g) obs))"
    if "g \<in> set (obligationsByCoin obs)" for g
  proof -
    have "usd pm dec (fst g) (totalObIntOf (snd g)) =
          sum_list (map (\<lambda>ob. usd pm dec (fst g) (amt_int (od_amount ob))) (snd g))"
      by (simp add: totalObIntOf_sum usd_sum_list comp_def)
    also have "\<dots> = sum_list (map (\<lambda>ob. usd pm dec (fst g) (amt_int (od_amount ob)))
                        (filter (\<lambda>ob. od_coinType ob = fst g) obs))"
      using group_members(1)[OF that] by simp
    also have "\<dots> = sum_list (map ?f (filter (\<lambda>ob. od_coinType ob = fst g) obs))"
      by (rule arg_cong[where f = sum_list], rule map_cong) simp_all
    finally show ?thesis .
  qed
  have "sum_list (map (\<lambda>g. usd pm dec (fst g) (totalObIntOf (snd g))) (obligationsByCoin obs)) =
        sum_list (map (\<lambda>g. sum_list (map ?f (filter (\<lambda>ob. od_coinType ob = fst g) obs)))
                    (obligationsByCoin obs))"
    by (rule arg_cong[where f = sum_list], rule map_cong) (simp_all add: each)
  also have "\<dots> = sum_list (map (\<lambda>t. sum_list (map ?f (filter (\<lambda>ob. od_coinType ob = t) obs)))
                       (map fst (obligationsByCoin obs)))"
    by (simp add: comp_def)
  also have "\<dots> = sum_list (map ?f obs)"
    by (rule sum_by_key[OF distinct_obligationsByCoin])
       (simp add: keys_obligationsByCoin)
  finally show ?thesis .
qed

lemma netCoin_effect:
  assumes "netCoin pm obs st g = Inr st'"
  shows "remainingByCoin st' =
           (if totalObIntOf (snd g) < availableOf (remainingByCoin st) (fst g)
            then AList.update (fst g) (availableOf (remainingByCoin st) (fst g) - totalObIntOf (snd g))
                   (remainingByCoin st)
            else AList.delete (fst g) (remainingByCoin st))"
    and "remainingLiabilitiesUsd st' =
           remainingLiabilitiesUsd st +
           (if availableOf (remainingByCoin st) (fst g) < totalObIntOf (snd g)
            then (case find (\<lambda>ob. od_coinType ob = fst g) obs of
                    Some obligation \<Rightarrow>
                      toDecimal (fromInt (totalObIntOf (snd g) - availableOf (remainingByCoin st) (fst g))
                                   (amt_decimals (od_amount obligation))) * priceOf pm (fst g)
                  | None \<Rightarrow> 0)
            else 0)"
  using assms by (cases rule: netCoin_cases; simp add: priceOf_def)+

lemma netCoin_balance:
  assumes step: "netCoin pm obs st g = Inr st'"
    and dist: "distinct (map fst (remainingByCoin st))"
    and decs: "\<forall>ob \<in> set obs. amt_decimals (od_amount ob) = dec (od_coinType ob)"
    and mem: "fst g \<in> od_coinType ` set obs"
  shows "remainingLiabilitiesUsd st' - usdOfMap pm dec (remainingByCoin st') =
         remainingLiabilitiesUsd st - usdOfMap pm dec (remainingByCoin st) +
           usd pm dec (fst g) (totalObIntOf (snd g))"
    and "distinct (map fst (remainingByCoin st'))"
proof -
  let ?k = "fst g"
  let ?a = "availableOf (remainingByCoin st) (fst g)"
  let ?b = "totalObIntOf (snd g)"
  note eff = netCoin_effect[OF step]
  from mem obtain ob where ob: "find (\<lambda>ob. od_coinType ob = ?k) obs = Some ob"
    by (cases "find (\<lambda>ob. od_coinType ob = ?k) obs") (auto simp add: find_None_iff)
  then have "ob \<in> set obs" "od_coinType ob = ?k"
    by (auto simp add: find_Some_iff)
  with decs have d: "amt_decimals (od_amount ob) = dec ?k" by auto
  have conv: "toDecimal (fromInt z (dec ?k)) * priceOf pm ?k = usd pm dec ?k z" for z
    by (simp add: toDecimal_def fromInt_def usd_def)
  show "distinct (map fst (remainingByCoin st'))"
    unfolding eff(1) using dist by (simp add: AList.distinct_update AList.distinct_delete)
  consider (surplus) "?b < ?a" | (exact) "?b = ?a" | (deficit) "?a < ?b" by linarith
  then show "remainingLiabilitiesUsd st' - usdOfMap pm dec (remainingByCoin st') =
         remainingLiabilitiesUsd st - usdOfMap pm dec (remainingByCoin st) + usd pm dec ?k ?b"
  proof cases
    case surplus
    then show ?thesis
      unfolding eff by (simp add: usdOfMap_update[OF dist] usd_diff)
  next
    case exact
    then show ?thesis
      unfolding eff by (simp add: usdOfMap_delete[OF dist])
  next
    case deficit
    then show ?thesis
      unfolding eff by (simp add: usdOfMap_delete[OF dist] ob d conv usd_diff)
  qed
qed

lemma netting_balance_fold:
  assumes decs: "\<forall>ob \<in> set obs. amt_decimals (od_amount ob) = dec (od_coinType ob)"
  shows "foldE (netCoin pm obs) s gs = Inr st \<Longrightarrow> distinct (map fst (remainingByCoin s)) \<Longrightarrow>
     fst ` set gs \<subseteq> od_coinType ` set obs \<Longrightarrow>
     remainingLiabilitiesUsd st - usdOfMap pm dec (remainingByCoin st) =
       remainingLiabilitiesUsd s - usdOfMap pm dec (remainingByCoin s) +
         sum_list (map (\<lambda>g. usd pm dec (fst g) (totalObIntOf (snd g))) gs) \<and>
     distinct (map fst (remainingByCoin st))"
proof (induction gs arbitrary: s)
  case Nil
  then show ?case by simp
next
  case (Cons g gs)
  from Cons.prems(1) obtain s1 where s1: "netCoin pm obs s g = Inr s1"
    and rest: "foldE (netCoin pm obs) s1 gs = Inr st"
    by (cases "netCoin pm obs s g") simp_all
  from Cons.prems(3) have mem: "fst g \<in> od_coinType ` set obs"
    and sub: "fst ` set gs \<subseteq> od_coinType ` set obs" by simp_all
  note b = netCoin_balance[OF s1 Cons.prems(2) decs mem]
  from Cons.IH[OF rest b(2) sub] b(1) show ?case by simp
qed

lemma netCoin_remaining:
  assumes step: "netCoin pm obs st g = Inr st'"
    and nn: "\<forall>tx \<in> set (remainingByCoin st). 0 \<le> snd tx"
    and ob: "0 \<le> totalObIntOf (snd g)"
  shows "\<forall>tx \<in> set (remainingByCoin st'). 0 \<le> snd tx"
    and "fst ` set (remainingByCoin st') \<subseteq> fst ` set (remainingByCoin st)"
proof -
  let ?k = "fst g"
  let ?m = "remainingByCoin st"
  let ?a = "availableOf ?m ?k"
  let ?b = "totalObIntOf (snd g)"
  note eff = netCoin_effect(1)[OF step]
  have del: "set (AList.delete ?k ?m) \<subseteq> set ?m" by (auto simp add: AList.delete_eq)
  show "\<forall>tx \<in> set (remainingByCoin st'). 0 \<le> snd tx"
  proof (cases "?b < ?a")
    case True
    have "set (AList.update ?k (?a - ?b) ?m) \<subseteq> insert (?k, ?a - ?b) (set ?m)"
      by (rule set_update_subset)
    with True nn show ?thesis unfolding eff by auto
  next
    case False
    with del nn show ?thesis unfolding eff by auto
  qed
  show "fst ` set (remainingByCoin st') \<subseteq> fst ` set ?m"
  proof (cases "?b < ?a")
    case True
    with ob have "0 < ?a" by simp
    then have "map_of ?m ?k \<noteq> None" by (cases "map_of ?m ?k") (simp_all add: availableOf_def)
    then have "?k \<in> fst ` set ?m" by (simp add: absent_key)
    with True show ?thesis unfolding eff by (auto simp add: AList.dom_update)
  next
    case False
    with del show ?thesis unfolding eff by auto
  qed
qed

lemma netting_remaining_fold:
  "foldE (netCoin pm obs) s gs = Inr st \<Longrightarrow> \<forall>tx \<in> set (remainingByCoin s). 0 \<le> snd tx \<Longrightarrow>
     \<forall>g \<in> set gs. 0 \<le> totalObIntOf (snd g) \<Longrightarrow>
     (\<forall>tx \<in> set (remainingByCoin st). 0 \<le> snd tx) \<and>
     fst ` set (remainingByCoin st) \<subseteq> fst ` set (remainingByCoin s)"
proof (induction gs arbitrary: s)
  case Nil
  then show ?case by simp
next
  case (Cons g gs)
  from Cons.prems(1) obtain s1 where s1: "netCoin pm obs s g = Inr s1"
    and rest: "foldE (netCoin pm obs) s1 gs = Inr st"
    by (cases "netCoin pm obs s g") simp_all
  from Cons.prems(3) have g: "0 \<le> totalObIntOf (snd g)"
    and gs: "\<forall>g \<in> set gs. 0 \<le> totalObIntOf (snd g)" by simp_all
  note r = netCoin_remaining[OF s1 Cons.prems(2) g]
  from Cons.IH[OF rest r(1) gs] r(2) show ?case by (meson subset_trans)
qed

text \<open>Without a deficit in any asset type, the netting leaves no liabilities.\<close>

lemma netting_covered_fold:
  "foldE (netCoin pm obs) s gs = Inr st \<Longrightarrow> distinct (map fst gs) \<Longrightarrow>
     \<forall>g \<in> set gs. totalObIntOf (snd g) \<le> availableOf (remainingByCoin s) (fst g) \<Longrightarrow>
     remainingLiabilitiesUsd st = remainingLiabilitiesUsd s"
proof (induction gs arbitrary: s)
  case Nil
  then show ?case by simp
next
  case (Cons g gs)
  from Cons.prems(1) obtain s1 where s1: "netCoin pm obs s g = Inr s1"
    and rest: "foldE (netCoin pm obs) s1 gs = Inr st"
    by (cases "netCoin pm obs s g") simp_all
  note eff = netCoin_effect[OF s1]
  from Cons.prems(3) have cov: "totalObIntOf (snd g) \<le> availableOf (remainingByCoin s) (fst g)"
    by simp
  with eff(2) have same: "remainingLiabilitiesUsd s1 = remainingLiabilitiesUsd s" by simp
  have other: "availableOf (remainingByCoin s1) (fst h) = availableOf (remainingByCoin s) (fst h)"
    if "h \<in> set gs" for h
  proof -
    from that have "fst h \<in> set (map fst gs)" by simp
    moreover from Cons.prems(2) have "fst g \<notin> set (map fst gs)" by simp
    ultimately have "fst h \<noteq> fst g" by metis
    then show ?thesis
      unfolding eff(1) by (simp add: availableOf_def AList.update_conv' AList.delete_conv')
  qed
  from Cons.prems(3) other
  have "\<forall>h \<in> set gs. totalObIntOf (snd h) \<le> availableOf (remainingByCoin s1) (fst h)" by simp
  from Cons.IH[OF rest _ this] Cons.prems(2) same show ?case by simp
qed

text \<open>The flattened liabilities.\<close>

lemma flattenObligation_lines:
  assumes "flattenObligation pm ob = Inr ds"
  shows "map (\<lambda>d. (od_coinType d, amt_int (od_amount d))) ds =
         map (\<lambda>l. (typeName (fst l), snd l)) (assetLines (ob_asset ob))"
    and "\<forall>d \<in> set ds. \<exists>l \<in> set (assetLines (ob_asset ob)). lineOf pm d l"
  using assms
  by (cases "ob_asset ob";
      auto simp add: lineOf_def priceOf_def newAmount_def Let_def split: option.splits)+

lemma flatten_fold_lines:
  "foldE (\<lambda>acc ob. case flattenObligation pm ob of Inl e \<Rightarrow> Inl e | Inr ds \<Rightarrow> Inr (acc @ ds)) acc obls
     = Inr obs \<Longrightarrow>
   map (\<lambda>d. (od_coinType d, amt_int (od_amount d))) obs =
     map (\<lambda>d. (od_coinType d, amt_int (od_amount d))) acc @
     map (\<lambda>l. (typeName (fst l), snd l)) (concat (map (\<lambda>ob. assetLines (ob_asset ob)) obls))"
proof (induction obls arbitrary: acc)
  case Nil
  then show ?case by simp
next
  case (Cons ob obls)
  from Cons.prems obtain ds where ds: "flattenObligation pm ob = Inr ds"
    and rest: "foldE (\<lambda>acc ob. case flattenObligation pm ob of Inl e \<Rightarrow> Inl e | Inr ds \<Rightarrow> Inr (acc @ ds))
                 (acc @ ds) obls = Inr obs"
    by (cases "flattenObligation pm ob") (simp_all del: flattenObligation.simps)
  from Cons.IH[OF rest] flattenObligation_lines(1)[OF ds] show ?case by simp
qed

lemma flattenObligations_lines:
  assumes "flattenObligations pm obls = Inr obs"
  shows "map (\<lambda>d. (od_coinType d, amt_int (od_amount d))) obs =
         map (\<lambda>l. (typeName (fst l), snd l)) (concat (map (\<lambda>ob. assetLines (ob_asset ob)) obls))"
  using flatten_fold_lines[OF assms[unfolded flattenObligations_def]] by simp

lemma flattenObligations_lineOf:
  assumes "flattenObligations pm obls = Inr obs" "d \<in> set obs"
  shows "\<exists>ob \<in> set obls. \<exists>l \<in> set (assetLines (ob_asset ob)). lineOf pm d l"
proof -
  let ?P = "\<lambda>acc. \<forall>d \<in> set acc. \<exists>ob \<in> set obls. \<exists>l \<in> set (assetLines (ob_asset ob)). lineOf pm d l"
  have "?P obs"
  proof (rule foldE_invariant[where P = ?P, OF _ _ assms(1)[unfolded flattenObligations_def]])
    show "?P []" by simp
  next
    fix s x s'
    assume s: "?P s" and x: "x \<in> set obls"
      and r: "(case flattenObligation pm x of Inl e \<Rightarrow> Inl e | Inr ds \<Rightarrow> Inr (s @ ds)) = Inr s'"
    from r obtain ds where ds: "flattenObligation pm x = Inr ds" and s': "s' = s @ ds"
      by (cases "flattenObligation pm x") (auto simp del: flattenObligation.simps)
    from flattenObligation_lines(2)[OF ds] x
    have "\<forall>d \<in> set ds. \<exists>ob \<in> set obls. \<exists>l \<in> set (assetLines (ob_asset ob)). lineOf pm d l"
      by blast
    with s show "?P s'" unfolding s' by auto
  qed
  with assms(2) show ?thesis by blast
qed

lemma flattened_wellFormed:
  assumes fl: "flattenObligations pm obls = Inr obs"
    and wf: "list_all (\<lambda>ob. wellFormedAsset dec (ob_asset ob)) obls"
    and d: "d \<in> set obs"
  shows "amt_decimals (od_amount d) = dec (od_coinType d)"
    and "0 \<le> amt_int (od_amount d)"
    and "od_usdValue d = usd pm dec (od_coinType d) (amt_int (od_amount d))"
proof -
  from flattenObligations_lineOf[OF fl d] obtain ob l
    where ob: "ob \<in> set obls" and l: "l \<in> set (assetLines (ob_asset ob))" and line: "lineOf pm d l"
    by blast
  from wf ob have "wellFormedAsset dec (ob_asset ob)" by (simp add: list_all_iff)
  with l have wl: "decimals (fst l) = dec (typeName (fst l))" "0 \<le> snd l"
    by (simp_all add: wellFormedAsset_def list_all_iff)
  from line wl show "amt_decimals (od_amount d) = dec (od_coinType d)"
    by (simp add: lineOf_def newAmount_def)
  from line wl show "0 \<le> amt_int (od_amount d)"
    by (simp add: lineOf_def newAmount_def)
  from line wl show "od_usdValue d = usd pm dec (od_coinType d) (amt_int (od_amount d))"
    by (simp add: lineOf_def newAmount_def usd_def toNumber_def)
qed

lemma foldl_plus_rat: "foldl (\<lambda>s x. s + f x) a xs = a + sum_list (map f xs)" for a :: rat
  by (induction xs arbitrary: a) simp_all

lemma sumLiabilitiesUsd_sum: "sumLiabilitiesUsd obs = sum_list (map od_usdValue obs)"
  by (simp add: sumLiabilitiesUsd_def foldl_plus_rat)

text \<open>The aggregated assets.\<close>

lemma sound_getInt: "sound dec m \<Longrightarrow> 0 \<le> getInt m k"
  by (cases "map_of m k") (auto simp add: sound_def getInt_def dest: map_of_SomeD)

lemma sound_update:
  assumes "sound dec m" "amt_decimals v = dec k" "0 \<le> amt_int v"
  shows "sound dec (AList.update k v m)"
proof -
  have "set (AList.update k v m) \<subseteq> insert (k, v) (set m)" by (rule set_update_subset)
  with assms show ?thesis
    unfolding sound_def by (auto simp add: AList.distinct_update)
qed

lemma sound_addAsset:
  assumes "sound dec m" "wellFormedAsset dec a"
  shows "sound dec (addAsset m a)"
proof (cases a)
  case (CoinAsset coin x)
  with assms(2) have "decimals coin = dec (typeName coin)" "0 \<le> x"
    by (simp_all add: wellFormedAsset_def)
  with sound_getInt[OF assms(1), of "typeName coin"] show ?thesis
    unfolding CoinAsset by (simp add: Let_def newAmount_def sound_update[OF assms(1)])
next
  case (LPAsset coinA coinB x y)
  with assms(2) have w: "decimals coinA = dec (typeName coinA)" "0 \<le> x"
    "decimals coinB = dec (typeName coinB)" "0 \<le> y"
    by (simp_all add: wellFormedAsset_def)
  have 1: "sound dec (AList.update (typeName coinA) (newAmount coinA (getInt m (typeName coinA) + x)) m)"
    using sound_getInt[OF assms(1), of "typeName coinA"] w
    by (intro sound_update[OF assms(1)]) (simp_all add: newAmount_def)
  have "sound dec (AList.update (typeName coinB) (newAmount coinB (getInt m (typeName coinB) + y))
          (AList.update (typeName coinA) (newAmount coinA (getInt m (typeName coinA) + x)) m))"
    using sound_getInt[OF assms(1), of "typeName coinB"] w
    by (intro sound_update[OF 1]) (simp_all add: newAmount_def)
  then show ?thesis unfolding LPAsset by (simp add: Let_def)
qed

lemma sound_aggregateAssets:
  assumes "\<forall>x \<in> set entities. wellFormed dec x" "wellFormed dec e"
  shows "sound dec (aggregateAssets entities e)"
  unfolding aggregateAssets_def
proof (rule foldl_invariant[where I = "sound dec"])
  show "sound dec (foldl addAsset [] (holdings e))"
  proof (rule foldl_invariant[where I = "sound dec"])
    show "sound dec []" by (simp add: sound_def)
  next
    fix s x
    assume "x \<in> set (holdings e)" "sound dec s"
    with assms(2) show "sound dec (addAsset s x)"
      by (intro sound_addAsset) (simp_all add: wellFormed_def list_all_iff)
  qed
next
  fix s x
  assume x: "x \<in> set (incoming entities e)" and s: "sound dec s"
  from x obtain y ob where "y \<in> set entities" "ob \<in> set (obligations y)" "x = ob_asset ob"
    by (auto simp add: incoming_def)
  with assms(1) have "wellFormedAsset dec x"
    by (auto simp add: wellFormed_def list_all_iff)
  with s show "sound dec (addAsset s x)" by (rule sound_addAsset)
qed

lemma sumAssets_fold:
  "foldE (\<lambda>acc (coinType, amount).
            case pm coinType of
              None \<Rightarrow> Inl (PriceNotFound coinType)
            | Some price \<Rightarrow> Inr (acc + toDecimal amount * price)) acc tot = Inr v \<Longrightarrow>
   v = acc + sum_list (map (\<lambda>ta. toDecimal (snd ta) * priceOf pm (fst ta)) tot)"
proof (induction tot arbitrary: acc)
  case Nil
  then show ?case by simp
next
  case (Cons ta tot)
  obtain t a where ta: "ta = (t, a)" by (cases ta)
  from Cons.prems obtain p where p: "pm t = Some p" unfolding ta by (cases "pm t") simp_all
  from Cons.prems have "foldE (\<lambda>acc (coinType, amount).
            case pm coinType of
              None \<Rightarrow> Inl (PriceNotFound coinType)
            | Some price \<Rightarrow> Inr (acc + toDecimal amount * price)) (acc + toDecimal a * p) tot = Inr v"
    unfolding ta by (simp add: p)
  from Cons.IH[OF this] show ?case unfolding ta by (simp add: priceOf_def p)
qed

lemma sumAssetsUsd_value:
  assumes "sumAssetsUsd pm tot = Inr v" "sound dec tot"
  shows "v = usdOfMap pm dec (map (\<lambda>(coinType, amount). (coinType, amt_int amount)) tot)"
proof -
  have "v = sum_list (map (\<lambda>ta. toDecimal (snd ta) * priceOf pm (fst ta)) tot)"
    using sumAssets_fold[OF assms(1)[unfolded sumAssetsUsd_def]] by simp
  also have "\<dots> = sum_list (map (\<lambda>ta. usd pm dec (fst ta) (amt_int (snd ta))) tot)"
    using assms(2)
    by (intro arg_cong[where f = sum_list] map_cong) (auto simp add: sound_def toDecimal_def usd_def)
  finally show ?thesis by (simp add: usdOfMap_def comp_def case_prod_unfold)
qed

lemma sumRemaining_fold:
  "foldE (\<lambda>acc (coinType, amount).
            case pm coinType of
              None \<Rightarrow> Inl (PriceNotFound coinType)
            | Some price \<Rightarrow>
                (case map_of tot coinType of
                   Some assetAmount \<Rightarrow>
                     Inr (acc + toNumber (fromInt amount (amt_decimals assetAmount)) * price)
                 | None \<Rightarrow> Inr acc)) acc rem = Inr v \<Longrightarrow>
   v = acc + sum_list (map (\<lambda>tx. case map_of tot (fst tx) of
                                   Some assetAmount \<Rightarrow>
                                     toNumber (fromInt (snd tx) (amt_decimals assetAmount)) * priceOf pm (fst tx)
                                 | None \<Rightarrow> 0) rem)"
proof (induction rem arbitrary: acc)
  case Nil
  then show ?case by simp
next
  case (Cons tx rem)
  obtain t x where tx: "tx = (t, x)" by (cases tx)
  from Cons.prems obtain p where p: "pm t = Some p" unfolding tx by (cases "pm t") simp_all
  let ?acc' = "case map_of tot t of
                 Some assetAmount \<Rightarrow> acc + toNumber (fromInt x (amt_decimals assetAmount)) * p
               | None \<Rightarrow> acc"
  from Cons.prems have "foldE (\<lambda>acc (coinType, amount).
            case pm coinType of
              None \<Rightarrow> Inl (PriceNotFound coinType)
            | Some price \<Rightarrow>
                (case map_of tot coinType of
                   Some assetAmount \<Rightarrow>
                     Inr (acc + toNumber (fromInt amount (amt_decimals assetAmount)) * price)
                 | None \<Rightarrow> Inr acc)) ?acc' rem = Inr v"
    unfolding tx by (cases "map_of tot t") (simp_all add: p)
  from Cons.IH[OF this] show ?case
    unfolding tx by (cases "map_of tot t") (simp_all add: priceOf_def p)
qed

lemma sumRemainingUsd_value:
  assumes "sumRemainingUsd pm tot rem = Inr v" "sound dec tot" "fst ` set rem \<subseteq> fst ` set tot"
  shows "v = usdOfMap pm dec rem"
proof -
  have each: "(case map_of tot (fst tx) of
                 Some assetAmount \<Rightarrow>
                   toNumber (fromInt (snd tx) (amt_decimals assetAmount)) * priceOf pm (fst tx)
               | None \<Rightarrow> 0) = usd pm dec (fst tx) (snd tx)" if "tx \<in> set rem" for tx
  proof -
    from that assms(3) have "fst tx \<in> fst ` set tot" by auto
    then obtain a where a: "map_of tot (fst tx) = Some a"
      by (cases "map_of tot (fst tx)") (simp_all add: absent_key)
    then have "(fst tx, a) \<in> set tot" by (rule map_of_SomeD)
    with assms(2) have "amt_decimals a = dec (fst tx)" by (auto simp add: sound_def)
    with a show ?thesis by (simp add: toNumber_def fromInt_def usd_def)
  qed
  have "v = sum_list (map (\<lambda>tx. case map_of tot (fst tx) of
                                   Some assetAmount \<Rightarrow>
                                     toNumber (fromInt (snd tx) (amt_decimals assetAmount)) * priceOf pm (fst tx)
                                 | None \<Rightarrow> 0) rem)"
    using sumRemaining_fold[OF assms(1)[unfolded sumRemainingUsd_def]] by simp
  also have "\<dots> = sum_list (map (\<lambda>tx. usd pm dec (fst tx) (snd tx)) rem)"
    by (intro arg_cong[where f = sum_list] map_cong) (simp_all add: each)
  finally show ?thesis by (simp add: usdOfMap_def)
qed

lemma crossAssetCoverage_cases:
  assumes "crossAssetCoverage pm tot st = Inr sw"
  obtains (swap) r where "0 < remainingLiabilitiesUsd st" "remainingByCoin st \<noteq> []"
      "sumRemainingUsd pm tot (remainingByCoin st) = Inr r"
      "sw_remainingLiabilitiesUsd sw = remainingLiabilitiesUsd st - min r (remainingLiabilitiesUsd st)"
    | (none) "\<not> (0 < remainingLiabilitiesUsd st \<and> remainingByCoin st \<noteq> [])"
      "sw_remainingLiabilitiesUsd sw = remainingLiabilitiesUsd st"
proof (cases "0 < remainingLiabilitiesUsd st \<and> remainingByCoin st \<noteq> []")
  case False
  with assms have "sw_remainingLiabilitiesUsd sw = remainingLiabilitiesUsd st"
    by (auto simp: crossAssetCoverage_def)
  with False show ?thesis by (rule none)
next
  case True
  with assms obtain r where r: "sumRemainingUsd pm tot (remainingByCoin st) = Inr r"
    by (cases "sumRemainingUsd pm tot (remainingByCoin st)") (simp_all add: crossAssetCoverage_def)
  with assms True
  have "sw_remainingLiabilitiesUsd sw = remainingLiabilitiesUsd st - min r (remainingLiabilitiesUsd st)"
    by (auto simp add: crossAssetCoverage_def Let_def split: sum.splits if_splits)
  with True r show ?thesis using swap by blast
qed

lemma keys_amounts: "map fst (map (\<lambda>(coinType, amount). (coinType, amt_int amount)) tot) = map fst tot"
  by (induction tot) auto

lemma available_initial:
  "availableOf (map (\<lambda>(coinType, amount). (coinType, amt_int amount)) tot) t = getInt tot t"
  by (cases "map_of tot t") (simp_all add: availableOf_def getInt_def map_of_map)

lemma entity_balance:
  assumes es: "entitySolvency entities pm e = Inr d"
    and wfa: "\<forall>x \<in> set entities. wellFormed dec x" and wfe: "wellFormed dec e"
    and prices: "\<And>t. 0 \<le> priceOf pm t"
  shows "shortfallUsd d = max 0 (totalLiabilitiesUsd d - totalAssetsUsd d)"
proof -
  let ?tot = "aggregateAssets entities e"
  let ?init = "map (\<lambda>(coinType, amount). (coinType, amt_int amount)) ?tot"
  from es obtain obs assetsUsd st sw where
    fl: "flattenObligations pm (obligations e) = Inr obs"
    and sa: "sumAssetsUsd pm ?tot = Inr assetsUsd"
    and dn: "directNetting pm ?tot obs = Inr st"
    and cc: "crossAssetCoverage pm ?tot st = Inr sw"
    and sf: "shortfallUsd d = max (sw_remainingLiabilitiesUsd sw) 0"
    and tl: "totalLiabilitiesUsd d = sumLiabilitiesUsd obs"
    and ta: "totalAssetsUsd d = assetsUsd"
    by (rule entitySolvency_Inr) simp
  have snd: "sound dec ?tot" by (rule sound_aggregateAssets[OF wfa wfe])
  from wfe have wfo: "list_all (\<lambda>ob. wellFormedAsset dec (ob_asset ob)) (obligations e)"
    by (simp add: wellFormed_def)
  note fw = flattened_wellFormed[OF fl wfo]
  have decs: "\<forall>ob \<in> set obs. amt_decimals (od_amount ob) = dec (od_coinType ob)"
    using fw(1) by blast
  have A: "assetsUsd = usdOfMap pm dec ?init" by (rule sumAssetsUsd_value[OF sa snd])
  have L: "sumLiabilitiesUsd obs =
           sum_list (map (\<lambda>ob. usd pm dec (od_coinType ob) (amt_int (od_amount ob))) obs)"
    unfolding sumLiabilitiesUsd_sum
    by (intro arg_cong[where f = sum_list] map_cong) (simp_all add: fw(3))
  have dist0: "distinct (map fst ?init)"
    unfolding keys_amounts using snd by (simp add: sound_def)
  have nn0: "\<forall>tx \<in> set ?init. 0 \<le> snd tx"
    using snd by (auto simp add: sound_def)
  have groups: "\<forall>g \<in> set (obligationsByCoin obs). 0 \<le> totalObIntOf (snd g)"
  proof
    fix g assume g: "g \<in> set (obligationsByCoin obs)"
    have "set (snd g) \<subseteq> set obs" unfolding group_members(1)[OF g] by auto
    with fw(2) have "\<forall>ob \<in> set (snd g). 0 \<le> amt_int (od_amount ob)" by blast
    then show "0 \<le> totalObIntOf (snd g)"
      unfolding totalObIntOf_sum by (intro sum_list_nonneg) auto
  qed
  have fold: "foldE (netCoin pm obs)
       \<lparr>remainingByCoin = ?init, remainingLiabilitiesUsd = 0, shortfallUsdByCoin = []\<rparr>
       (obligationsByCoin obs) = Inr st"
    using dn by (simp add: directNetting_def)
  have keysG: "fst ` set (obligationsByCoin obs) \<subseteq> od_coinType ` set obs"
    by (simp add: keys_obligationsByCoin)
  from netting_balance_fold[OF decs fold _ keysG] dist0
  have bal: "remainingLiabilitiesUsd st - usdOfMap pm dec (remainingByCoin st) =
             sumLiabilitiesUsd obs - assetsUsd"
    by (simp add: groups_usd L A)
  from netting_remaining_fold[OF fold _ groups] nn0
  have nn: "\<forall>tx \<in> set (remainingByCoin st). 0 \<le> snd tx"
    and keys: "fst ` set (remainingByCoin st) \<subseteq> fst ` set ?tot"
    by (simp_all add: keys_map_amt del: set_map)
  have pos: "0 \<le> usdOfMap pm dec (remainingByCoin st)"
    by (rule usdOfMap_nonneg[OF nn prices])
  from cc show ?thesis
  proof (cases rule: crossAssetCoverage_cases)
    case (swap r)
    have "r = usdOfMap pm dec (remainingByCoin st)"
      by (rule sumRemainingUsd_value[OF swap(3) snd keys])
    with bal swap(4) show ?thesis unfolding sf tl ta by (simp add: min_def max_def)
  next
    case none
    show ?thesis
    proof (cases "remainingByCoin st = []")
      case True
      with bal none(2) show ?thesis unfolding sf tl ta by (simp add: usdOfMap_def max_def)
    next
      case False
      with none(1) have "remainingLiabilitiesUsd st \<le> 0" by simp
      with bal pos none(2) show ?thesis unfolding sf tl ta by (simp add: max_def)
    qed
  qed
qed

lemma assetTypes_lines: "assetTypes a = map (\<lambda>l. typeName (fst l)) (assetLines a)"
  by (cases a) simp_all

lemma flattened_types:
  assumes "flattenObligations pm (obligations e) = Inr obs"
  shows "od_coinType ` set obs = obligationTypes e"
proof -
  have "map od_coinType obs = map fst (map (\<lambda>d. (od_coinType d, amt_int (od_amount d))) obs)"
    by (simp add: comp_def)
  also have "\<dots> = map (\<lambda>l. typeName (fst l))
                      (concat (map (\<lambda>ob. assetLines (ob_asset ob)) (obligations e)))"
    unfolding flattenObligations_lines[OF assms] by (simp add: comp_def)
  also have "\<dots> = concat (map (\<lambda>ob. assetTypes (ob_asset ob)) (obligations e))"
    by (simp add: map_concat comp_def assetTypes_lines)
  finally have "set (map od_coinType obs) =
                set (concat (map (\<lambda>ob. assetTypes (ob_asset ob)) (obligations e)))"
    by simp
  then show ?thesis unfolding obligationTypes_def by simp
qed

lemma flattened_owed:
  assumes "flattenObligations pm (obligations e) = Inr obs"
  shows "sum_list (map (\<lambda>ob. amt_int (od_amount ob)) (filter (\<lambda>ob. od_coinType ob = t) obs)) = owedOf e t"
proof -
  let ?key = "\<lambda>d. (od_coinType d, amt_int (od_amount d))"
  have "sum_list (map (\<lambda>ob. amt_int (od_amount ob)) (filter (\<lambda>ob. od_coinType ob = t) obs)) =
        sum_list (map snd (filter (\<lambda>p. fst p = t) (map ?key obs)))"
    by (simp add: filter_map comp_def)
  also have "\<dots> = owedOf e t"
    unfolding flattenObligations_lines[OF assms] owedOf_def by (simp add: filter_map comp_def)
  finally show ?thesis .
qed

lemma entity_covered:
  assumes es: "entitySolvency entities pm e = Inr d"
    and cov: "\<forall>t \<in> obligationTypes e. owedOf e t \<le> heldOf entities e t"
  shows "shortfallUsd d = 0"
proof -
  let ?tot = "aggregateAssets entities e"
  let ?init = "map (\<lambda>(coinType, amount). (coinType, amt_int amount)) ?tot"
  from es obtain obs assetsUsd st sw where
    fl: "flattenObligations pm (obligations e) = Inr obs"
    and dn: "directNetting pm ?tot obs = Inr st"
    and cc: "crossAssetCoverage pm ?tot st = Inr sw"
    and sf: "shortfallUsd d = max (sw_remainingLiabilitiesUsd sw) 0"
    by (rule entitySolvency_Inr) simp
  have fold: "foldE (netCoin pm obs)
       \<lparr>remainingByCoin = ?init, remainingLiabilitiesUsd = 0, shortfallUsdByCoin = []\<rparr>
       (obligationsByCoin obs) = Inr st"
    using dn by (simp add: directNetting_def)
  have "\<forall>g \<in> set (obligationsByCoin obs). totalObIntOf (snd g) \<le> availableOf ?init (fst g)"
  proof
    fix g assume g: "g \<in> set (obligationsByCoin obs)"
    then have "fst g \<in> fst ` set (obligationsByCoin obs)" by (rule imageI)
    then have "fst g \<in> obligationTypes e"
      unfolding keys_obligationsByCoin flattened_types[OF fl] .
    with cov have "owedOf e (fst g) \<le> heldOf entities e (fst g)" by blast
    moreover have "totalObIntOf (snd g) = owedOf e (fst g)"
      unfolding totalObIntOf_sum group_members(1)[OF g, symmetric]
      using flattened_owed[OF fl, of "fst g"] group_members(1)[OF g] by simp
    ultimately show "totalObIntOf (snd g) \<le> availableOf ?init (fst g)"
      by (simp add: available_initial heldOf_def)
  qed
  with netting_covered_fold[OF fold distinct_obligationsByCoin]
  have "remainingLiabilitiesUsd st = 0" by simp
  from crossAssetCoverage_none[OF cc this] show ?thesis unfolding sf by simp
qed

text \<open>
  C2. For well-formed input (every coin of an asset type carries the same decimals, no raw
  amount is negative, no price is negative), every record of the first pass reports
  \<open>shortfallUsd = max 0 (totalLiabilitiesUsd - totalAssetsUsd)\<close>; and the record of an
  entity whose available amount of every asset type it owes is at least the amount owed
  reports \<open>shortfallUsd = 0\<close>.
\<close>

theorem first_pass_shortfall:
  assumes "firstPass entities pm = Inr st"
    and "\<forall>e \<in> set entities. wellFormed dec e"
    and "\<forall>t p. pm t = Some p \<longrightarrow> 0 \<le> p"
  shows "\<forall>x \<in> set st.
           shortfallUsd (snd x) = max 0 (totalLiabilitiesUsd (snd x) - totalAssetsUsd (snd x)) \<and>
           (\<forall>e \<in> set entities. entitySolvency entities pm e = Inr (snd x) \<longrightarrow>
              (\<forall>t \<in> obligationTypes e. owedOf e t \<le> heldOf entities e t) \<longrightarrow>
              shortfallUsd (snd x) = 0)"
proof
  fix x assume x: "x \<in> set st"
  from firstPass_records(2)[OF assms(1)] x obtain e
    where e: "e \<in> set entities" "entitySolvency entities pm e = Inr (snd x)"
    by blast
  have prices: "0 \<le> priceOf pm t" for t
    using assms(3) by (cases "pm t") (simp_all add: priceOf_def)
  from assms(2) e(1) have "wellFormed dec e" by blast
  from entity_balance[OF e(2) assms(2) this prices]
  have 1: "shortfallUsd (snd x) = max 0 (totalLiabilitiesUsd (snd x) - totalAssetsUsd (snd x))" .
  have 2: "\<forall>e \<in> set entities. entitySolvency entities pm e = Inr (snd x) \<longrightarrow>
              (\<forall>t \<in> obligationTypes e. owedOf e t \<le> heldOf entities e t) \<longrightarrow>
              shortfallUsd (snd x) = 0"
    using entity_covered by blast
  from 1 2 show "shortfallUsd (snd x) = max 0 (totalLiabilitiesUsd (snd x) - totalAssetsUsd (snd x)) \<and>
           (\<forall>e \<in> set entities. entitySolvency entities pm e = Inr (snd x) \<longrightarrow>
              (\<forall>t \<in> obligationTypes e. owedOf e t \<le> heldOf entities e t) \<longrightarrow>
              shortfallUsd (snd x) = 0)" by (rule conjI)
qed

theorem first_pass_shortfall_witness:
  "list_all (wellFormed coinDecimals) [mixedDebtor, coveredCreditor] \<and>
   map (\<lambda>x. (fst x, totalLiabilitiesUsd (snd x), totalAssetsUsd (snd x), shortfallUsd (snd x)))
     (projr (firstPass [mixedDebtor, coveredCreditor] twoPrices)) =
     [(''debtor'', 500, 300, 200), (''creditor'', 200, 500, 0)] \<and>
   list_all (\<lambda>x. shortfallUsd (snd x) = max 0 (totalLiabilitiesUsd (snd x) - totalAssetsUsd (snd x)))
     (projr (firstPass [mixedDebtor, coveredCreditor] twoPrices)) \<and>
   list_all (\<lambda>t. owedOf coveredCreditor t \<le> heldOf [mixedDebtor, coveredCreditor] coveredCreditor t)
     (concat (map (\<lambda>ob. assetTypes (ob_asset ob)) (obligations coveredCreditor))) \<and>
   shortfallUsd (the (map_of (projr (firstPass [mixedDebtor, coveredCreditor] twoPrices)) ''creditor'')) = 0"
proof -
  let ?es = "[mixedDebtor, coveredCreditor]"
  let ?st = "projr (firstPass ?es twoPrices)"
  have "\<not> isl (firstPass ?es twoPrices)" by code_simp
  then have fp: "firstPass ?es twoPrices = Inr ?st" by (cases "firstPass ?es twoPrices") simp_all
  have wf: "list_all (wellFormed coinDecimals) ?es" by code_simp
  then have wf': "\<forall>e \<in> set ?es. wellFormed coinDecimals e" by (simp only: list_all_iff)
  have prices: "\<forall>t p. twoPrices t = Some p \<longrightarrow> 0 \<le> p"
    by (auto simp add: twoPrices_def split: if_splits)
  have vals: "map (\<lambda>x. (fst x, totalLiabilitiesUsd (snd x), totalAssetsUsd (snd x), shortfallUsd (snd x))) ?st =
     [(''debtor'', 500, 300, 200), (''creditor'', 200, 500, 0)]" by code_simp
  have cov: "list_all (\<lambda>t. owedOf coveredCreditor t \<le> heldOf ?es coveredCreditor t)
     (concat (map (\<lambda>ob. assetTypes (ob_asset ob)) (obligations coveredCreditor)))" by code_simp
  then have cov': "\<forall>t \<in> obligationTypes coveredCreditor. owedOf coveredCreditor t \<le> heldOf ?es coveredCreditor t"
    by (simp only: list_all_iff obligationTypes_def)
  have mem: "(''creditor'', the (map_of ?st ''creditor'')) \<in> set ?st" by code_simp
  have rec: "entitySolvency ?es twoPrices coveredCreditor = Inr (the (map_of ?st ''creditor''))" by code_simp
  note t = first_pass_shortfall[OF fp wf' prices]
  from t have 3: "list_all (\<lambda>x. shortfallUsd (snd x) =
      max 0 (totalLiabilitiesUsd (snd x) - totalAssetsUsd (snd x))) ?st"
    by (simp only: list_all_iff) blast
  from t mem rec cov' have 5: "shortfallUsd (the (map_of ?st ''creditor'')) = 0"
    by (metis snd_conv list.set_intros(1,2))
  from wf vals 3 cov 5 show ?thesis by (intro conjI)
qed

subsection \<open>Processing orders\<close>

text \<open>Views of the list operations.\<close>

lemma detailView_addDetail:
  "detailView (addDetail ds c x xu src) = addDetailView c x xu src (detailView ds)"
proof (induction ds)
  case Nil
  show ?case by (auto simp add: detailView_def addDetailView_def fun_eq_iff)
next
  case (Cons d ds)
  have "detailView (addDetail (d # ds) c x xu src) c' =
        addDetailView c x xu src (detailView (d # ds)) c'" for c'
    using Cons[unfolded fun_eq_iff, rule_format, of c']
    by (auto simp add: detailView_def addDetailView_def)
  then show ?case by (simp add: fun_eq_iff)
qed

lemma entryView_addShortfall:
  "entryView (addShortfall ss k c x xu src) = addView k c x xu src (entryView ss)"
proof (induction ss)
  case Nil
  have "detailView [\<lparr>sd_coinType = c, sd_amount = x, sd_usdValue = xu, sd_causedBy = src\<rparr>] =
        addDetailView c x xu src (\<lambda>c. None)"
    using detailView_addDetail[of "[]" c x xu src] by (simp add: detailView_def[abs_def])
  then show ?case by (auto simp add: entryView_def addView_def fun_eq_iff)
next
  case (Cons s ss)
  have "entryView (addShortfall (s # ss) k c x xu src) k' =
        addView k c x xu src (entryView (s # ss)) k'" for k'
    using Cons[unfolded fun_eq_iff, rule_format, of k']
    by (auto simp add: entryView_def addView_def detailView_addDetail)
  then show ?case by (simp add: fun_eq_iff)
qed

lemma addDetailView_commute:
  "(c = c' \<Longrightarrow> src = src') \<Longrightarrow>
   addDetailView c x xu src (addDetailView c' x' xu' src' D) =
   addDetailView c' x' xu' src' (addDetailView c x xu src D)"
  by (auto simp add: addDetailView_def fun_eq_iff split: option.splits)

lemma addView_commute:
  assumes "k = k' \<Longrightarrow> c = c' \<Longrightarrow> src = src'"
  shows "addView k c x xu src (addView k' c' x' xu' src' V) =
         addView k' c' x' xu' src' (addView k c x xu src V)"
proof (cases "k = k'")
  case False
  then show ?thesis by (auto simp add: addView_def fun_eq_iff split: option.splits)
next
  case True
  have d: "addDetailView c x xu src (addDetailView c' x' xu' src' D) =
           addDetailView c' x' xu' src' (addDetailView c x xu src D)" for D
    using assms True by (intro addDetailView_commute) simp
  show ?thesis
    unfolding True by (auto simp add: addView_def fun_eq_iff d split: option.splits)
qed

text \<open>The view of a transfer.\<close>

lemma core_recOp: "core (recOp e j d) = core d"
  by (cases e) (simp add: recOp_def core_def Let_def)

lemma totalLiabilities_core: "totalLiabilities (core d) = totalLiabilities d"
  by (simp add: core_def)

lemma viewOf_recOp: "viewOf (recOp e j d) = absOp e j (viewOf d)"
proof -
  obtain u c k x xu where e: "e = (u, c, k, x, xu)" by (cases e)
  show ?thesis
    unfolding e
    by (simp add: viewOf_def absOp_def recOp_def Let_def core_def entryView_addShortfall
        AList.update_conv' getNum_def addB_def)
qed

lemma addB_commute: "addB c x (addB c' x' B) = addB c' x' (addB c x B)"
  by (auto simp add: addB_def fun_eq_iff split: option.splits)

lemma received_commute:
  "addView u c x xu u (addView u' c' x' xu' u' R) = addView u' c' x' xu' u' (addView u c x xu u R)"
  by (rule addView_commute) simp

lemma caused_commute:
  "addView k c x xu u (addView k' c' x' xu' u C) = addView k' c' x' xu' u (addView k c x xu u C)"
  by (rule addView_commute) simp

lemma absOp_commute: "absOp e j (absOp e' j v) = absOp e' j (absOp e j v)"
proof -
  obtain u c k x xu where e: "e = (u, c, k, x, xu)" by (cases e)
  obtain u' c' k' x' xu' where e': "e' = (u', c', k', x', xu')" by (cases e')
  obtain cd B R C where v: "v = (cd, B, R, C)" by (cases v)
  have 1: "(if j = k \<and> totalLiabilities cd \<noteq> []
            then addB c x (if j = k' \<and> totalLiabilities cd \<noteq> [] then addB c' x' B else B)
            else (if j = k' \<and> totalLiabilities cd \<noteq> [] then addB c' x' B else B)) =
           (if j = k' \<and> totalLiabilities cd \<noteq> []
            then addB c' x' (if j = k \<and> totalLiabilities cd \<noteq> [] then addB c x B else B)
            else (if j = k \<and> totalLiabilities cd \<noteq> [] then addB c x B else B))"
    using addB_commute[of c x c' x' B] by auto
  have 2: "(if j = k then addView u c x xu u (if j = k' then addView u' c' x' xu' u' R else R)
            else (if j = k' then addView u' c' x' xu' u' R else R)) =
           (if j = k' then addView u' c' x' xu' u' (if j = k then addView u c x xu u R else R)
            else (if j = k then addView u c x xu u R else R))"
    using received_commute[of u c x xu u' c' x' xu' R] by auto
  have 3: "(if j = u then addView k c x xu u (if j = u' then addView k' c' x' xu' u' C else C)
            else (if j = u' then addView k' c' x' xu' u' C else C)) =
           (if j = u' then addView k' c' x' xu' u' (if j = u then addView k c x xu u C else C)
            else (if j = u then addView k c x xu u C else C))"
    using caused_commute[of k c x xu j k' c' x' xu' C] by auto
  show ?thesis
    unfolding e e' v absOp_def prod.case using 1 2 3 by (simp only: prod.inject simp_thms)
qed

lemma sim_refl: "sim d d"
  by (simp add: sim_def)

lemma sim_sym: "sim d d' \<Longrightarrow> sim d' d"
  by (simp add: sim_def)

lemma sim_trans: "sim a b \<Longrightarrow> sim b c \<Longrightarrow> sim a c"
  by (simp add: sim_def)

lemma sim_recOp: "sim d d' \<Longrightarrow> sim (recOp e j d) (recOp e j d')"
  by (simp add: sim_def viewOf_recOp)

lemma sim_recOp_commute: "sim (recOp e j (recOp e' j d)) (recOp e' j (recOp e j d))"
  by (simp add: sim_def viewOf_recOp absOp_commute)

lemma viewOf_runOps: "viewOf (runOps es j d) = foldl (\<lambda>v e. absOp e j v) (viewOf d) es"
  unfolding runOps_def by (induction es arbitrary: d) (simp_all add: viewOf_recOp)

text \<open>Orders of steps that commute up to an equivalence \<open>E\<close>, on states satisfying \<open>I\<close>.\<close>

lemma run_inv:
  assumes inv: "\<And>a s. I s \<Longrightarrow> I (f a s)"
  shows "I s \<Longrightarrow> I (foldl (\<lambda>s a. f a s) s xs)"
  by (induction xs arbitrary: s) (simp_all add: inv)

lemma run_cong:
  assumes cong: "\<And>a s s'. I s \<Longrightarrow> I s' \<Longrightarrow> E s s' \<Longrightarrow> E (f a s) (f a s')"
    and inv: "\<And>a s. I s \<Longrightarrow> I (f a s)"
  shows "I s \<Longrightarrow> I s' \<Longrightarrow> E s s' \<Longrightarrow>
         E (foldl (\<lambda>s a. f a s) s xs) (foldl (\<lambda>s a. f a s) s' xs)"
  by (induction xs arbitrary: s s') (simp_all add: cong inv)

lemma move_front:
  assumes refl: "\<And>s. E s s"
    and trans: "\<And>a b c. E a b \<Longrightarrow> E b c \<Longrightarrow> E a c"
    and cong: "\<And>a s s'. I s \<Longrightarrow> I s' \<Longrightarrow> E s s' \<Longrightarrow> E (f a s) (f a s')"
    and inv: "\<And>a s. I s \<Longrightarrow> I (f a s)"
    and comm: "\<And>y s. y \<in> set ys \<Longrightarrow> I s \<Longrightarrow> E (f y (f x s)) (f x (f y s))"
  shows "I s \<Longrightarrow> E (foldl (\<lambda>s a. f a s) s (x # ys)) (foldl (\<lambda>s a. f a s) s (ys @ [x]))"
  using comm
proof (induction ys arbitrary: s)
  case Nil
  show ?case by (simp add: refl)
next
  case (Cons y ys)
  let ?F = "\<lambda>s a. f a s"
  have c: "E (f y (f x s)) (f x (f y s))" by (rule Cons.prems(2)) (simp_all add: Cons.prems(1))
  have "E (foldl ?F (f y (f x s)) ys) (foldl ?F (f x (f y s)) ys)"
    by (rule run_cong[where I = I and E = E and f = f, OF cong inv _ _ c]) (simp_all add: inv Cons.prems(1))
  moreover have "E (foldl ?F (f y s) (x # ys)) (foldl ?F (f y s) (ys @ [x]))"
    by (rule Cons.IH) (simp_all add: inv Cons.prems)
  ultimately show ?case using trans by fastforce
qed

lemma forward_remove: "forward dep (as @ x # bs) \<Longrightarrow> forward dep (as @ bs)"
  by (induction as) auto

lemma forward_before: "forward dep (as @ x # bs) \<Longrightarrow> y \<in> set as \<Longrightarrow> \<not> dep x y"
  by (induction as) auto

lemma forward_trivial: "forward (\<lambda>a b. False) xs"
  by (induction xs) simp_all

lemma order_invariant:
  assumes refl: "\<And>s. E s s"
    and trans: "\<And>a b c. E a b \<Longrightarrow> E b c \<Longrightarrow> E a c"
    and cong: "\<And>a s s'. I s \<Longrightarrow> I s' \<Longrightarrow> E s s' \<Longrightarrow> E (f a s) (f a s')"
    and inv: "\<And>a s. I s \<Longrightarrow> I (f a s)"
    and comm: "\<And>a b s. I s \<Longrightarrow> a \<noteq> b \<Longrightarrow> \<not> dep a b \<Longrightarrow> \<not> dep b a \<Longrightarrow> E (f a (f b s)) (f b (f a s))"
  shows "distinct xs \<Longrightarrow> distinct ys \<Longrightarrow> set xs = set ys \<Longrightarrow> forward dep xs \<Longrightarrow> forward dep ys \<Longrightarrow>
         I s \<Longrightarrow> I s' \<Longrightarrow> E s s' \<Longrightarrow>
         E (foldl (\<lambda>s a. f a s) s xs) (foldl (\<lambda>s a. f a s) s' ys)"
proof (induction xs arbitrary: ys s s')
  case Nil
  then show ?case by simp
next
  case (Cons x xs)
  let ?F = "\<lambda>s a. f a s"
  from Cons.prems(3) have "x \<in> set ys" by auto
  then obtain as bs where ys: "ys = as @ x # bs" by (auto dest: split_list)
  from Cons.prems(2) have nx: "x \<notin> set as" "x \<notin> set bs" and dab: "distinct (as @ bs)"
    unfolding ys by auto
  from Cons.prems(1) have xs: "x \<notin> set xs" "distinct xs" by auto
  have sets: "set xs = set (as @ bs)"
  proof -
    from Cons.prems(3) have "insert x (set xs) = insert x (set (as @ bs))" unfolding ys by auto
    with xs(1) nx show ?thesis by (auto simp add: insert_eq_iff)
  qed
  have ind: "E (f y (f x t)) (f x (f y t))" if "y \<in> set as" "I t" for y t
  proof -
    from that(1) nx(1) have ne: "y \<noteq> x" by auto
    from that(1) sets have "y \<in> set xs" by auto
    with Cons.prems(4) have 1: "\<not> dep y x" by auto
    from Cons.prems(5) that(1) have 2: "\<not> dep x y" unfolding ys by (rule forward_before)
    from comm[OF that(2) ne 1 2] show ?thesis .
  qed
  have fxs: "forward dep xs" using Cons.prems(4) by simp
  have fab: "forward dep (as @ bs)" using Cons.prems(5) unfolding ys by (rule forward_remove)
  have 1: "E (foldl ?F (f x s) xs) (foldl ?F (f x s') (as @ bs))"
    by (rule Cons.IH[OF xs(2) dab sets fxs fab])
       (simp_all add: inv cong Cons.prems)
  have mf: "E (foldl ?F s' (x # as)) (foldl ?F s' (as @ [x]))"
    by (rule move_front[where I = I and E = E and f = f, OF refl trans cong inv ind]) (simp_all add: Cons.prems)
  have i1: "I (foldl ?F s' (x # as))"
    by (rule run_inv[where I = I and f = f, OF inv]) (simp_all add: Cons.prems)
  have i2: "I (foldl ?F s' (as @ [x]))"
    by (rule run_inv[where I = I and f = f, OF inv]) (simp_all add: Cons.prems)
  have "E (foldl ?F (foldl ?F s' (x # as)) bs) (foldl ?F (foldl ?F s' (as @ [x])) bs)"
    by (rule run_cong[where I = I and E = E and f = f, OF cong inv i1 i2 mf])
  then have 2: "E (foldl ?F (f x s') (as @ bs)) (foldl ?F s' ys)"
    unfolding ys by simp
  from trans[OF 1 2] show ?case by simp
qed

lemma swap_blocks:
  assumes refl: "\<And>s. E s s"
    and trans: "\<And>a b c. E a b \<Longrightarrow> E b c \<Longrightarrow> E a c"
    and cong: "\<And>a s s'. E s s' \<Longrightarrow> E (f a s) (f a s')"
    and comm: "\<And>a b s. E (f a (f b s)) (f b (f a s))"
  shows "E (foldl (\<lambda>s a. f a s) s (xs @ ys)) (foldl (\<lambda>s a. f a s) s (ys @ xs))"
proof (induction xs arbitrary: s)
  case Nil
  show ?case by (simp add: refl)
next
  case (Cons x xs)
  let ?F = "\<lambda>s a. f a s"
  have mf: "E (foldl ?F s (x # ys)) (foldl ?F s (ys @ [x]))"
    by (rule move_front[where I = "\<lambda>s. True" and E = E and f = f, OF refl trans cong _ comm]) simp_all
  have "E (foldl ?F (foldl ?F s (x # ys)) xs) (foldl ?F (foldl ?F s (ys @ [x])) xs)"
    by (rule run_cong[where I = "\<lambda>s. True" and E = E and f = f, OF cong _ _ _ mf]) simp_all
  then have 2: "E (foldl ?F (f x s) (ys @ xs)) (foldl ?F s (ys @ x # xs))" by simp
  have 1: "E (foldl ?F (f x s) (xs @ ys)) (foldl ?F (f x s) (ys @ xs))" by (rule Cons.IH)
  from trans[OF 1 2] show ?case by simp
qed

text \<open>Transfers applied to one record.\<close>

lemma runOps_append: "runOps (es @ es') j d = runOps es' j (runOps es j d)"
  by (simp add: runOps_def)

lemma runOps_concat:
  "runOps (concat (map g xs)) j d = foldl (\<lambda>d x. runOps (g x) j d) d xs"
  by (induction xs arbitrary: d) (simp_all add: runOps_append, simp add: runOps_def)

lemma sim_runOps: "sim d d' \<Longrightarrow> sim (runOps es j d) (runOps es j d')"
  by (simp add: sim_def viewOf_runOps)

lemma sim_runOps_swap: "sim (runOps (es @ es') j d) (runOps (es' @ es) j d)"
  unfolding runOps_def
  by (rule swap_blocks[where E = sim and f = "\<lambda>e d. recOp e j d"])
     (auto intro: sim_refl sim_trans sim_recOp sim_recOp_commute)

lemma sim_runOps_permuted:
  assumes "distinct xs" "distinct ys" "set xs = set ys" "sim d d'"
  shows "sim (runOps (concat (map g xs)) j d) (runOps (concat (map g ys)) j d')"
  unfolding runOps_concat
proof (rule order_invariant[where E = sim and I = "\<lambda>d. True" and dep = "\<lambda>a b. False"
        and f = "\<lambda>x d. runOps (g x) j d", OF _ _ _ _ _ assms(1,2,3)])
  fix a b s
  show "sim (runOps (g a) j (runOps (g b) j s)) (runOps (g b) j (runOps (g a) j s))"
    using sim_runOps_swap[of "g b" "g a" j s] by (simp add: runOps_append)
qed (auto intro: sim_refl sim_trans sim_runOps assms(4) forward_trivial)

text \<open>The propagation from one entity as a list of transfers applied to every record.\<close>

lemma keys_mapRec: "map fst (mapRec g s) = map fst s"
  by (simp add: mapRec_def comp_def)

lemma mapRec_mapRec: "mapRec g (mapRec h s) = mapRec (\<lambda>j d. g j (h j d)) s"
  by (simp add: mapRec_def comp_def)

lemma mapRec_id: "mapRec (\<lambda>j d. d) s = s"
  by (simp add: mapRec_def)

lemma map_of_mapRec: "map_of (mapRec g s) j = map_option (g j) (map_of s j)"
  unfolding mapRec_def by (induction s) auto

lemma dom_mapRec: "map_of (mapRec g s) j = None \<longleftrightarrow> map_of s j = None"
  by (simp add: map_of_mapRec)

lemma mapRec_cong: "(\<And>j d. (j, d) \<in> set s \<Longrightarrow> g j d = h j d) \<Longrightarrow> mapRec g s = mapRec h s"
  unfolding mapRec_def by (rule map_cong) auto

lemma update_as_map:
  "distinct (map fst s) \<Longrightarrow> map_of s k = Some d \<Longrightarrow>
   AList.update k (f d) s = map (\<lambda>p. (fst p, if fst p = k then f (snd p) else snd p)) s"
proof (induction s)
  case Nil
  then show ?case by simp
next
  case (Cons p s)
  show ?case
  proof (cases "fst p = k")
    case True
    with Cons.prems have "k \<notin> fst ` set s" and d: "snd p = d" by auto
    then have "map (\<lambda>p. (fst p, if fst p = k then f (snd p) else snd p)) s = s"
      by (intro map_idI) auto
    with True d show ?thesis by (cases p) simp
  next
    case False
    with Cons show ?thesis by (cases p) auto
  qed
qed

lemma modifyData_mapRec:
  assumes "distinct (map fst s)"
  shows "modifyData k f s = mapRec (\<lambda>j d. if j = k then f d else d) s"
proof (cases "map_of s k")
  case None
  then have "k \<notin> fst ` set s" by (simp add: map_of_eq_None_iff)
  then have "map (\<lambda>p. (fst p, if fst p = k then f (snd p) else snd p)) s = s"
    by (intro map_idI) auto
  with None show ?thesis by (simp add: modifyData_def mapRec_def)
next
  case (Some d)
  with update_as_map[OF assms Some, of f] show ?thesis by (simp add: modifyData_def mapRec_def)
qed

lemma distributeToCreditor_mapRec:
  assumes "distinct (map fst s)" "0 < getNum (snd cr) c" "map_of s (fst cr) \<noteq> None"
  shows "distributeToCreditor u c a au T s cr =
         mapRec (recOp (u, c, fst cr, a * (getNum (snd cr) c / T), au * (getNum (snd cr) c / T))) s"
proof -
  let ?x = "a * (getNum (snd cr) c / T)" and ?xu = "au * (getNum (snd cr) c / T)"
  let ?f1 = "\<lambda>d. d\<lparr>shortfallsReceived := addShortfall (shortfallsReceived d) u c ?x ?xu u\<rparr>"
  let ?f2 = "\<lambda>d. d\<lparr>shortfallsCaused := addShortfall (shortfallsCaused d) (fst cr) c ?x ?xu u\<rparr>"
  let ?f3 = "\<lambda>d. if totalLiabilities d \<noteq> []
                   then d\<lparr>shortfallsByCoin := AList.update c (getNum (shortfallsByCoin d) c + ?x)
                                               (shortfallsByCoin d)\<rparr>
                   else d"
  let ?s1 = "modifyData (fst cr) ?f1 s"
  let ?s2 = "modifyData u ?f2 ?s1"
  from assms(2,3) have "distributeToCreditor u c a au T s cr = modifyData (fst cr) ?f3 ?s2"
    by (auto simp add: distributeToCreditor_def Let_def)
  also have "?s1 = mapRec (\<lambda>j d. if j = fst cr then ?f1 d else d) s"
    by (rule modifyData_mapRec[OF assms(1)])
  also have "modifyData u ?f2 (mapRec (\<lambda>j d. if j = fst cr then ?f1 d else d) s) =
             mapRec (\<lambda>j d. if j = u then ?f2 d else d) (mapRec (\<lambda>j d. if j = fst cr then ?f1 d else d) s)"
    by (rule modifyData_mapRec) (simp add: keys_mapRec assms(1))
  also have "modifyData (fst cr) ?f3
               (mapRec (\<lambda>j d. if j = u then ?f2 d else d) (mapRec (\<lambda>j d. if j = fst cr then ?f1 d else d) s)) =
             mapRec (\<lambda>j d. if j = fst cr then ?f3 d else d)
               (mapRec (\<lambda>j d. if j = u then ?f2 d else d) (mapRec (\<lambda>j d. if j = fst cr then ?f1 d else d) s))"
    by (rule modifyData_mapRec) (simp add: keys_mapRec assms(1))
  also have "\<dots> = mapRec (recOp (u, c, fst cr, ?x, ?xu)) s"
    unfolding mapRec_mapRec by (rule mapRec_cong) (simp add: recOp_def Let_def)
  finally show ?thesis .
qed

lemma distributeToCreditor_idle:
  assumes "\<not> (0 < getNum (snd cr) c \<and> map_of s (fst cr) \<noteq> None)"
  shows "distributeToCreditor u c a au T s cr = s"
  using assms by (auto simp add: distributeToCreditor_def Let_def)

lemma runOps_Nil: "runOps [] j d = d"
  by (simp add: runOps_def)

lemma runOps_Cons: "runOps (e # es) j d = runOps es j (recOp e j d)"
  by (simp add: runOps_def)

lemma recipients_dom:
  "(\<And>k. map_of s' k = None \<longleftrightarrow> map_of s k = None) \<Longrightarrow> recipients s' c obc = recipients s c obc"
  by (simp add: recipients_def)

lemma opsCoin_dom:
  assumes "\<And>k. map_of s' k = None \<longleftrightarrow> map_of s k = None"
  shows "opsCoin u obc pm s' sh = opsCoin u obc pm s sh"
proof -
  have "recipients s' (fst sh) obc = recipients s (fst sh) obc"
    by (rule recipients_dom) (rule assms)
  then show ?thesis unfolding opsCoin_def by (simp only:)
qed

lemma creditors_fold:
  "distinct (map fst s) \<Longrightarrow>
   foldl (distributeToCreditor u c a au T) s obc =
   mapRec (runOps (map (\<lambda>cr. (u, c, fst cr, a * (getNum (snd cr) c / T), au * (getNum (snd cr) c / T)))
                    (recipients s c obc))) s"
proof (induction obc arbitrary: s)
  case Nil
  show ?case by (simp add: recipients_def runOps_def[abs_def] mapRec_id)
next
  case (Cons cr obc)
  let ?mk = "\<lambda>cr. (u, c, fst cr, a * (getNum (snd cr) c / T), au * (getNum (snd cr) c / T))"
  show ?case
  proof (cases "0 < getNum (snd cr) c \<and> map_of s (fst cr) \<noteq> None")
    case False
    then have idle: "distributeToCreditor u c a au T s cr = s" by (rule distributeToCreditor_idle)
    from False have rec: "recipients s c (cr # obc) = recipients s c obc"
      unfolding recipients_def by auto
    show ?thesis unfolding rec using Cons.IH[OF Cons.prems] by (simp add: idle)
  next
    case True
    let ?s1 = "mapRec (recOp (?mk cr)) s"
    from True have step: "distributeToCreditor u c a au T s cr = ?s1"
      by (intro distributeToCreditor_mapRec[OF Cons.prems]) simp_all
    have d1: "distinct (map fst ?s1)" by (simp add: keys_mapRec Cons.prems)
    have r: "recipients ?s1 c obc = recipients s c obc"
      by (rule recipients_dom) (rule dom_mapRec)
    have "foldl (distributeToCreditor u c a au T) s (cr # obc) =
          foldl (distributeToCreditor u c a au T) ?s1 obc"
      by (simp only: foldl_Cons step)
    also have "\<dots> = mapRec (runOps (map ?mk (recipients ?s1 c obc))) ?s1"
      by (rule Cons.IH[OF d1])
    also have "\<dots> = mapRec (runOps (map ?mk (recipients s c obc))) ?s1"
      by (simp only: r)
    also have "\<dots> = mapRec (runOps (?mk cr # map ?mk (recipients s c obc))) s"
      unfolding mapRec_mapRec by (rule mapRec_cong) (simp add: runOps_Cons)
    also have "?mk cr # map ?mk (recipients s c obc) = map ?mk (recipients s c (cr # obc))"
      using True by (simp add: recipients_def)
    finally show ?thesis .
  qed
qed

lemma distributeCoin_mapRec:
  assumes "distinct (map fst s)"
  shows "distributeCoin u obc pm s sh = mapRec (runOps (opsCoin u obc pm s sh)) s"
proof (cases "0 < totalObligationsForCoin obc (fst sh)")
  case False
  then show ?thesis
    by (simp add: distributeCoin_def opsCoin_def Let_def runOps_def[abs_def] mapRec_id)
next
  case True
  show ?thesis
  proof (cases "pm (fst sh)")
    case None
    with True show ?thesis
      by (simp add: distributeCoin_def opsCoin_def Let_def runOps_def[abs_def] mapRec_id)
  next
    case (Some price)
    with True show ?thesis
      by (simp add: distributeCoin_def opsCoin_def Let_def creditors_fold[OF assms])
  qed
qed

lemma coins_fold:
  "distinct (map fst s) \<Longrightarrow>
   foldl (distributeCoin u obc pm) s coins =
   mapRec (runOps (concat (map (opsCoin u obc pm s) coins))) s"
proof (induction coins arbitrary: s)
  case Nil
  show ?case by (simp add: runOps_def[abs_def] mapRec_id)
next
  case (Cons sh coins)
  let ?s1 = "mapRec (runOps (opsCoin u obc pm s sh)) s"
  have d1: "distinct (map fst ?s1)" by (simp add: keys_mapRec Cons.prems)
  have same: "opsCoin u obc pm ?s1 = opsCoin u obc pm s"
    by (rule ext, rule opsCoin_dom) (rule dom_mapRec)
  have "foldl (distributeCoin u obc pm) s (sh # coins) = foldl (distributeCoin u obc pm) ?s1 coins"
    by (simp only: foldl_Cons distributeCoin_mapRec[OF Cons.prems])
  also have "\<dots> = mapRec (runOps (concat (map (opsCoin u obc pm ?s1) coins))) ?s1"
    by (rule Cons.IH[OF d1])
  also have "\<dots> = mapRec (runOps (concat (map (opsCoin u obc pm s) coins))) ?s1"
    by (simp only: same)
  also have "\<dots> = mapRec (runOps (concat (map (opsCoin u obc pm s) (sh # coins)))) s"
    unfolding mapRec_mapRec by (rule mapRec_cong) (simp add: runOps_append)
  finally show ?case .
qed

lemma propagate_mapRec:
  assumes "distinct (map fst s)"
  shows "propagateEntityShortfalls u s entities pm = mapRec (runOps (opsOf entities pm u s)) s"
proof (cases "find (\<lambda>e. entity_id e = u) entities")
  case None
  then show ?thesis
    by (simp add: propagateEntityShortfalls_def opsOf_def runOps_def[abs_def] mapRec_id)
next
  case (Some entity)
  show ?thesis
  proof (cases "map_of s u")
    case None
    with Some show ?thesis
      by (simp add: propagateEntityShortfalls_def opsOf_def runOps_def[abs_def] mapRec_id)
  next
    case d: (Some d)
    show ?thesis
    proof (cases "shortfallsByCoin d = []")
      case True
      with Some d show ?thesis
        by (simp add: propagateEntityShortfalls_def opsOf_def runOps_def[abs_def] mapRec_id)
    next
      case False
      with Some d show ?thesis
        by (simp add: propagateEntityShortfalls_def opsOf_def coins_fold[OF assms])
    qed
  qed
qed

text \<open>Equivalent stores.\<close>

lemma simSt_refl: "simSt s s"
  by (simp add: simSt_def list_all2_same sim_refl)

lemma simSt_trans:
  assumes ab: "simSt a b" and bc: "simSt b c"
  shows "simSt a c"
  unfolding simSt_def
  by (rule list_all2_trans[OF _ ab[unfolded simSt_def] bc[unfolded simSt_def]]) (metis sim_trans)

lemma simSt_keys: "simSt s s' \<Longrightarrow> map fst s = map fst s'"
  unfolding simSt_def by (induction rule: list_all2_induct) simp_all

lemma simSt_lookup:
  "simSt s s' \<Longrightarrow> rel_option sim (map_of s k) (map_of s' k)"
  unfolding simSt_def by (induction rule: list_all2_induct) auto

lemma simSt_dom:
  assumes "simSt s s'"
  shows "map_of s' k = None \<longleftrightarrow> map_of s k = None"
  using simSt_lookup[OF assms, of k] by (cases "map_of s k"; cases "map_of s' k") simp_all

lemma simSt_mapRec:
  assumes "simSt s s'" "\<And>j d d'. sim d d' \<Longrightarrow> sim (g j d) (h j d')"
  shows "simSt (mapRec g s) (mapRec h s')"
  using assms(1) unfolding simSt_def mapRec_def
  by (induction rule: list_all2_induct) (simp_all add: assms(2))

text \<open>Tidy stores.\<close>

lemma byCoin_recOp_keys:
  "distinct (map fst (shortfallsByCoin d)) \<Longrightarrow> distinct (map fst (shortfallsByCoin (recOp e j d)))"
  by (cases e) (simp add: recOp_def Let_def AList.distinct_update)

lemma byCoin_runOps_keys:
  "distinct (map fst (shortfallsByCoin d)) \<Longrightarrow> distinct (map fst (shortfallsByCoin (runOps es j d)))"
  unfolding runOps_def by (induction es arbitrary: d) (simp_all add: byCoin_recOp_keys)

lemma tidy_mapRec_runOps: "tidy s \<Longrightarrow> tidy (mapRec (runOps es) s)"
  unfolding tidy_def keys_mapRec
  by (simp add: mapRec_def list_all_iff byCoin_runOps_keys)

lemma tidy_propagate: "tidy s \<Longrightarrow> tidy (propagateEntityShortfalls u s entities pm)"
  using propagate_mapRec[of s u entities pm] tidy_mapRec_runOps[of s]
  by (simp add: tidy_def)

lemma tidy_lookup: "tidy s \<Longrightarrow> map_of s k = Some d \<Longrightarrow> distinct (map fst (shortfallsByCoin d))"
  by (auto simp add: tidy_def list_all_iff dest: map_of_SomeD)

text \<open>The transfers of an entity in equivalent stores.\<close>

lemma sim_byCoin: "sim d d' \<Longrightarrow> map_of (shortfallsByCoin d) = map_of (shortfallsByCoin d')"
  by (simp add: sim_def viewOf_def)

lemma same_entries:
  assumes "distinct (map fst xs)" "distinct (map fst ys)" "map_of xs = map_of ys"
  shows "distinct xs" "distinct ys" "set xs = set ys"
proof -
  show "distinct xs" using assms(1) by (simp add: distinct_map)
  show "distinct ys" using assms(2) by (simp add: distinct_map)
  show "set xs = set ys" using assms by (simp add: map_of_inject_set)
qed

lemma propagate_cong:
  assumes ts: "tidy s" and ts': "tidy s'" and sim: "simSt s s'"
  shows "simSt (propagateEntityShortfalls u s entities pm) (propagateEntityShortfalls u s' entities pm)"
proof -
  have ds: "distinct (map fst s)" and ds': "distinct (map fst s')"
    using ts ts' by (simp_all add: tidy_def)
  have dom: "\<And>k. map_of s' k = None \<longleftrightarrow> map_of s k = None" by (rule simSt_dom[OF sim])
  have pointwise: "sim (runOps (opsOf entities pm u s) j d) (runOps (opsOf entities pm u s') j d')"
    if dd: "sim d d'" for j d d'
  proof (cases "find (\<lambda>e. entity_id e = u) entities")
    case None
    then show ?thesis by (simp add: opsOf_def runOps_Nil dd)
  next
    case (Some entity)
    show ?thesis
    proof (cases "map_of s u")
      case None
      with dom[of u] have "map_of s' u = None" by simp
      with None Some show ?thesis by (simp add: opsOf_def runOps_Nil dd)
    next
      case x: (Some x)
      with simSt_lookup[OF sim, of u] obtain x' where x': "map_of s' u = Some x'" and xx: "sim x x'"
        by (cases "map_of s' u") simp_all
      let ?g = "opsCoin u (obligationsByCreditor entity) pm s"
      have same: "opsCoin u (obligationsByCreditor entity) pm s' = ?g"
        by (rule ext, rule opsCoin_dom) (rule dom)
      note en = same_entries[OF tidy_lookup[OF ts x] tidy_lookup[OF ts' x'] sim_byCoin[OF xx]]
      have "sim (runOps (concat (map ?g (shortfallsByCoin x))) j d)
                (runOps (concat (map ?g (shortfallsByCoin x'))) j d')"
        by (rule sim_runOps_permuted[OF en dd])
      then show ?thesis by (simp add: opsOf_def Some x x' same)
    qed
  qed
  show ?thesis
    unfolding propagate_mapRec[OF ds] propagate_mapRec[OF ds']
    by (rule simSt_mapRec[OF sim pointwise])
qed

text \<open>Independent entities.\<close>

lemma byCoin_recOp_other:
  "j \<noteq> fst (snd (snd e)) \<Longrightarrow> shortfallsByCoin (recOp e j d) = shortfallsByCoin d"
  by (cases e) (simp add: recOp_def Let_def)

lemma byCoin_runOps_other:
  "j \<notin> targets es \<Longrightarrow> shortfallsByCoin (runOps es j d) = shortfallsByCoin d"
  unfolding runOps_def targets_def
  by (induction es arbitrary: d) (simp_all add: byCoin_recOp_other)

lemma opsOf_after:
  assumes "u \<notin> targets es"
  shows "opsOf entities pm u (mapRec (runOps es) s) = opsOf entities pm u s"
proof -
  have same: "opsCoin u obc pm (mapRec (runOps es) s) = opsCoin u obc pm s" for obc
    by (rule ext, rule opsCoin_dom) (rule dom_mapRec)
  show ?thesis
    by (cases "find (\<lambda>e. entity_id e = u) entities"; cases "map_of s u")
       (simp_all add: opsOf_def map_of_mapRec same byCoin_runOps_other[OF assms])
qed

lemma propagate_commute:
  assumes ts: "tidy s"
    and uv: "u \<notin> targets (opsOf entities pm v s)" and vu: "v \<notin> targets (opsOf entities pm u s)"
  shows "simSt (propagateEntityShortfalls u (propagateEntityShortfalls v s entities pm) entities pm)
               (propagateEntityShortfalls v (propagateEntityShortfalls u s entities pm) entities pm)"
proof -
  let ?U = "opsOf entities pm u s" and ?V = "opsOf entities pm v s"
  have ds: "distinct (map fst s)" using ts by (simp add: tidy_def)
  have dU: "distinct (map fst (mapRec (runOps ?U) s))" and dV: "distinct (map fst (mapRec (runOps ?V) s))"
    by (simp_all add: keys_mapRec ds)
  have 1: "propagateEntityShortfalls u (propagateEntityShortfalls v s entities pm) entities pm =
           mapRec (\<lambda>j d. runOps (?V @ ?U) j d) s"
    unfolding propagate_mapRec[OF ds] propagate_mapRec[OF dV] opsOf_after[OF uv] mapRec_mapRec
    by (rule mapRec_cong) (simp add: runOps_append)
  have 2: "propagateEntityShortfalls v (propagateEntityShortfalls u s entities pm) entities pm =
           mapRec (\<lambda>j d. runOps (?U @ ?V) j d) s"
    unfolding propagate_mapRec[OF ds] propagate_mapRec[OF dU] opsOf_after[OF vu] mapRec_mapRec
    by (rule mapRec_cong) (simp add: runOps_append)
  have "sim (runOps (?V @ ?U) j d) (runOps (?U @ ?V) j d')" if "sim d d'" for j d d'
    using sim_runOps_swap[of ?V ?U j d] sim_runOps[OF that, of "?U @ ?V" j] by (rule sim_trans)
  with simSt_refl[of s] show ?thesis
    unfolding 1 2 by (rule simSt_mapRec)
qed

text \<open>Transfers follow the edges of the dependency graph.\<close>

lemma keys_addCreditorObligation:
  "fst ` set (addCreditorObligation m k c x) = insert k (fst ` set m)"
  by (cases "map_of m k") (auto simp add: addCreditorObligation_def Let_def AList.dom_update AList.update_conv')

lemma keys_addObligation: "fst ` set (addObligation m ob) = insert (ob_to ob) (fst ` set m)"
  by (cases "ob_asset ob") (simp_all add: addObligation_def keys_addCreditorObligation)

lemma keys_obligationsByCreditor_fold:
  "fst ` set (foldl addObligation m obs) = fst ` set m \<union> ob_to ` set obs"
  by (induction obs arbitrary: m) (simp_all add: keys_addObligation)

lemma keys_obligationsByCreditor:
  "fst ` set (obligationsByCreditor entity) = ob_to ` set (obligations entity)"
  by (simp add: obligationsByCreditor_def keys_obligationsByCreditor_fold)

lemma targets_opsCoin:
  assumes "k \<in> targets (opsCoin u obc pm s sh)"
  shows "k \<in> fst ` set obc" and "map_of s k \<noteq> None"
proof -
  from assms obtain cr where "cr \<in> set (recipients s (fst sh) obc)" "k = fst cr"
    unfolding targets_def opsCoin_def
    by (cases "pm (fst sh)"; cases "0 < totalObligationsForCoin obc (fst sh)") auto
  then show "k \<in> fst ` set obc" and "map_of s k \<noteq> None"
    by (simp_all add: recipients_def)
qed

lemma targets_edges:
  assumes k: "k \<in> targets (opsOf entities pm v s)"
    and dom: "fst ` set s \<subseteq> entity_id ` set entities"
  shows "(v, k) \<in> obligationEdges entities"
proof -
  from k obtain entity d where f: "find (\<lambda>e. entity_id e = v) entities = Some entity"
    and d: "map_of s v = Some d"
    and ops: "opsOf entities pm v s =
              concat (map (opsCoin v (obligationsByCreditor entity) pm s) (shortfallsByCoin d))"
    by (cases "find (\<lambda>e. entity_id e = v) entities"; cases "map_of s v")
       (auto simp add: opsOf_def targets_def)
  from k obtain sh where sh: "k \<in> targets (opsCoin v (obligationsByCreditor entity) pm s sh)"
    unfolding ops targets_def by auto
  note kc = targets_opsCoin(1)[OF sh] and ks = targets_opsCoin(2)[OF sh]
  from kc obtain ob where ob: "ob \<in> set (obligations entity)" "ob_to ob = k"
    unfolding keys_obligationsByCreditor by auto
  from ks have "k \<in> fst ` set s" by (simp add: map_of_eq_None_iff)
  with dom have ke: "k \<in> entity_id ` set entities" by auto
  from f have "entity \<in> set entities" "entity_id entity = v"
    by (auto simp add: find_Some_iff in_set_conv_nth)
  with ob ke show ?thesis unfolding obligationEdges_def by blast
qed

text \<open>The store of the first pass.\<close>

lemma distinct_residualByCoin: "distinct (map fst (residualByCoin pm f sh))"
proof (cases "f > 0 \<and> sh \<noteq> []")
  case False
  then show ?thesis by (auto simp: residualByCoin_unfold)
next
  case True
  have "distinct (map fst
     (foldl (\<lambda>acc x. case pm (fst x) of
                  Some price \<Rightarrow> (if f * (snd x / sumShortfallUsd sh) / price > 0
                                  then AList.update (fst x) (f * (snd x / sumShortfallUsd sh) / price) acc
                                  else acc)
                | None \<Rightarrow> acc) [] sh))"
    by (rule foldl_invariant[where I = "\<lambda>m. distinct (map fst m)"])
       (simp_all add: AList.distinct_update split: option.splits)
  with True show ?thesis by (simp add: residualByCoin_unfold)
qed

lemma neat_firstPass:
  assumes "firstPass entities pm = Inr st"
  shows "neat st" and "fst ` set st \<subseteq> entity_id ` set entities"
proof -
  have rec: "distinct (map fst (shortfallsByCoin (snd x))) \<and>
             shortfallsReceived (snd x) = [] \<and> shortfallsCaused (snd x) = []" if "x \<in> set st" for x
  proof -
    from firstPass_records(2)[OF assms] that obtain e
      where "entitySolvency entities pm e = Inr (snd x)" by blast
    then show ?thesis
      by (rule entitySolvency_Inr) (simp add: distinct_residualByCoin)
  qed
  show "neat st"
    unfolding neat_def tidy_def list_all_iff neatRecord_def neatEntries_def
    using firstPass_records(1)[OF assms] rec by simp
  show "fst ` set st \<subseteq> entity_id ` set entities"
    using firstPass_records(3)[OF assms] by simp
qed

text \<open>Any two valid processing orders lead to equivalent stores.\<close>

lemma keys_propagate:
  "distinct (map fst s) \<Longrightarrow> map fst (propagateEntityShortfalls u s entities pm) = map fst s"
  by (simp add: propagate_mapRec keys_mapRec)

lemma propagateAlong_orders:
  assumes v1: "validOrder (buildGraph entities) os1" and v2: "validOrder (buildGraph entities) os2"
    and ts: "tidy st" and dom: "fst ` set st \<subseteq> entity_id ` set entities"
  shows "simSt (propagateAlong os1 st entities pm) (propagateAlong os2 st entities pm)"
  unfolding propagateAlong_def
proof (rule order_invariant[where E = simSt
        and I = "\<lambda>s. tidy s \<and> fst ` set s \<subseteq> entity_id ` set entities"
        and dep = "\<lambda>u v. (u, v) \<in> set (edges (buildGraph entities))"
        and f = "\<lambda>u s. propagateEntityShortfalls u s entities pm"])
  show "simSt s s" for s by (rule simSt_refl)
  show "simSt a b \<Longrightarrow> simSt b c \<Longrightarrow> simSt a c" for a b c by (rule simSt_trans)
  show "simSt (propagateEntityShortfalls a s entities pm) (propagateEntityShortfalls a s' entities pm)"
    if "tidy s \<and> fst ` set s \<subseteq> entity_id ` set entities"
      "tidy s' \<and> fst ` set s' \<subseteq> entity_id ` set entities" "simSt s s'" for a s s'
    using that by (intro propagate_cong) simp_all
  show "tidy (propagateEntityShortfalls a s entities pm) \<and>
        fst ` set (propagateEntityShortfalls a s entities pm) \<subseteq> entity_id ` set entities"
    if "tidy s \<and> fst ` set s \<subseteq> entity_id ` set entities" for a s
  proof -
    from that have "distinct (map fst s)" by (simp add: tidy_def)
    from keys_propagate[OF this, of a entities pm]
    have "set (map fst (propagateEntityShortfalls a s entities pm)) = set (map fst s)" by simp
    then have "fst ` set (propagateEntityShortfalls a s entities pm) = fst ` set s" by simp
    with that show ?thesis by (simp add: tidy_propagate)
  qed
  show "simSt (propagateEntityShortfalls a (propagateEntityShortfalls b s entities pm) entities pm)
              (propagateEntityShortfalls b (propagateEntityShortfalls a s entities pm) entities pm)"
    if "tidy s \<and> fst ` set s \<subseteq> entity_id ` set entities" "a \<noteq> b"
      "(a, b) \<notin> set (edges (buildGraph entities))" "(b, a) \<notin> set (edges (buildGraph entities))"
    for a b s
  proof (rule propagate_commute)
    from that(1) show "tidy s" by simp
    from that(1,4) show "a \<notin> targets (opsOf entities pm b s)"
      unfolding edges_buildGraph using targets_edges[of a entities pm b s] by blast
    from that(1,3) show "b \<notin> targets (opsOf entities pm a s)"
      unfolding edges_buildGraph using targets_edges[of b entities pm a s] by blast
  qed
  from v1 show "distinct os1" by (simp add: validOrder_def)
  from v2 show "distinct os2" by (simp add: validOrder_def)
  from v1 v2 show "set os1 = set os2" by (simp add: validOrder_def)
  from v1 show "forward (\<lambda>u v. (u, v) \<in> set (edges (buildGraph entities))) os1"
    by (simp add: validOrder_def)
  from v2 show "forward (\<lambda>u v. (u, v) \<in> set (edges (buildGraph entities))) os2"
    by (simp add: validOrder_def)
  from ts dom show "tidy st \<and> fst ` set st \<subseteq> entity_id ` set entities" by simp
  from ts dom show "tidy st \<and> fst ` set st \<subseteq> entity_id ` set entities" by simp
  show "simSt st st" by (rule simSt_refl)
qed

text \<open>Neat lists stay neat.\<close>

lemma keys_addDetail:
  "map sd_coinType (addDetail ds c x xu src) =
     (if c \<in> sd_coinType ` set ds then map sd_coinType ds else map sd_coinType ds @ [c])"
  by (induction ds) auto

lemma distinct_addDetail:
  "distinct (map sd_coinType ds) \<Longrightarrow> distinct (map sd_coinType (addDetail ds c x xu src))"
  by (simp add: keys_addDetail)

lemma keys_addShortfall:
  "map owesTo (addShortfall ss k c x xu src) =
     (if k \<in> owesTo ` set ss then map owesTo ss else map owesTo ss @ [k])"
  by (induction ss) auto

lemma details_addShortfall:
  "list_all (\<lambda>s. distinct (map sd_coinType (shortfalls s))) ss \<Longrightarrow>
   list_all (\<lambda>s. distinct (map sd_coinType (shortfalls s))) (addShortfall ss k c x xu src)"
  by (induction ss) (simp_all add: distinct_addDetail)

lemma neatEntries_addShortfall:
  "neatEntries ss \<Longrightarrow> neatEntries (addShortfall ss k c x xu src)"
  by (simp add: neatEntries_def keys_addShortfall details_addShortfall)

lemma neatRecord_recOp: "neatRecord d \<Longrightarrow> neatRecord (recOp e j d)"
  by (cases e) (simp add: neatRecord_def recOp_def Let_def neatEntries_addShortfall)

lemma neatRecord_runOps: "neatRecord d \<Longrightarrow> neatRecord (runOps es j d)"
  unfolding runOps_def by (induction es arbitrary: d) (simp_all add: neatRecord_recOp)

lemma neat_propagate:
  assumes "neat s"
  shows "neat (propagateEntityShortfalls u s entities pm)"
proof -
  from assms have t: "tidy s" and n: "\<forall>x \<in> set s. neatRecord (snd x)"
    by (simp_all add: neat_def list_all_iff)
  from t have ds: "distinct (map fst s)" by (simp add: tidy_def)
  have "\<forall>x \<in> set (mapRec (runOps (opsOf entities pm u s)) s). neatRecord (snd x)"
    using n by (auto simp add: mapRec_def neatRecord_runOps)
  with tidy_propagate[OF t, of u entities pm] show ?thesis
    unfolding propagate_mapRec[OF ds] by (simp add: neat_def list_all_iff)
qed

lemma neat_propagateAlong: "neat s \<Longrightarrow> neat (propagateAlong order s entities pm)"
  unfolding propagateAlong_def
  by (rule foldl_invariant[where I = neat]) (simp_all add: neat_propagate)

text \<open>Neat lists with the same view are permutations of each other.\<close>

lemma find_distinct_key:
  "distinct (map key xs) \<Longrightarrow> x \<in> set xs \<Longrightarrow> find (\<lambda>y. key y = key x) xs = Some x"
  by (induction xs) (auto simp add: image_iff)

lemma details_subset:
  assumes "distinct (map sd_coinType ds)" "detailView ds = detailView ds'"
  shows "set ds \<subseteq> set ds'"
proof
  fix d assume d: "d \<in> set ds"
  from find_distinct_key[OF assms(1) d]
  have "detailView ds (sd_coinType d) = Some (sd_amount d, sd_usdValue d, sd_causedBy d)"
    by (simp add: detailView_def)
  then have "detailView ds' (sd_coinType d) = Some (sd_amount d, sd_usdValue d, sd_causedBy d)"
    by (simp add: assms(2))
  then obtain d' where f: "find (\<lambda>y. sd_coinType y = sd_coinType d) ds' = Some d'"
    and eq: "sd_amount d' = sd_amount d" "sd_usdValue d' = sd_usdValue d" "sd_causedBy d' = sd_causedBy d"
    by (auto simp add: detailView_def)
  from f have "d' \<in> set ds'" "sd_coinType d' = sd_coinType d"
    by (auto simp add: find_Some_iff in_set_conv_nth)
  with eq have "d' = d" by simp
  with \<open>d' \<in> set ds'\<close> show "d \<in> set ds'" by simp
qed

lemma details_permuted:
  assumes "distinct (map sd_coinType ds)" "distinct (map sd_coinType ds')"
    "detailView ds = detailView ds'"
  shows "mset ds = mset ds'"
proof -
  have "set ds = set ds'"
    using details_subset[OF assms(1,3)] details_subset[OF assms(2) assms(3)[symmetric]] by auto
  moreover from assms(1,2) have "distinct ds" "distinct ds'" by (simp_all add: distinct_map)
  ultimately show ?thesis by (simp add: set_eq_iff_mset_eq_distinct)
qed

lemma canon_subset:
  assumes "neatEntries ss" "neatEntries ss'" "entryView ss = entryView ss'"
  shows "canon ` set ss \<subseteq> canon ` set ss'"
proof
  fix t assume "t \<in> canon ` set ss"
  then obtain s where s: "s \<in> set ss" and t: "t = canon s" by auto
  from assms(1) have dk: "distinct (map owesTo ss)" by (simp add: neatEntries_def)
  from find_distinct_key[OF dk s]
  have "entryView ss (owesTo s) = Some (totalUsdValue s, detailView (shortfalls s))"
    by (simp add: entryView_def)
  then have "entryView ss' (owesTo s) = Some (totalUsdValue s, detailView (shortfalls s))"
    by (simp add: assms(3))
  then obtain s' where f: "find (\<lambda>y. owesTo y = owesTo s) ss' = Some s'"
    and eq: "totalUsdValue s' = totalUsdValue s" "detailView (shortfalls s') = detailView (shortfalls s)"
    by (auto simp add: entryView_def)
  from f have s': "s' \<in> set ss'" "owesTo s' = owesTo s"
    by (auto simp add: find_Some_iff in_set_conv_nth)
  from assms(1) s have "distinct (map sd_coinType (shortfalls s))"
    by (simp add: neatEntries_def list_all_iff)
  moreover from assms(2) s'(1) have "distinct (map sd_coinType (shortfalls s'))"
    by (simp add: neatEntries_def list_all_iff)
  ultimately have "mset (shortfalls s') = mset (shortfalls s)"
    using eq(2) by (intro details_permuted) simp_all
  with s'(2) eq(1) have "canon s' = canon s" by (simp add: canon_def)
  with t have "t = canon s'" by simp
  then show "t \<in> canon ` set ss'" using s'(1) by (rule image_eqI)
qed

lemma distinct_canon: "neatEntries ss \<Longrightarrow> distinct (map canon ss)"
proof -
  assume "neatEntries ss"
  then have "distinct (map (fst \<circ> canon) ss)"
    by (simp add: neatEntries_def canon_def comp_def)
  then have "distinct (map fst (map canon ss))" by simp
  then show ?thesis by (simp only: distinct_map)
qed

lemma entries_permuted:
  assumes "neatEntries ss" "neatEntries ss'" "entryView ss = entryView ss'"
  shows "mset (map canon ss) = mset (map canon ss')"
proof -
  have "set (map canon ss) = set (map canon ss')"
    using canon_subset[OF assms] canon_subset[OF assms(2,1) assms(3)[symmetric]] by auto
  with distinct_canon[OF assms(1)] distinct_canon[OF assms(2)]
  show ?thesis by (simp only: set_eq_iff_mset_eq_distinct)
qed

lemma sim_sameUpToOrder:
  assumes "sim d d'"
    and "distinct (map fst (shortfallsByCoin d))" "distinct (map fst (shortfallsByCoin d'))"
    and "neatRecord d" "neatRecord d'"
  shows "sameUpToOrder d d'"
proof -
  from assms(1) have v: "core d = core d'" "map_of (shortfallsByCoin d) = map_of (shortfallsByCoin d')"
    "entryView (shortfallsReceived d) = entryView (shortfallsReceived d')"
    "entryView (shortfallsCaused d) = entryView (shortfallsCaused d')"
    by (simp_all add: sim_def viewOf_def)
  note en = same_entries[OF assms(2,3) v(2)]
  from en have "mset (shortfallsByCoin d) = mset (shortfallsByCoin d')"
    by (simp only: set_eq_iff_mset_eq_distinct)
  moreover have "mset (map canon (shortfallsReceived d)) = mset (map canon (shortfallsReceived d'))"
    using assms(4,5) v(3) by (intro entries_permuted) (simp_all add: neatRecord_def)
  moreover have "mset (map canon (shortfallsCaused d)) = mset (map canon (shortfallsCaused d'))"
    using assms(4,5) v(4) by (intro entries_permuted) (simp_all add: neatRecord_def)
  ultimately show ?thesis using v(1) by (simp add: sameUpToOrder_def)
qed

text \<open>The classification does not depend on the order of the lists.\<close>

lemma nonempty_map_of: "xs \<noteq> [] \<Longrightarrow> map_of xs \<noteq> Map.empty"
proof -
  assume "xs \<noteq> []"
  then obtain k v rest where "xs = (k, v) # rest" by (cases xs) auto
  then have "map_of xs k = Some v" by simp
  then show ?thesis by (metis option.distinct(1))
qed

lemma empty_map_of:
  assumes "map_of xs = map_of ys"
  shows "xs = [] \<longleftrightarrow> ys = []"
proof
  assume "xs = []"
  with assms have "map_of ys = Map.empty" by simp
  with nonempty_map_of[of ys] show "ys = []" by blast
next
  assume "ys = []"
  with assms have "map_of xs = Map.empty" by simp
  with nonempty_map_of[of xs] show "xs = []" by blast
qed

lemma empty_entryView: "ss = [] \<longleftrightarrow> entryView ss = (\<lambda>k. None)"
proof (cases ss)
  case Nil
  then show ?thesis by (simp add: entryView_def fun_eq_iff)
next
  case (Cons s rest)
  then have "entryView ss (owesTo s) \<noteq> None" by (simp add: entryView_def)
  then have "entryView ss \<noteq> (\<lambda>k. None)" by (metis)
  with Cons show ?thesis by simp
qed

lemma sim_isInsolvent:
  assumes "sim d d'"
  shows "isInsolvent d = isInsolvent d'" and "entityId d = entityId d'"
proof -
  from assms have v: "core d = core d'" "map_of (shortfallsByCoin d) = map_of (shortfallsByCoin d')"
    "entryView (shortfallsReceived d) = entryView (shortfallsReceived d')"
    by (simp_all add: sim_def viewOf_def)
  have "shortfallUsd (core d) = shortfallUsd (core d')" "totalLiabilities (core d) = totalLiabilities (core d')"
    "entityId (core d) = entityId (core d')"
    by (simp_all only: v(1))
  then have c: "shortfallUsd d = shortfallUsd d'" "totalLiabilities d = totalLiabilities d'"
    "entityId d = entityId d'"
    by (simp_all add: core_def)
  from c(3) show "entityId d = entityId d'" .
  have r: "shortfallsReceived d = [] \<longleftrightarrow> shortfallsReceived d' = []"
    using v(3) by (simp add: empty_entryView)
  show "isInsolvent d = isInsolvent d'"
    unfolding isInsolvent_def Let_def c r using empty_map_of[OF v(2)] by simp
qed

lemma simSt_insolvent:
  "simSt s s' \<Longrightarrow>
   map entityId (filter isInsolvent (map snd s)) = map entityId (filter isInsolvent (map snd s'))"
  unfolding simSt_def
  by (induction rule: list_all2_induct) (auto simp add: sim_isInsolvent)

text \<open>The order of \<open>topologicalSort\<close> is valid.\<close>

lemma relax_effect:
  "distinct ws \<Longrightarrow>
   relax ws (deg, q) = (deg', q') \<Longrightarrow>
   (\<forall>w. map_of deg' w = (if w \<in> set ws then map_option (\<lambda>d. d - 1) (map_of deg w) else map_of deg w)) \<and>
   q' = q @ filter (\<lambda>w. map_of deg w = Some 1) ws"
proof (induction ws arbitrary: deg q)
  case Nil
  then show ?case by simp
next
  case (Cons w ws)
  from Cons.prems(1) have w: "w \<notin> set ws" and d: "distinct ws" by simp_all
  show ?case
  proof (cases "map_of deg w")
    case None
    with Cons.prems(2) have "relax ws (deg, q) = (deg', q')" by simp
    from Cons.IH[OF d this] None w show ?thesis by auto
  next
    case (Some x)
    let ?deg1 = "AList.update w (x - 1) deg"
    let ?q1 = "if x - 1 = 0 then q @ [w] else q"
    from Cons.prems(2) Some have "relax ws (?deg1, ?q1) = (deg', q')" by simp
    note ih = Cons.IH[OF d this]
    have other: "map_of ?deg1 y = map_of deg y" if "y \<noteq> w" for y
      using that by (simp add: AList.update_conv')
    have self: "map_of ?deg1 w = Some (x - 1)" by (simp add: AList.update_conv')
    have f: "filter (\<lambda>y. map_of ?deg1 y = Some 1) ws = filter (\<lambda>y. map_of deg y = Some 1) ws"
    proof (rule filter_cong[OF refl])
      fix y assume "y \<in> set ws"
      with w have "y \<noteq> w" by auto
      from other[OF this] show "(map_of ?deg1 y = Some 1) = (map_of deg y = Some 1)" by simp
    qed
    have 1: "\<forall>y. map_of deg' y =
        (if y \<in> set (w # ws) then map_option (\<lambda>d. d - 1) (map_of deg y) else map_of deg y)"
    proof
      fix y
      show "map_of deg' y =
        (if y \<in> set (w # ws) then map_option (\<lambda>d. d - 1) (map_of deg y) else map_of deg y)"
      proof (cases "y = w")
        case True
        with ih w self Some show ?thesis by simp
      next
        case False
        with ih other[OF False] show ?thesis by simp
      qed
    qed
    have 2: "q' = q @ filter (\<lambda>y. map_of deg y = Some 1) (w # ws)"
      using ih f Some by auto
    from 1 2 show ?thesis by (rule conjI)
  qed
qed

lemma unmet_zero: "unmet es out w = 0 \<longleftrightarrow> (\<forall>e \<in> set es. snd e = w \<longrightarrow> fst e \<in> set out)"
  by (auto simp add: unmet_def filter_empty_conv)

lemma unmet_nonneg: "0 \<le> unmet es out w"
  by (simp add: unmet_def)

lemma unmet_snoc:
  assumes "distinct es" "v \<notin> set out"
  shows "unmet es (out @ [v]) w = unmet es out w - (if (v, w) \<in> set es then 1 else 0)"
proof -
  let ?A = "filter (\<lambda>e. snd e = w \<and> fst e \<notin> set out) es"
  have split: "length ?A = length (filter (\<lambda>e. fst e = v) ?A) + length (filter (\<lambda>e. fst e \<noteq> v) ?A)"
    using sum_length_filter_compl[of "\<lambda>e. fst e = v" ?A] by simp
  have a: "filter (\<lambda>e. fst e \<noteq> v) ?A = filter (\<lambda>e. snd e = w \<and> fst e \<notin> set (out @ [v])) es"
    by (auto intro: filter_cong)
  have b: "filter (\<lambda>e. fst e = v) ?A = filter (\<lambda>e. e = (v, w)) es"
    using assms(2) by (auto intro: filter_cong simp add: prod_eq_iff)
  have c: "length (filter (\<lambda>e. e = (v, w)) es) = (if (v, w) \<in> set es then 1 else 0)"
    using assms(1)
  proof (induction es)
    case Nil
    then show ?case by simp
  next
    case (Cons e es)
    then show ?case by (auto simp add: filter_empty_conv)
  qed
  from split show ?thesis unfolding unmet_def a[symmetric] b c by simp
qed

lemma forward_snoc:
  "forward dep (xs @ [v]) \<longleftrightarrow> forward dep xs \<and> (\<forall>x \<in> set xs. \<not> dep v x)"
  by (induction xs) auto

lemma distinct_outNeighbors: "distinct es \<Longrightarrow> distinct (outNeighbors es v)"
  unfolding outNeighbors_def
  by (simp add: distinct_map inj_on_def prod_eq_iff)

lemma set_outNeighbors: "w \<in> set (outNeighbors es v) \<longleftrightarrow> (v, w) \<in> set es"
  unfolding outNeighbors_def by force

lemma kahn_valid:
  assumes dns: "distinct ns" and des: "distinct es"
    and ends: "\<forall>e \<in> set es. fst e \<in> set ns \<and> snd e \<in> set ns"
    and acyc: "\<not> (\<exists>x. (x, x) \<in> (set es)\<^sup>+)"
  shows "n + length out = length ns \<Longrightarrow> distinct (out @ q) \<Longrightarrow> set (out @ q) \<subseteq> set ns \<Longrightarrow>
     (\<forall>w \<in> set ns - set (out @ q). map_of deg w = Some (unmet es out w) \<and> 0 < unmet es out w) \<Longrightarrow>
     (\<forall>w \<in> set (out @ q). unmet es out w = 0) \<Longrightarrow>
     forward (\<lambda>u v. (u, v) \<in> set es) out \<Longrightarrow>
     distinct (out @ kahn n es (deg, q)) \<and> set (out @ kahn n es (deg, q)) = set ns \<and>
     forward (\<lambda>u v. (u, v) \<in> set es) (out @ kahn n es (deg, q))"
proof (induction n arbitrary: out deg q)
  case 0
  from 0(2) have d: "distinct out" by simp
  from 0(3) have sub: "set out \<subseteq> set ns" by simp
  have "card (set out) = card (set ns)"
    using 0(1) d dns by (simp add: distinct_card)
  with sub have "set out = set ns" by (simp add: card_subset_eq)
  with d 0(6) show ?case by simp
next
  case (Suc n)
  show ?case
  proof (cases q)
    case Nil
    let ?R = "filter (\<lambda>w. w \<notin> set out) ns"
    have "?R = []"
    proof (rule ccontr)
      assume ne: "?R \<noteq> []"
      have "\<forall>v \<in> set ?R. hasPredIn es ?R v"
      proof
        fix v assume v: "v \<in> set ?R"
        with Suc.prems(4) Nil have "0 < unmet es out v" by simp
        then have "unmet es out v \<noteq> 0" by simp
        then obtain e where e: "e \<in> set es" "snd e = v" "fst e \<notin> set out"
          unfolding unmet_zero by blast
        with ends have "fst e \<in> set ?R" by simp
        with e show "hasPredIn es ?R v" unfolding hasPredIn_def by blast
      qed
      from closed_preds_cycle[OF ne this] acyc show False by simp
    qed
    then have "set ns \<subseteq> set out" by (auto simp add: filter_empty_conv)
    with Suc.prems(3) Nil have "set out = set ns" by auto
    with Suc.prems(2,6) Nil show ?thesis by simp
  next
    case (Cons v q0)
    let ?ws = "outNeighbors es v"
    let ?new = "filter (\<lambda>w. map_of deg w = Some 1) ?ws"
    let ?out' = "out @ [v]"
    obtain deg' q' where rel: "relax ?ws (deg, q0) = (deg', q')" by (cases "relax ?ws (deg, q0)")
    note eff = relax_effect[OF distinct_outNeighbors[OF des] rel]
    from eff have q': "q' = q0 @ ?new" by simp
    from eff have deg': "\<And>w. map_of deg' w =
        (if w \<in> set ?ws then map_option (\<lambda>d. d - 1) (map_of deg w) else map_of deg w)" by simp
    from Suc.prems(2) Cons have v: "v \<notin> set out" "v \<notin> set q0" "distinct out" "distinct q0"
      "set out \<inter> set q0 = {}" by auto
    from Suc.prems(3) Cons have vn: "v \<in> set ns" and sub: "set out \<subseteq> set ns" "set q0 \<subseteq> set ns"
      by auto
    have met: "(v, w) \<notin> set es" if "w \<in> set (out @ q)" for w
    proof
      assume "(v, w) \<in> set es"
      moreover from Suc.prems(5) that have "unmet es out w = 0" by blast
      ultimately have "v \<in> set out" unfolding unmet_zero by force
      with v(1) show False by simp
    qed
    have pend: "w \<in> set ns - set (out @ q)" if "w \<in> set ?ws" for w
    proof -
      from that have e: "(v, w) \<in> set es" by (simp add: set_outNeighbors)
      with ends have "w \<in> set ns" by force
      moreover from e met have "w \<notin> set (out @ q)" by blast
      ultimately show ?thesis by simp
    qed
    have snoc: "unmet es ?out' w = unmet es out w - (if (v, w) \<in> set es then 1 else 0)" for w
      by (rule unmet_snoc[OF des v(1)])
    have 1: "n + length ?out' = length ns" using Suc.prems(1) by simp
    have 2: "distinct (?out' @ q')"
    proof -
      have "distinct ?new" using distinct_outNeighbors[OF des] by simp
      moreover have "set ?new \<inter> set (out @ q) = {}" using pend by auto
      ultimately show ?thesis using Suc.prems(2) unfolding q' Cons by auto
    qed
    have 3: "set (?out' @ q') \<subseteq> set ns"
      using sub vn pend unfolding q' by auto
    have 4: "\<forall>w \<in> set ns - set (?out' @ q'). map_of deg' w = Some (unmet es ?out' w) \<and> 0 < unmet es ?out' w"
    proof
      fix w assume w: "w \<in> set ns - set (?out' @ q')"
      then have wp: "w \<in> set ns - set (out @ q)" unfolding q' Cons by auto
      with Suc.prems(4) have dw: "map_of deg w = Some (unmet es out w)" and pos: "0 < unmet es out w"
        by blast+
      show "map_of deg' w = Some (unmet es ?out' w) \<and> 0 < unmet es ?out' w"
      proof (cases "(v, w) \<in> set es")
        case True
        then have in_ws: "w \<in> set ?ws" by (simp add: set_outNeighbors)
        from w have "w \<notin> set ?new" unfolding q' by auto
        with in_ws dw have "unmet es out w \<noteq> 1" by auto
        with pos have "0 < unmet es out w - 1" by simp
        with True in_ws dw show ?thesis by (simp add: deg' snoc)
      next
        case False
        then have "w \<notin> set ?ws" by (simp add: set_outNeighbors)
        with False dw pos show ?thesis by (simp add: deg' snoc)
      qed
    qed
    have 5: "\<forall>w \<in> set (?out' @ q'). unmet es ?out' w = 0"
    proof
      fix w assume w: "w \<in> set (?out' @ q')"
      show "unmet es ?out' w = 0"
      proof (cases "w \<in> set (out @ q)")
        case True
        with Suc.prems(5) have "unmet es out w = 0" by blast
        with met[OF True] show ?thesis by (simp add: snoc)
      next
        case False
        with w have n: "w \<in> set ?new" unfolding q' Cons by auto
        then have in_ws: "w \<in> set ?ws" and one: "map_of deg w = Some 1" by simp_all
        from pend[OF in_ws] Suc.prems(4) have "map_of deg w = Some (unmet es out w)" by blast
        with one have "unmet es out w = 1" by simp
        moreover from in_ws have "(v, w) \<in> set es" by (simp add: set_outNeighbors)
        ultimately show ?thesis by (simp add: snoc)
      qed
    qed
    have 6: "forward (\<lambda>u v. (u, v) \<in> set es) ?out'"
      unfolding forward_snoc using Suc.prems(6) met by auto
    from Suc.IH[OF 1 2 3 4 5 6]
    show ?thesis unfolding Cons by (simp add: rel)
  qed
qed

lemma map_of_tabulate:
  "map_of (map (\<lambda>v. (v, f v)) xs) w = (if w \<in> set xs then Some (f w) else None)"
  by (induction xs) auto

lemma unmet_initial: "unmet es [] w = inDegree es w"
  by (simp add: unmet_def inDegree_def)

lemma topologicalSort_valid:
  assumes dns: "distinct (nodes g)" and des: "distinct (edges g)"
    and ends: "\<forall>e \<in> set (edges g). fst e \<in> set (nodes g) \<and> snd e \<in> set (nodes g)"
    and acyc: "\<not> hasCycle g"
  shows "validOrder g (topologicalSort g)"
proof -
  let ?es = "edges g" and ?ns = "nodes g"
  let ?deg = "map (\<lambda>v. (v, inDegree ?es v)) (filter (\<lambda>v. inDegree ?es v \<noteq> 0) ?ns)"
  let ?q = "filter (\<lambda>v. inDegree ?es v = 0) ?ns"
  from ends have "\<forall>e \<in> set ?es. fst e \<in> set ?ns" by blast
  from hasCycle_iff[OF this] acyc have nc: "\<not> (\<exists>x. (x, x) \<in> (set ?es)\<^sup>+)" by simp
  have nn: "0 \<le> inDegree ?es w" for w by (simp add: inDegree_def)
  have "distinct ([] @ kahn (length ?ns) ?es (?deg, ?q)) \<and>
        set ([] @ kahn (length ?ns) ?es (?deg, ?q)) = set ?ns \<and>
        forward (\<lambda>u v. (u, v) \<in> set ?es) ([] @ kahn (length ?ns) ?es (?deg, ?q))"
  proof (rule kahn_valid[OF dns des ends nc])
    show "length ?ns + length [] = length ?ns" by simp
    show "distinct ([] @ ?q)" using dns by simp
    show "set ([] @ ?q) \<subseteq> set ?ns" by auto
    show "\<forall>w \<in> set ?ns - set ([] @ ?q). map_of ?deg w = Some (unmet ?es [] w) \<and> 0 < unmet ?es [] w"
      using nn by (auto simp add: map_of_tabulate unmet_initial order_less_le)
    show "\<forall>w \<in> set ([] @ ?q). unmet ?es [] w = 0" by (simp add: unmet_initial)
    show "forward (\<lambda>u v. (u, v) \<in> set ?es) []" by simp
  qed
  then show ?thesis by (simp add: validOrder_def topologicalSort_def)
qed

lemma distinct_addEdges: "distinct (addEdges ns cands)"
  unfolding addEdges_def
  by (rule foldl_invariant[where I = distinct]) simp_all

lemma buildGraph_valid:
  assumes "distinct (map entity_id entities)" "\<not> hasCycle (buildGraph entities)"
  shows "validOrder (buildGraph entities) (topologicalSort (buildGraph entities))"
proof (rule topologicalSort_valid[OF _ _ _ assms(2)])
  show "distinct (nodes (buildGraph entities))" using assms(1) by (simp add: nodes_buildGraph)
  show "distinct (edges (buildGraph entities))"
    by (simp add: buildGraph_def Let_def distinct_addEdges)
  show "\<forall>e \<in> set (edges (buildGraph entities)).
          fst e \<in> set (nodes (buildGraph entities)) \<and> snd e \<in> set (nodes (buildGraph entities))"
    unfolding edges_buildGraph nodes_buildGraph obligationEdges_def by auto
qed

lemma simSt_details:
  assumes "simSt s s'"
    and "\<forall>x \<in> set s. P (snd x)" and "\<forall>x \<in> set s'. P (snd x)"
    and "\<And>d d'. sim d d' \<Longrightarrow> P d \<Longrightarrow> P d' \<Longrightarrow> Q d d'"
  shows "list_all2 Q (map snd s) (map snd s')"
  using assms(1,2,3) unfolding simSt_def
  by (induction rule: list_all2_induct) (simp_all add: assms(4))

text \<open>
  C8 (as amended). Two valid processing orders of the dependency graph (every entity once,
  no edge from a later to an earlier entity) lead to the same \<open>isSolvent\<close> and
  \<open>insolventEntities\<close>, and to details that are, entity by entity, equal up to the order
  of the entries of \<open>shortfallsByCoin\<close>, \<open>shortfallsReceived\<close> and \<open>shortfallsCaused\<close> and of
  the details within an entry. The result of \<open>checkEntitySolvency\<close> is the result along the
  order of \<open>topologicalSort\<close>, which is a valid order when the entity ids are distinct.
\<close>

theorem processing_order_invariance:
  assumes "firstPass entities pm = Inr st"
    and "validOrder (buildGraph entities) order1"
    and "validOrder (buildGraph entities) order2"
  shows "isSolvent (finalResult (propagateAlong order1 st entities pm)) =
           isSolvent (finalResult (propagateAlong order2 st entities pm)) \<and>
         insolventEntities (finalResult (propagateAlong order1 st entities pm)) =
           insolventEntities (finalResult (propagateAlong order2 st entities pm)) \<and>
         list_all2 sameUpToOrder
           (details (finalResult (propagateAlong order1 st entities pm)))
           (details (finalResult (propagateAlong order2 st entities pm))) \<and>
         (\<forall>r. checkEntitySolvency entities pm = Inr r \<longrightarrow>
            r = finalResult (propagateAlong (topologicalSort (buildGraph entities)) st entities pm) \<and>
            (distinct (map entity_id entities) \<longrightarrow>
               validOrder (buildGraph entities) (topologicalSort (buildGraph entities))))"
proof -
  let ?s1 = "propagateAlong order1 st entities pm"
  let ?s2 = "propagateAlong order2 st entities pm"
  note n0 = neat_firstPass[OF assms(1)]
  from n0(1) have t0: "tidy st" by (simp add: neat_def)
  have sim: "simSt ?s1 ?s2" by (rule propagateAlong_orders[OF assms(2,3) t0 n0(2)])
  have n1: "neat ?s1" and n2: "neat ?s2" by (rule neat_propagateAlong[OF n0(1)])+
  let ?P = "\<lambda>d. distinct (map fst (shortfallsByCoin d)) \<and> neatRecord d"
  from n1 have p1: "\<forall>x \<in> set ?s1. ?P (snd x)" by (simp add: neat_def tidy_def list_all_iff)
  from n2 have p2: "\<forall>x \<in> set ?s2. ?P (snd x)" by (simp add: neat_def tidy_def list_all_iff)
  have det: "list_all2 sameUpToOrder (map snd ?s1) (map snd ?s2)"
    by (rule simSt_details[where P = ?P, OF sim p1 p2]) (simp add: sim_sameUpToOrder)
  note ins = simSt_insolvent[OF sim]
  have run: "r = finalResult (propagateAlong (topologicalSort (buildGraph entities)) st entities pm) \<and>
        (distinct (map entity_id entities) \<longrightarrow>
           validOrder (buildGraph entities) (topologicalSort (buildGraph entities)))"
    if "checkEntitySolvency entities pm = Inr r" for r
  proof -
    from that obtain st' where "firstPass entities pm = Inr st'"
      "\<not> hasCycle (buildGraph entities)"
      "r = finalResult (propagateAlong (topologicalSort (buildGraph entities)) st' entities pm)"
      by (rule checkEntitySolvency_Inr)
    with assms(1) buildGraph_valid[of entities] show ?thesis by simp
  qed
  from det ins run show ?thesis by (simp add: finalResult_def Let_def)
qed

theorem processing_order_invariance_witness:
  "validOrder (buildGraph fork) [''A'', ''B'', ''C''] \<and>
   validOrder (buildGraph fork) [''B'', ''A'', ''C''] \<and>
   topologicalSort (buildGraph fork) = [''A'', ''B'', ''C''] \<and>
   insolventEntities (finalResult (propagateAlong [''B'', ''A'', ''C''] (projr (firstPass fork usdcPrices))
      fork usdcPrices)) = [''A'', ''B''] \<and>
   list_all2 sameUpToOrder
     (details (projr (checkEntitySolvency fork usdcPrices)))
     (details (finalResult (propagateAlong [''B'', ''A'', ''C''] (projr (firstPass fork usdcPrices))
        fork usdcPrices)))"
proof -
  let ?st = "projr (firstPass fork usdcPrices)"
  have "\<not> isl (firstPass fork usdcPrices)" by code_simp
  then have fp: "firstPass fork usdcPrices = Inr ?st" by (cases "firstPass fork usdcPrices") simp_all
  have "\<not> isl (checkEntitySolvency fork usdcPrices)" by code_simp
  then have ce: "checkEntitySolvency fork usdcPrices = Inr (projr (checkEntitySolvency fork usdcPrices))"
    by (cases "checkEntitySolvency fork usdcPrices") simp_all
  have g: "nodes (buildGraph fork) = [''A'', ''B'', ''C'']"
    "edges (buildGraph fork) = [(''A'', ''C''), (''B'', ''C'')]" by code_simp+
  have v1: "validOrder (buildGraph fork) [''A'', ''B'', ''C'']"
    unfolding validOrder_def g by auto
  have v2: "validOrder (buildGraph fork) [''B'', ''A'', ''C'']"
    unfolding validOrder_def g by auto
  have ts: "topologicalSort (buildGraph fork) = [''A'', ''B'', ''C'']" by code_simp
  have ins: "insolventEntities (projr (checkEntitySolvency fork usdcPrices)) = [''A'', ''B'']"
    by code_simp
  note t = processing_order_invariance[OF fp v1 v2]
  from t ce have r: "projr (checkEntitySolvency fork usdcPrices) =
      finalResult (propagateAlong [''A'', ''B'', ''C''] ?st fork usdcPrices)"
    unfolding ts by blast
  from t ins v1 v2 ts show ?thesis unfolding r by simp
qed

theorem processing_order_changes_lists:
  "validOrder (buildGraph fork) [''A'', ''B'', ''C''] \<and>
   validOrder (buildGraph fork) [''B'', ''A'', ''C''] \<and>
   map (\<lambda>d. (entityId d, map owesTo (shortfallsReceived d)))
     (details (finalResult (propagateAlong [''A'', ''B'', ''C''] (projr (firstPass fork usdcPrices))
        fork usdcPrices))) =
     [(''A'', []), (''B'', []), (''C'', [''A'', ''B''])] \<and>
   map (\<lambda>d. (entityId d, map owesTo (shortfallsReceived d)))
     (details (finalResult (propagateAlong [''B'', ''A'', ''C''] (projr (firstPass fork usdcPrices))
        fork usdcPrices))) =
     [(''A'', []), (''B'', []), (''C'', [''B'', ''A''])] \<and>
   finalResult (propagateAlong [''A'', ''B'', ''C''] (projr (firstPass fork usdcPrices)) fork usdcPrices) \<noteq>
   finalResult (propagateAlong [''B'', ''A'', ''C''] (projr (firstPass fork usdcPrices)) fork usdcPrices)"
proof -
  let ?r1 = "finalResult (propagateAlong [''A'', ''B'', ''C''] (projr (firstPass fork usdcPrices)) fork usdcPrices)"
  let ?r2 = "finalResult (propagateAlong [''B'', ''A'', ''C''] (projr (firstPass fork usdcPrices)) fork usdcPrices)"
  have g: "nodes (buildGraph fork) = [''A'', ''B'', ''C'']"
    "edges (buildGraph fork) = [(''A'', ''C''), (''B'', ''C'')]" by code_simp+
  have v1: "validOrder (buildGraph fork) [''A'', ''B'', ''C'']"
    unfolding validOrder_def g by auto
  have v2: "validOrder (buildGraph fork) [''B'', ''A'', ''C'']"
    unfolding validOrder_def g by auto
  have 1: "map (\<lambda>d. (entityId d, map owesTo (shortfallsReceived d))) (details ?r1) =
     [(''A'', []), (''B'', []), (''C'', [''A'', ''B''])]" by code_simp
  have 2: "map (\<lambda>d. (entityId d, map owesTo (shortfallsReceived d))) (details ?r2) =
     [(''A'', []), (''B'', []), (''C'', [''B'', ''A''])]" by code_simp
  have "?r1 \<noteq> ?r2"
  proof
    assume "?r1 = ?r2"
    then have "map (\<lambda>d. (entityId d, map owesTo (shortfallsReceived d))) (details ?r1) =
               map (\<lambda>d. (entityId d, map owesTo (shortfallsReceived d))) (details ?r2)"
      by (simp only:)
    then show False unfolding 1 2 by simp
  qed
  with v1 v2 1 2 show ?thesis by (intro conjI)
qed

end
